theory Spec2Isabelle
  imports Main "HOL-Library.AList"
begin

section \<open>Identifiers, ordered maps and ordered sets\<close>

text \<open>
  Node and edge identifiers are strings. A JavaScript \<open>Map\<close> iterates in insertion
  order and \<open>Map.set\<close> on an existing key keeps the key's position, which is what
  \<open>AList.update\<close> does on an association list. A JavaScript \<open>Set\<close> is a list
  without repetitions in insertion order.
\<close>

type_synonym NodeId = string
type_synonym EdgeId = string

definition has :: "('k \<times> 'v) list \<Rightarrow> 'k \<Rightarrow> bool" where
  "has m k = (map_of m k \<noteq> None)"

definition set_add :: "'a list \<Rightarrow> 'a \<Rightarrow> 'a list" where
  "set_add s x = (if x \<in> set s then s else s @ [x])"

section \<open>Decimal rendering of a number inside a template string\<close>

definition digit_char :: "nat \<Rightarrow> char" where
  "digit_char d = ''0123456789'' ! d"

fun show_nat :: "nat \<Rightarrow> string" where
  "show_nat n = (if n < 10 then [digit_char n] else show_nat (n div 10) @ [digit_char (n mod 10)])"

declare show_nat.simps [simp del]

section \<open>The graph engine\<close>

record 'm Node =
  node_id :: NodeId
  node_metadata :: "'m option"

record 'm Edge =
  edge_id :: EdgeId
  edge_from :: NodeId
  edge_to :: NodeId
  edge_metadata :: "'m option"

record GraphOptions =
  allowSelfLoops :: bool
  allowMultiEdges :: bool
  validateOnConstruction :: bool

record ('nm, 'em) DirectedGraph =
  nodes :: "(NodeId \<times> 'nm Node) list"
  edges :: "(EdgeId \<times> 'em Edge) list"
  adjacencyList :: "(NodeId \<times> NodeId list) list"
  reverseAdjacencyList :: "(NodeId \<times> NodeId list) list"
  edgeIndex :: "(string \<times> EdgeId list) list"
  nextEdgeId :: nat
  options :: GraphOptions

text \<open>The constructor: the three options default to true, false, true.\<close>

definition new_graph :: "bool option \<Rightarrow> bool option \<Rightarrow> bool option \<Rightarrow> ('nm, 'em) DirectedGraph" where
  "new_graph sl me vc =
     \<lparr> nodes = [], edges = [], adjacencyList = [], reverseAdjacencyList = [],
       edgeIndex = [], nextEdgeId = 0,
       options = \<lparr> allowSelfLoops = (case sl of None \<Rightarrow> True | Some b \<Rightarrow> b),
                   allowMultiEdges = (case me of None \<Rightarrow> False | Some b \<Rightarrow> b),
                   validateOnConstruction = (case vc of None \<Rightarrow> True | Some b \<Rightarrow> b) \<rparr> \<rparr>"

datatype graph_error =
    NodeAlreadyExists NodeId
  | SourceNodeMissing NodeId
  | TargetNodeMissing NodeId
  | SelfLoopNotAllowed NodeId NodeId
  | EdgeAlreadyExists string
  | InvariantBrokenForward NodeId NodeId
  | InvariantBrokenReverse NodeId NodeId
  | UnknownNode NodeId

text \<open>The usage errors of the two mutating operations (the spec's first error category).\<close>

fun is_usage_error :: "graph_error \<Rightarrow> bool" where
  "is_usage_error (NodeAlreadyExists _) = True"
| "is_usage_error (SourceNodeMissing _) = True"
| "is_usage_error (TargetNodeMissing _) = True"
| "is_usage_error (SelfLoopNotAllowed _ _) = True"
| "is_usage_error (EdgeAlreadyExists _) = True"
| "is_usage_error _ = False"

text \<open>
  \<open>getEdgeKey\<close>: the template string \<open>`${from.length}:${from}|${to.length}:${to}`\<close>.
\<close>

definition getEdgeKey :: "NodeId \<Rightarrow> NodeId \<Rightarrow> string" where
  "getEdgeKey from to =
     show_nat (length from) @ '':'' @ from @ ''|'' @ show_nat (length to) @ '':'' @ to"

text \<open>
  A mutating method returns its outcome together with the state the object is left in,
  so that a throw after a write keeps the write.
\<close>

definition addNode ::
  "('nm, 'em) DirectedGraph \<Rightarrow> NodeId \<Rightarrow> 'nm option \<Rightarrow> (graph_error + unit) \<times> ('nm, 'em) DirectedGraph" where
  "addNode g i md =
     (if has (nodes g) i then (Inl (NodeAlreadyExists i), g)
      else
        let g1 = g\<lparr>nodes := AList.update i \<lparr>node_id = i, node_metadata = md\<rparr> (nodes g)\<rparr>;
            g2 = g1\<lparr>adjacencyList := AList.update i [] (adjacencyList g1)\<rparr>;
            g3 = g2\<lparr>reverseAdjacencyList := AList.update i [] (reverseAdjacencyList g2)\<rparr>
        in (Inr (), g3))"

definition set_has :: "NodeId list option \<Rightarrow> NodeId \<Rightarrow> bool" where
  "set_has s x = (case s of None \<Rightarrow> False | Some xs \<Rightarrow> x \<in> set xs)"

definition validateEdgeInvariants :: "('nm, 'em) DirectedGraph \<Rightarrow> NodeId \<Rightarrow> NodeId \<Rightarrow> graph_error option" where
  "validateEdgeInvariants g from to =
     (if \<not> set_has (map_of (adjacencyList g) from) to then Some (InvariantBrokenForward from to)
      else if \<not> set_has (map_of (reverseAdjacencyList g) to) from then Some (InvariantBrokenReverse from to)
      else None)"

definition addEdge ::
  "('nm, 'em) DirectedGraph \<Rightarrow> NodeId \<Rightarrow> NodeId \<Rightarrow> 'em option \<Rightarrow> (graph_error + EdgeId) \<times> ('nm, 'em) DirectedGraph" where
  "addEdge g from to md =
     (if \<not> has (nodes g) from then (Inl (SourceNodeMissing from), g)
      else if \<not> has (nodes g) to then (Inl (TargetNodeMissing to), g)
      else if \<not> allowSelfLoops (options g) \<and> from = to then (Inl (SelfLoopNotAllowed from to), g)
      else
        let edgeKey = getEdgeKey from to in
        if \<not> allowMultiEdges (options g) \<and> has (edgeIndex g) edgeKey
        then (Inl (EdgeAlreadyExists edgeKey), g)
        else
          let edgeId = (if allowMultiEdges (options g)
                        then edgeKey @ ''#'' @ show_nat (nextEdgeId g) else edgeKey);
              g1 = (if allowMultiEdges (options g) then g\<lparr>nextEdgeId := nextEdgeId g + 1\<rparr> else g);
              edge = \<lparr>edge_id = edgeId, edge_from = from, edge_to = to, edge_metadata = md\<rparr>;
              g2 = g1\<lparr>edges := AList.update edgeId edge (edges g1)\<rparr>;
              bucket = (case map_of (edgeIndex g2) edgeKey of None \<Rightarrow> [] | Some b \<Rightarrow> b);
              g3 = g2\<lparr>edgeIndex := AList.update edgeKey (set_add bucket edgeId) (edgeIndex g2)\<rparr>;
              g4 = (case map_of (adjacencyList g3) from of
                      None \<Rightarrow> g3
                    | Some fromAdj \<Rightarrow> g3\<lparr>adjacencyList := AList.update from (set_add fromAdj to) (adjacencyList g3)\<rparr>);
              g5 = (case map_of (reverseAdjacencyList g4) to of
                      None \<Rightarrow> g4
                    | Some toRev \<Rightarrow> g4\<lparr>reverseAdjacencyList := AList.update to (set_add toRev from) (reverseAdjacencyList g4)\<rparr>)
          in if validateOnConstruction (options g)
             then (case validateEdgeInvariants g5 from to of
                     Some e \<Rightarrow> (Inl e, g5)
                   | None \<Rightarrow> (Inr edgeId, g5))
             else (Inr edgeId, g5))"

definition getSuccessors :: "('nm, 'em) DirectedGraph \<Rightarrow> NodeId \<Rightarrow> NodeId list" where
  "getSuccessors g n = (case map_of (adjacencyList g) n of None \<Rightarrow> [] | Some s \<Rightarrow> s)"

definition getPredecessors :: "('nm, 'em) DirectedGraph \<Rightarrow> NodeId \<Rightarrow> NodeId list" where
  "getPredecessors g n = (case map_of (reverseAdjacencyList g) n of None \<Rightarrow> [] | Some s \<Rightarrow> s)"

definition hasNode :: "('nm, 'em) DirectedGraph \<Rightarrow> NodeId \<Rightarrow> bool" where
  "hasNode g n = has (nodes g) n"

definition hasEdge :: "('nm, 'em) DirectedGraph \<Rightarrow> NodeId \<Rightarrow> NodeId \<Rightarrow> bool" where
  "hasEdge g from to =
     (case map_of (edgeIndex g) (getEdgeKey from to) of None \<Rightarrow> False | Some es \<Rightarrow> length es > 0)"

definition clear :: "('nm, 'em) DirectedGraph \<Rightarrow> ('nm, 'em) DirectedGraph" where
  "clear g = g\<lparr>nodes := [], edges := [], adjacencyList := [], reverseAdjacencyList := [],
               edgeIndex := [], nextEdgeId := 0\<rparr>"

subsection \<open>topologicalSort: Kahn's algorithm\<close>

text \<open>
  The body of the \<open>for\<close> loop over the successors of the dequeued node: decrement the
  in-degree (a missing entry counts as 0) and enqueue the successor when it reaches 0.
  The same loop body serves the nodes here and the components of the condensation graph.
\<close>

fun kahn_for :: "'a list \<Rightarrow> ('a \<times> int) list \<Rightarrow> 'a list \<Rightarrow> ('a \<times> int) list \<times> 'a list" where
  "kahn_for [] inDegree queue = (inDegree, queue)"
| "kahn_for (v # vs) inDegree queue =
     (let nd = (case map_of inDegree v of None \<Rightarrow> 0 | Some d \<Rightarrow> d) - 1;
          inDegree' = AList.update v nd inDegree
      in kahn_for vs inDegree' (if nd = 0 then queue @ [v] else queue))"

function topo_while :: "('nm, 'em) DirectedGraph \<Rightarrow> (NodeId \<times> int) list \<Rightarrow> NodeId list \<Rightarrow> nat
    \<Rightarrow> NodeId list \<Rightarrow> NodeId list" where
  "topo_while g inDegree queue head result =
     (if head < length queue
      then
        let u = queue ! head;
            st = kahn_for (case map_of (adjacencyList g) u of None \<Rightarrow> [] | Some s \<Rightarrow> s) inDegree queue
        in topo_while g (fst st) (snd st) (head + 1) (result @ [u])
      else result)"
  by pat_completeness auto
termination
proof (relation "measure (\<lambda>(g, inDegree, queue, head, result).
    length queue + card {k. \<exists>d. map_of inDegree k = Some d \<and> 0 < d} - head)")
  show "wf (measure (\<lambda>(g :: ('nm, 'em) DirectedGraph, inDegree :: (NodeId \<times> int) list,
      queue :: NodeId list, head :: nat, result :: NodeId list).
    length queue + card {k. \<exists>d. map_of inDegree k = Some d \<and> 0 < d} - head))" by simp
next
  fix g :: "('nm, 'em) DirectedGraph" and inDegree :: "(NodeId \<times> int) list"
    and queue :: "NodeId list" and head :: nat and result :: "NodeId list"
    and x :: NodeId and xa :: "(NodeId \<times> int) list \<times> NodeId list"
  assume h: "head < length queue" and x: "x = queue ! head"
    and xa: "xa = kahn_for (case map_of (adjacencyList g) x of None \<Rightarrow> [] | Some s \<Rightarrow> s) inDegree queue"
  have step: "length (snd (kahn_for vs inD q)) + card {k. \<exists>d. map_of (fst (kahn_for vs inD q)) k = Some d \<and> 0 < d}
      \<le> length q + card {k. \<exists>d. map_of inD k = Some d \<and> 0 < d} \<and> length q \<le> length (snd (kahn_for vs inD q))"
    for vs :: "NodeId list" and inD :: "(NodeId \<times> int) list" and q :: "NodeId list"
  proof (induction vs arbitrary: inD q)
    case Nil
    show ?case by simp
  next
    case (Cons v vs)
    let ?nd = "(case map_of inD v of None \<Rightarrow> 0 | Some d \<Rightarrow> d) - 1"
    let ?inD = "AList.update v ?nd inD"
    let ?q = "if ?nd = 0 then q @ [v] else q"
    let ?P = "{k. \<exists>d. map_of inD k = Some d \<and> 0 < d}"
    let ?P1 = "{k. \<exists>d. map_of ?inD k = Some d \<and> 0 < d}"
    have fin: "finite ?P"
      by (rule finite_subset [OF _ finite_dom_map_of [of inD]]) auto
    have "length ?q + card ?P1 \<le> length q + card ?P"
    proof (cases "?nd = 0")
      case True
      then have vP: "v \<in> ?P" by (auto split: option.splits)
      from True have "?P1 = ?P - {v}" by (auto simp: update_conv')
      moreover from fin vP have "0 < card ?P" by (auto simp: card_gt_0_iff)
      ultimately have "card ?P1 = card ?P - 1" "1 \<le> card ?P"
        using fin vP by simp_all
      with True show ?thesis by simp
    next
      case False
      have "?P1 \<subseteq> ?P" by (auto simp: update_conv' split: option.splits if_splits)
      with fin have "card ?P1 \<le> card ?P" by (rule card_mono)
      with False show ?thesis by simp
    qed
    moreover have "length q \<le> length ?q" by simp
    moreover note Cons.IH [of ?inD ?q]
    ultimately show ?case by (simp add: Let_def)
  qed
  from step [of "case map_of (adjacencyList g) x of None \<Rightarrow> [] | Some s \<Rightarrow> s" inDegree queue] xa
  have "length (snd xa) + card {k. \<exists>d. map_of (fst xa) k = Some d \<and> 0 < d}
      \<le> length queue + card {k. \<exists>d. map_of inDegree k = Some d \<and> 0 < d}" by simp
  with h show "((g, fst xa, snd xa, head + 1, result @ [x]), (g, inDegree, queue, head, result))
      \<in> measure (\<lambda>(g, inDegree, queue, head, result).
          length queue + card {k. \<exists>d. map_of inDegree k = Some d \<and> 0 < d} - head)"
    by simp
qed

declare topo_while.simps [simp del]

definition init_inDegree :: "('nm, 'em) DirectedGraph \<Rightarrow> (NodeId \<times> int) list" where
  "init_inDegree g =
     fold (\<lambda>nodeId m. AList.update nodeId
             (case map_of (reverseAdjacencyList g) nodeId of None \<Rightarrow> 0 | Some s \<Rightarrow> int (length s)) m)
          (map fst (nodes g)) []"

definition zero_degree :: "('a \<times> int) list \<Rightarrow> 'a list" where
  "zero_degree inDegree = map fst (filter (\<lambda>nd. snd nd = 0) inDegree)"

text \<open>The result \<open>None\<close> is JavaScript's \<open>null\<close>.\<close>

definition topologicalSort :: "('nm, 'em) DirectedGraph \<Rightarrow> NodeId list option" where
  "topologicalSort g =
     (let inDegree = init_inDegree g;
          queue = zero_degree inDegree;
          result = topo_while g inDegree queue 0 []
      in if length result = length (nodes g) then Some result else None)"

subsection \<open>findSCCs: Tarjan's algorithm\<close>

record SCC =
  scc_id :: nat
  scc_nodes :: "NodeId list"
  isAcyclic :: bool

text \<open>
  The variables that \<open>strongConnect\<close> closes over. The stack has its top at the head of
  the list. A lookup marked with the non-null assertion gives a number or \<open>undefined\<close>,
  and \<open>Math.min\<close> of \<open>undefined\<close> or \<open>NaN\<close> is \<open>NaN\<close>: in \<open>lowlink\<close> the value \<open>None\<close>
  stands for both.
\<close>

record tarjan_state =
  index :: "NodeId \<rightharpoonup> nat"
  lowlink :: "NodeId \<rightharpoonup> nat"
  onStack :: "NodeId set"
  stack :: "NodeId list"
  currentIndex :: nat
  sccs :: "SCC list"

definition js_min :: "nat option \<Rightarrow> nat option \<Rightarrow> nat option" where
  "js_min a b = (case a of None \<Rightarrow> None | Some x \<Rightarrow> (case b of None \<Rightarrow> None | Some y \<Rightarrow> Some (min x y)))"

text \<open>
  The \<open>do ... while (w !== nodeId)\<close> loop. On an empty stack \<open>pop\<close> gives \<open>undefined\<close>
  for ever and the loop does not end: \<open>None\<close>.
\<close>

fun pop_scc :: "NodeId \<Rightarrow> NodeId list \<Rightarrow> NodeId set \<Rightarrow> NodeId list
    \<Rightarrow> (NodeId list \<times> NodeId set \<times> NodeId list) option" where
  "pop_scc nodeId [] onSt sccNodes = None"
| "pop_scc nodeId (w # rest) onSt sccNodes =
     (if w \<noteq> nodeId then pop_scc nodeId rest (onSt - {w}) (sccNodes @ [w])
      else Some (rest, onSt - {w}, sccNodes @ [w]))"

definition emit_scc :: "('nm, 'em) DirectedGraph \<Rightarrow> NodeId \<Rightarrow> tarjan_state \<Rightarrow> tarjan_state option" where
  "emit_scc g nodeId st =
     (if lowlink st nodeId = index st nodeId
      then (case pop_scc nodeId (stack st) (onStack st) [] of
              None \<Rightarrow> None
            | Some popped \<Rightarrow>
                Some (st\<lparr>stack := fst popped, onStack := fst (snd popped),
                         sccs := sccs st @
                           [\<lparr>scc_id = length (sccs st), scc_nodes = snd (snd popped),
                             isAcyclic = (length (snd (snd popped)) = 1 \<and> \<not> hasEdge g nodeId nodeId)\<rparr>]\<rparr>))
      else Some st)"

text \<open>
  The first five statements of \<open>strongConnect\<close>, and the assignment
  \<open>lowlink.set(nodeId, Math.min(lowlink.get(nodeId)!, other))\<close>.
\<close>

definition enter_node :: "NodeId \<Rightarrow> tarjan_state \<Rightarrow> tarjan_state" where
  "enter_node nodeId st =
     st\<lparr>index := (index st)(nodeId \<mapsto> currentIndex st),
        lowlink := (lowlink st)(nodeId \<mapsto> currentIndex st),
        currentIndex := currentIndex st + 1,
        stack := nodeId # stack st,
        onStack := insert nodeId (onStack st)\<rparr>"

definition lower_lowlink :: "NodeId \<Rightarrow> nat option \<Rightarrow> tarjan_state \<Rightarrow> tarjan_state" where
  "lower_lowlink nodeId other st =
     st\<lparr>lowlink := (lowlink st)(nodeId := js_min (lowlink st nodeId) other)\<rparr>"

text \<open>
  \<open>strongConnect\<close> and the \<open>for\<close> loop over the successors inside it call each other:
  \<open>Visit nodeId\<close> is the call \<open>strongConnect(nodeId)\<close>, \<open>Successors nodeId ws\<close> is the
  loop of that call with the successors \<open>ws\<close> still to do.
\<close>

datatype sc_task = Visit NodeId | Successors NodeId "NodeId list"

partial_function (option) strongConnect ::
  "('nm, 'em) DirectedGraph \<Rightarrow> sc_task \<Rightarrow> tarjan_state \<Rightarrow> tarjan_state option" where
  "strongConnect g task st =
     (case task of
        Visit nodeId \<Rightarrow>
          Option.bind
            (strongConnect g (Successors nodeId (getSuccessors g nodeId)) (enter_node nodeId st))
            (emit_scc g nodeId)
      | Successors nodeId ws \<Rightarrow>
          (case ws of
             [] \<Rightarrow> Some st
           | successor # rest \<Rightarrow>
               if index st successor = None
               then Option.bind (strongConnect g (Visit successor) st)
                      (\<lambda>st1. strongConnect g (Successors nodeId rest)
                         (lower_lowlink nodeId (lowlink st1 successor) st1))
               else if successor \<in> onStack st
               then strongConnect g (Successors nodeId rest)
                      (lower_lowlink nodeId (index st successor) st)
               else strongConnect g (Successors nodeId rest) st))"

fun scc_roots :: "('nm, 'em) DirectedGraph \<Rightarrow> NodeId list \<Rightarrow> tarjan_state \<Rightarrow> tarjan_state option" where
  "scc_roots g [] st = Some st"
| "scc_roots g (nodeId # rest) st =
     (if index st nodeId = None
      then Option.bind (strongConnect g (Visit nodeId) st) (scc_roots g rest)
      else scc_roots g rest st)"

definition findSCCs :: "('nm, 'em) DirectedGraph \<Rightarrow> SCC list option" where
  "findSCCs g =
     map_option sccs
       (scc_roots g (map fst (nodes g))
          \<lparr>index = Map.empty, lowlink = Map.empty, onStack = {}, stack = [],
           currentIndex = 0, sccs = []\<rparr>)"

subsection \<open>buildCondensationGraph\<close>

datatype EdgeType = Tree | Back | Forward | Cross

record 'em CondensationComponent =
  cc_id :: nat
  members :: "NodeId list"
  isLoop :: bool
  entryEdges :: "'em Edge list"
  exitEdges :: "'em Edge list"
  internalEdges :: "'em Edge list"
  feedbackEdges :: "'em Edge list"

record 'em CondensationGraph =
  components :: "'em CondensationComponent list"
  componentMap :: "(NodeId \<times> nat) list"
  topologicalOrder :: "nat list"

datatype cg_error = MissingComponentMapping | ComponentLookupFailed | CgTypeError

definition init_componentMap :: "SCC list \<Rightarrow> (NodeId \<times> nat) list" where
  "init_componentMap sccList =
     fold (\<lambda>scc m. fold (\<lambda>n m'. AList.update n (scc_id scc) m') (scc_nodes scc) m) sccList []"

definition init_components :: "SCC list \<Rightarrow> 'em CondensationComponent list" where
  "init_components sccList =
     map (\<lambda>scc. \<lparr>cc_id = scc_id scc, members = scc_nodes scc, isLoop = (\<not> isAcyclic scc),
                 entryEdges = [], exitEdges = [], internalEdges = [], feedbackEdges = []\<rparr>) sccList"

text \<open>
  The component objects are shared between the \<open>components\<close> array and the map
  \<open>componentById\<close>, and the edge pass writes into them through the map: the map holds
  the position of the object in the array.
\<close>

definition init_componentById :: "'em CondensationComponent list \<Rightarrow> (nat \<times> nat) list" where
  "init_componentById comps =
     fold (\<lambda>i m. AList.update (cc_id (comps ! i)) i m) [0 ..< length comps] []"

record 'em cg_state =
  cg_components :: "'em CondensationComponent list"
  compAdj :: "(nat \<times> nat list) list"
  indeg :: "(nat \<times> int) list"

definition init_cg_state :: "'em CondensationComponent list \<Rightarrow> 'em cg_state" where
  "init_cg_state comps =
     fold (\<lambda>c s. s\<lparr>compAdj := AList.update (cc_id c) [] (compAdj s),
                    indeg := AList.update (cc_id c) 0 (indeg s)\<rparr>)
          comps \<lparr>cg_components = comps, compAdj = [], indeg = []\<rparr>"

definition route_edge :: "(NodeId \<times> nat) list \<Rightarrow> (nat \<times> nat) list \<Rightarrow> (EdgeId \<rightharpoonup> EdgeType)
    \<Rightarrow> 'em Edge \<Rightarrow> 'em cg_state \<Rightarrow> cg_error + 'em cg_state" where
  "route_edge cmap byId edgeClass edge s =
     (case map_of cmap (edge_from edge) of
        None \<Rightarrow> Inl MissingComponentMapping
      | Some cf \<Rightarrow>
     (case map_of cmap (edge_to edge) of
        None \<Rightarrow> Inl MissingComponentMapping
      | Some ct \<Rightarrow>
     (case map_of byId cf of
        None \<Rightarrow> Inl ComponentLookupFailed
      | Some fi \<Rightarrow>
     (case map_of byId ct of
        None \<Rightarrow> Inl ComponentLookupFailed
      | Some ti \<Rightarrow>
          if cf = ct then
            let cs = cg_components s;
                c1 = (cs ! fi)\<lparr>internalEdges := internalEdges (cs ! fi) @ [edge]\<rparr>;
                c2 = (if edgeClass (edge_id edge) = Some Back
                      then c1\<lparr>feedbackEdges := feedbackEdges c1 @ [edge]\<rparr> else c1)
            in Inr (s\<lparr>cg_components := cs[fi := c2]\<rparr>)
          else
            let cs = cg_components s;
                cs1 = cs[fi := (cs ! fi)\<lparr>exitEdges := exitEdges (cs ! fi) @ [edge]\<rparr>];
                cs2 = cs1[ti := (cs1 ! ti)\<lparr>entryEdges := entryEdges (cs1 ! ti) @ [edge]\<rparr>];
                s1 = s\<lparr>cg_components := cs2\<rparr>
            in (case map_of (compAdj s1) cf of
                  None \<Rightarrow> Inl CgTypeError
                | Some adj \<Rightarrow>
                    if ct \<in> set adj then Inr s1
                    else Inr (s1\<lparr>compAdj := AList.update cf (adj @ [ct]) (compAdj s1),
                                 indeg := AList.update ct
                                   ((case map_of (indeg s1) ct of None \<Rightarrow> 0 | Some d \<Rightarrow> d) + 1)
                                   (indeg s1)\<rparr>))))))"

fun route_edges :: "(NodeId \<times> nat) list \<Rightarrow> (nat \<times> nat) list \<Rightarrow> (EdgeId \<rightharpoonup> EdgeType)
    \<Rightarrow> 'em Edge list \<Rightarrow> 'em cg_state \<Rightarrow> cg_error + 'em cg_state" where
  "route_edges cmap byId edgeClass [] s = Inr s"
| "route_edges cmap byId edgeClass (edge # rest) s =
     (case route_edge cmap byId edgeClass edge s of
        Inl e \<Rightarrow> Inl e
      | Inr s' \<Rightarrow> route_edges cmap byId edgeClass rest s')"

function comp_while :: "(nat \<times> nat list) list \<Rightarrow> (nat \<times> int) list \<Rightarrow> nat list \<Rightarrow> nat
    \<Rightarrow> nat list \<Rightarrow> cg_error + nat list" where
  "comp_while cAdj inDegree q head order =
     (if head < length q
      then
        let current = q ! head in
        (case map_of cAdj current of
           None \<Rightarrow> Inl CgTypeError
         | Some nbs \<Rightarrow>
             let st = kahn_for nbs inDegree q
             in comp_while cAdj (fst st) (snd st) (head + 1) (order @ [current]))
      else Inr order)"
  by pat_completeness auto
termination
proof (relation "measure (\<lambda>(cAdj, inDegree, q, head, order).
    length q + card {k. \<exists>d. map_of inDegree k = Some d \<and> 0 < d} - head)")
  show "wf (measure (\<lambda>(cAdj :: (nat \<times> nat list) list, inDegree :: (nat \<times> int) list,
      q :: nat list, head :: nat, order :: nat list).
    length q + card {k. \<exists>d. map_of inDegree k = Some d \<and> 0 < d} - head))" by simp
next
  fix cAdj :: "(nat \<times> nat list) list" and inDegree :: "(nat \<times> int) list"
    and q :: "nat list" and head :: nat and order :: "nat list"
    and x :: nat and x2 :: "nat list" and xa :: "(nat \<times> int) list \<times> nat list"
  assume h: "head < length q" and xa: "xa = kahn_for x2 inDegree q"
  have step: "length (snd (kahn_for vs inD qq)) + card {k. \<exists>d. map_of (fst (kahn_for vs inD qq)) k = Some d \<and> 0 < d}
      \<le> length qq + card {k. \<exists>d. map_of inD k = Some d \<and> 0 < d} \<and> length qq \<le> length (snd (kahn_for vs inD qq))"
    for vs :: "nat list" and inD :: "(nat \<times> int) list" and qq :: "nat list"
  proof (induction vs arbitrary: inD qq)
    case Nil
    show ?case by simp
  next
    case (Cons v vs)
    let ?nd = "(case map_of inD v of None \<Rightarrow> 0 | Some d \<Rightarrow> d) - 1"
    let ?inD = "AList.update v ?nd inD"
    let ?q = "if ?nd = 0 then qq @ [v] else qq"
    let ?P = "{k. \<exists>d. map_of inD k = Some d \<and> 0 < d}"
    let ?P1 = "{k. \<exists>d. map_of ?inD k = Some d \<and> 0 < d}"
    have fin: "finite ?P"
      by (rule finite_subset [OF _ finite_dom_map_of [of inD]]) auto
    have "length ?q + card ?P1 \<le> length qq + card ?P"
    proof (cases "?nd = 0")
      case True
      then have vP: "v \<in> ?P" by (auto split: option.splits)
      from True have "?P1 = ?P - {v}" by (auto simp: update_conv')
      moreover from fin vP have "0 < card ?P" by (auto simp: card_gt_0_iff)
      ultimately have "card ?P1 = card ?P - 1" "1 \<le> card ?P"
        using fin vP by simp_all
      with True show ?thesis by simp
    next
      case False
      have "?P1 \<subseteq> ?P" by (auto simp: update_conv' split: option.splits if_splits)
      with fin have "card ?P1 \<le> card ?P" by (rule card_mono)
      with False show ?thesis by simp
    qed
    moreover have "length qq \<le> length ?q" by simp
    moreover note Cons.IH [of ?inD ?q]
    ultimately show ?case by (simp add: Let_def)
  qed
  from step [of x2 inDegree q] xa
  have "length (snd xa) + card {k. \<exists>d. map_of (fst xa) k = Some d \<and> 0 < d}
      \<le> length q + card {k. \<exists>d. map_of inDegree k = Some d \<and> 0 < d}" by simp
  with h show "((cAdj, fst xa, snd xa, head + 1, order @ [x]), (cAdj, inDegree, q, head, order))
      \<in> measure (\<lambda>(cAdj, inDegree, q, head, order).
          length q + card {k. \<exists>d. map_of inDegree k = Some d \<and> 0 < d} - head)"
    by simp
qed

declare comp_while.simps [simp del]

text \<open>
  The SCC list and the edge classification are the two optional precomputed inputs; a
  missing SCC list is computed by \<open>findSCCs\<close>. The edge classification only decides
  which internal edges are also put into the feedback bucket.
\<close>

definition buildCondensationGraph ::
  "('nm, 'em) DirectedGraph \<Rightarrow> SCC list option \<Rightarrow> (EdgeId \<rightharpoonup> EdgeType)
    \<Rightarrow> (cg_error + 'em CondensationGraph) option" where
  "buildCondensationGraph g precomputedSccs edgeClass =
     (case (case precomputedSccs of None \<Rightarrow> findSCCs g | Some s \<Rightarrow> Some s) of
        None \<Rightarrow> None
      | Some sccList \<Rightarrow>
          let cmap = init_componentMap sccList;
              comps = init_components sccList;
              byId = init_componentById comps
          in (case route_edges cmap byId edgeClass (map snd (edges g)) (init_cg_state comps) of
                Inl e \<Rightarrow> Some (Inl e)
              | Inr s \<Rightarrow>
                  (case comp_while (compAdj s) (indeg s) (zero_degree (indeg s)) 0 [] of
                     Inl e \<Rightarrow> Some (Inl e)
                   | Inr order \<Rightarrow>
                       Some (Inr \<lparr>components = cg_components s, componentMap = cmap,
                                  topologicalOrder = order\<rparr>))))"

section \<open>The algorithm library\<close>

text \<open>
  Every algorithm takes the successor lookup as a function. A \<open>for\<close> loop over a list
  is a structural recursion; a \<open>return\<close> or \<open>throw\<close> from inside a loop is the
  \<open>Return\<close> of the loop's result, and \<open>Continue\<close> carries the loop's variables to
  what follows the loop. A \<open>while\<close> loop on a growing queue need not end (the
  successor function is arbitrary, so the graph may be infinite): it is a partial
  function and \<open>None\<close> is the call that does not return.
\<close>

datatype ('r, 's) flow = Return 'r | Continue 's

subsection \<open>isReachable\<close>

fun reach_for :: "NodeId \<Rightarrow> NodeId list \<Rightarrow> NodeId set \<Rightarrow> NodeId list
    \<Rightarrow> (bool, NodeId set \<times> NodeId list) flow" where
  "reach_for to [] seen q = Continue (seen, q)"
| "reach_for to (v # vs) seen q =
     (if v \<in> seen then reach_for to vs seen q
      else if v = to then Return True
      else reach_for to vs (insert v seen) (q @ [v]))"

partial_function (option) reach_while ::
  "(NodeId \<Rightarrow> NodeId list) \<Rightarrow> NodeId \<Rightarrow> NodeId set \<Rightarrow> NodeId list \<Rightarrow> nat \<Rightarrow> bool option" where
  "reach_while getSucc to seen q head =
     (if head < length q
      then (case reach_for to (getSucc (q ! head)) seen q of
              Return b \<Rightarrow> Some b
            | Continue sq \<Rightarrow> reach_while getSucc to (fst sq) (snd sq) (head + 1))
      else Some False)"

definition isReachable :: "NodeId \<Rightarrow> NodeId \<Rightarrow> (NodeId \<Rightarrow> NodeId list) \<Rightarrow> bool option" where
  "isReachable from to getSucc =
     (if from = to then Some True else reach_while getSucc to {from} [from] 0)"

subsection \<open>shortestPath\<close>

text \<open>The reconstruction loop: walk the parent pointers back from \<open>to\<close>.\<close>

partial_function (option) reconstruct ::
  "(NodeId \<rightharpoonup> NodeId) \<Rightarrow> NodeId option \<Rightarrow> NodeId list \<Rightarrow> NodeId list option" where
  "reconstruct parent cur acc =
     (case cur of
        None \<Rightarrow> Some acc
      | Some c \<Rightarrow> reconstruct parent (parent c) (c # acc))"

text \<open>
  The \<open>for\<close> loop over the successors of \<open>u\<close>. Finding \<open>to\<close> leaves the loop with
  the parent map of that moment, from which the path is rebuilt.
\<close>

fun sp_for :: "NodeId \<Rightarrow> NodeId \<Rightarrow> NodeId list \<Rightarrow> NodeId set \<Rightarrow> (NodeId \<rightharpoonup> NodeId) \<Rightarrow> NodeId list
    \<Rightarrow> (NodeId \<rightharpoonup> NodeId, NodeId set \<times> (NodeId \<rightharpoonup> NodeId) \<times> NodeId list) flow" where
  "sp_for to u [] seen parent q = Continue (seen, parent, q)"
| "sp_for to u (v # vs) seen parent q =
     (if v \<in> seen then sp_for to u vs seen parent q
      else if v = to then Return (parent(v \<mapsto> u))
      else sp_for to u vs (insert v seen) (parent(v \<mapsto> u)) (q @ [v]))"

partial_function (option) sp_while ::
  "(NodeId \<Rightarrow> NodeId list) \<Rightarrow> NodeId \<Rightarrow> NodeId set \<Rightarrow> (NodeId \<rightharpoonup> NodeId) \<Rightarrow> NodeId list \<Rightarrow> nat
    \<Rightarrow> NodeId list option option" where
  "sp_while getSucc to seen parent q head =
     (if head < length q
      then (case sp_for to (q ! head) (getSucc (q ! head)) seen parent q of
              Return parent' \<Rightarrow> Option.bind (reconstruct parent' (Some to) []) (\<lambda>p. Some (Some p))
            | Continue st \<Rightarrow> sp_while getSucc to (fst st) (fst (snd st)) (snd (snd st)) (head + 1))
      else Some None)"

text \<open>The result \<open>Some None\<close> is JavaScript's \<open>null\<close>: the call returned and found no path.\<close>

definition shortestPath :: "NodeId \<Rightarrow> NodeId \<Rightarrow> (NodeId \<Rightarrow> NodeId list) \<Rightarrow> NodeId list option option" where
  "shortestPath from to getSucc =
     (if from = to then Some (Some [from])
      else sp_while getSucc to {from} Map.empty [from] 0)"

subsection \<open>findAllPaths\<close>

record fap_state =
  paths :: "NodeId list list"
  visited :: "NodeId set"
  path :: "NodeId list"

datatype fap_error = NegativeMaxDepth

function dfs :: "(NodeId \<Rightarrow> NodeId list) \<Rightarrow> NodeId \<Rightarrow> int \<Rightarrow> NodeId \<Rightarrow> int \<Rightarrow> fap_state \<Rightarrow> fap_state"
  and dfs_for :: "(NodeId \<Rightarrow> NodeId list) \<Rightarrow> NodeId \<Rightarrow> int \<Rightarrow> NodeId list \<Rightarrow> int \<Rightarrow> fap_state \<Rightarrow> fap_state"
  where
  "dfs getSucc to maxDepth u depth s =
     (if depth > maxDepth then s
      else if u = to then s\<lparr>paths := paths s @ [path s]\<rparr>
      else dfs_for getSucc to maxDepth (getSucc u) depth s)"
| "dfs_for getSucc to maxDepth [] depth s = s"
| "dfs_for getSucc to maxDepth (v # vs) depth s =
     (if v \<in> visited s then dfs_for getSucc to maxDepth vs depth s
      else
        let s1 = s\<lparr>visited := insert v (visited s), path := path s @ [v]\<rparr>;
            s2 = dfs getSucc to maxDepth v (depth + 1) s1;
            s3 = s2\<lparr>path := butlast (path s2), visited := visited s2 - {v}\<rparr>
        in dfs_for getSucc to maxDepth vs depth s3)"
  by pat_completeness auto
termination
  by (relation "measures
       [\<lambda>x. case x of
               Inl (getSucc, to, maxDepth, u, depth, s) \<Rightarrow> 2 * nat (maxDepth + 1 - depth)
             | Inr (getSucc, to, maxDepth, vs, depth, s) \<Rightarrow> 2 * nat (maxDepth - depth) + 1,
        \<lambda>x. case x of
               Inl (getSucc, to, maxDepth, u, depth, s) \<Rightarrow> 0
             | Inr (getSucc, to, maxDepth, vs, depth, s) \<Rightarrow> length vs]")
    auto

text \<open>The depth bound is optional and defaults to 100.\<close>

definition findAllPaths ::
  "NodeId \<Rightarrow> NodeId \<Rightarrow> (NodeId \<Rightarrow> NodeId list) \<Rightarrow> int option \<Rightarrow> fap_error + NodeId list list" where
  "findAllPaths from to getSucc maxDepthArg =
     (let maxDepth = (case maxDepthArg of None \<Rightarrow> 100 | Some d \<Rightarrow> d) in
      if maxDepth < 0 then Inl NegativeMaxDepth
      else Inr (paths (dfs getSucc to maxDepth from 0 \<lparr>paths = [], visited = {from}, path = [from]\<rparr>)))"

subsection \<open>longestPathDAG\<close>

datatype lp_error = UndefinedEntry | NotEveryNodeOnce | MissingNodes | EdgeGoesBackward

text \<open>
  The caller's order may hold \<open>undefined\<close> entries, so its elements are optional. The
  position map is a \<open>Map\<close> whose \<open>size\<close> is read: an association list.
\<close>

fun build_pos :: "NodeId option list \<Rightarrow> nat \<Rightarrow> (NodeId \<times> nat) list \<Rightarrow> lp_error + (NodeId \<times> nat) list" where
  "build_pos [] i pos = Inr pos"
| "build_pos (None # es) i pos = Inl UndefinedEntry"
| "build_pos (Some node # es) i pos = build_pos es (i + 1) (AList.update node i pos)"

fun check_succs :: "(NodeId \<times> nat) list \<Rightarrow> NodeId \<Rightarrow> NodeId list \<Rightarrow> lp_error option" where
  "check_succs pos u [] = None"
| "check_succs pos u (v # vs) =
     (case map_of pos u of
        None \<Rightarrow> Some MissingNodes
      | Some pu \<Rightarrow>
          (case map_of pos v of
             None \<Rightarrow> Some MissingNodes
           | Some pv \<Rightarrow> if pu \<ge> pv then Some EdgeGoesBackward else check_succs pos u vs))"

fun check_nodes :: "(NodeId \<times> nat) list \<Rightarrow> (NodeId \<Rightarrow> NodeId list) \<Rightarrow> NodeId list \<Rightarrow> lp_error option" where
  "check_nodes pos getSucc [] = None"
| "check_nodes pos getSucc (u # us) =
     (case check_succs pos u (getSucc u) of
        Some e \<Rightarrow> Some e
      | None \<Rightarrow> check_nodes pos getSucc us)"

text \<open>The dynamic program: \<open>dist\<close> and \<open>parent\<close> are only read and written by key.\<close>

fun relax :: "NodeId \<Rightarrow> nat \<Rightarrow> NodeId list \<Rightarrow> (NodeId \<rightharpoonup> nat) \<times> (NodeId \<rightharpoonup> NodeId option)
    \<Rightarrow> (NodeId \<rightharpoonup> nat) \<times> (NodeId \<rightharpoonup> NodeId option)" where
  "relax u du [] dp = dp"
| "relax u du (v # vs) (dist, parent) =
     (let cand = du + 1 in
      if (case dist v of None \<Rightarrow> True | Some dv \<Rightarrow> cand > dv)
      then relax u du vs (dist(v \<mapsto> cand), parent(v \<mapsto> Some u))
      else relax u du vs (dist, parent))"

fun propagate :: "(NodeId \<Rightarrow> NodeId list) \<Rightarrow> NodeId list \<Rightarrow> (NodeId \<rightharpoonup> nat) \<times> (NodeId \<rightharpoonup> NodeId option)
    \<Rightarrow> (NodeId \<rightharpoonup> nat) \<times> (NodeId \<rightharpoonup> NodeId option)" where
  "propagate getSucc [] dp = dp"
| "propagate getSucc (u # us) (dist, parent) =
     (let (dist1, parent1) = (if dist u = None then (dist(u \<mapsto> 0), parent(u \<mapsto> None)) else (dist, parent));
          du = (case dist1 u of None \<Rightarrow> 0 | Some d \<Rightarrow> d)
      in propagate getSucc us (relax u du (getSucc u) (dist1, parent1)))"

fun choose_end :: "(NodeId \<rightharpoonup> nat) \<Rightarrow> NodeId list \<Rightarrow> nat \<times> NodeId option \<Rightarrow> nat \<times> NodeId option" where
  "choose_end dist [] be = be"
| "choose_end dist (u # us) (best, end) =
     (let du = (case dist u of None \<Rightarrow> 0 | Some d \<Rightarrow> d) in
      if du > best then choose_end dist us (du, Some u) else choose_end dist us (best, end))"

partial_function (option) lp_rebuild ::
  "(NodeId \<rightharpoonup> NodeId option) \<Rightarrow> NodeId option \<Rightarrow> NodeId list \<Rightarrow> NodeId list option" where
  "lp_rebuild parent cur acc =
     (case cur of
        None \<Rightarrow> Some acc
      | Some c \<Rightarrow> lp_rebuild parent (case parent c of None \<Rightarrow> None | Some p \<Rightarrow> p) (c # acc))"

definition longestPathDAG ::
  "NodeId list \<Rightarrow> (NodeId \<Rightarrow> NodeId list) \<Rightarrow> NodeId option list \<Rightarrow> (lp_error + nat \<times> NodeId list) option" where
  "longestPathDAG nodeList getSucc topoOrder =
     (case build_pos topoOrder 0 [] of
        Inl e \<Rightarrow> Some (Inl e)
      | Inr pos \<Rightarrow>
          if length pos \<noteq> length nodeList then Some (Inl NotEveryNodeOnce)
          else
            (case check_nodes pos getSucc nodeList of
               Some e \<Rightarrow> Some (Inl e)
             | None \<Rightarrow>
                 let order = List.map_filter (\<lambda>e. e) topoOrder;
                     (dist, parent) = propagate getSucc order (Map.empty, Map.empty);
                     end0 = (case order of [] \<Rightarrow> None | n # _ \<Rightarrow> Some n);
                     best0 = (case end0 of None \<Rightarrow> 0
                              | Some e \<Rightarrow> (case dist e of None \<Rightarrow> 0 | Some d \<Rightarrow> d));
                     (best, end) = choose_end dist order (best0, end0)
                 in Option.bind (lp_rebuild parent end []) (\<lambda>p. Some (Inr (best, p)))))"

subsection \<open>isBipartite\<close>

datatype bp_error = TypeError

record bp_result =
  isBipartite_flag :: bool
  partition :: "(NodeId list \<times> NodeId list) option"

text \<open>
  The neighbour map is only read and written by key, its values are sets that are
  iterated: lists in insertion order. Calling a method on, or iterating, the
  \<open>undefined\<close> that a missing key gives is a \<open>TypeError\<close>.
\<close>

fun init_neighbors :: "NodeId list \<Rightarrow> (NodeId \<rightharpoonup> NodeId list) \<Rightarrow> (NodeId \<rightharpoonup> NodeId list)" where
  "init_neighbors [] nb = nb"
| "init_neighbors (u # us) nb = init_neighbors us (nb(u \<mapsto> []))"

fun link_succs :: "NodeId \<Rightarrow> NodeId list \<Rightarrow> (NodeId \<rightharpoonup> NodeId list)
    \<Rightarrow> (bp_error + bp_result, NodeId \<rightharpoonup> NodeId list) flow" where
  "link_succs u [] nb = Continue nb"
| "link_succs u (v # vs) nb =
     (case nb u of
        None \<Rightarrow> Return (Inl TypeError)
      | Some us \<Rightarrow>
          let nb1 = nb(u \<mapsto> set_add us v);
              nb2 = (case nb1 v of None \<Rightarrow> nb1 | Some ws \<Rightarrow> nb1(v \<mapsto> set_add ws u))
          in if u = v then Return (Inr \<lparr>isBipartite_flag = False, partition = None\<rparr>)
             else link_succs u vs nb2)"

fun link_nodes :: "(NodeId \<Rightarrow> NodeId list) \<Rightarrow> NodeId list \<Rightarrow> (NodeId \<rightharpoonup> NodeId list)
    \<Rightarrow> (bp_error + bp_result, NodeId \<rightharpoonup> NodeId list) flow" where
  "link_nodes getSucc [] nb = Continue nb"
| "link_nodes getSucc (u # us) nb =
     (case link_succs u (getSucc u) nb of
        Return r \<Rightarrow> Return r
      | Continue nb' \<Rightarrow> link_nodes getSucc us nb')"

record bp_state =
  color :: "NodeId \<rightharpoonup> nat"
  setA :: "NodeId list"
  setB :: "NodeId list"
  queue :: "NodeId list"

fun color_for :: "nat \<Rightarrow> NodeId list \<Rightarrow> bp_state \<Rightarrow> (bp_error + bp_result, bp_state) flow" where
  "color_for cu [] s = Continue s"
| "color_for cu (v # vs) s =
     (case color s v of
        None \<Rightarrow>
          let cv = 1 - cu;
              s1 = s\<lparr>color := (color s)(v \<mapsto> cv)\<rparr>;
              s2 = (if cv = 0 then s1\<lparr>setA := set_add (setA s1) v\<rparr> else s1\<lparr>setB := set_add (setB s1) v\<rparr>);
              s3 = s2\<lparr>queue := queue s2 @ [v]\<rparr>
          in color_for cu vs s3
      | Some c \<Rightarrow>
          if c = cu then Return (Inr \<lparr>isBipartite_flag = False, partition = None\<rparr>)
          else color_for cu vs s)"

partial_function (option) color_while ::
  "(NodeId \<rightharpoonup> NodeId list) \<Rightarrow> bp_state \<Rightarrow> nat \<Rightarrow> (bp_error + bp_result, bp_state) flow option" where
  "color_while nb s head =
     (if head < length (queue s)
      then (case color s (queue s ! head) of
              None \<Rightarrow> Some (Return (Inl TypeError))
            | Some cu \<Rightarrow>
                (case nb (queue s ! head) of
                   None \<Rightarrow> Some (Return (Inl TypeError))
                 | Some vs \<Rightarrow>
                     (case color_for cu vs s of
                        Return r \<Rightarrow> Some (Return r)
                      | Continue s' \<Rightarrow> color_while nb s' (head + 1))))
      else Some (Continue s))"

fun color_nodes :: "(NodeId \<rightharpoonup> NodeId list) \<Rightarrow> NodeId list \<Rightarrow> bp_state
    \<Rightarrow> (bp_error + bp_result, bp_state) flow option" where
  "color_nodes nb [] s = Some (Continue s)"
| "color_nodes nb (n # ns) s =
     (if color s n \<noteq> None then color_nodes nb ns s
      else
        let s1 = s\<lparr>color := (color s)(n \<mapsto> 0), setA := set_add (setA s) n, queue := [n]\<rparr> in
        (case color_while nb s1 0 of
           None \<Rightarrow> None
         | Some (Return r) \<Rightarrow> Some (Return r)
         | Some (Continue s') \<Rightarrow> color_nodes nb ns s'))"

definition isBipartite :: "NodeId list \<Rightarrow> (NodeId \<Rightarrow> NodeId list) \<Rightarrow> (bp_error + bp_result) option" where
  "isBipartite nodeList getSucc =
     (case link_nodes getSucc nodeList (init_neighbors nodeList Map.empty) of
        Return r \<Rightarrow> Some r
      | Continue nb \<Rightarrow>
          (case color_nodes nb nodeList \<lparr>color = Map.empty, setA = [], setB = [], queue = []\<rparr> of
             None \<Rightarrow> None
           | Some (Return r) \<Rightarrow> Some r
           | Some (Continue s) \<Rightarrow>
               Some (Inr \<lparr>isBipartite_flag = True, partition = Some (setA s, setB s)\<rparr>)))"

section \<open>Walks and the invariant of the breadth-first search\<close>

text \<open>
  \<open>walk getSucc a x k\<close>: the successor function leads from \<open>a\<close> to \<open>x\<close> in \<open>k\<close> steps.
\<close>

inductive walk :: "(NodeId \<Rightarrow> NodeId list) \<Rightarrow> NodeId \<Rightarrow> NodeId \<Rightarrow> nat \<Rightarrow> bool"
  for getSucc :: "NodeId \<Rightarrow> NodeId list" and a :: NodeId where
  walk_start: "walk getSucc a a 0"
| walk_step: "walk getSucc a x k \<Longrightarrow> y \<in> set (getSucc x) \<Longrightarrow> walk getSucc a y (Suc k)"

text \<open>
  The invariant of the two search loops at the head of the \<open>while\<close> loop. The level
  function \<open>d\<close> is not program state: it records the depth of each seen node in the
  parent tree.
\<close>

definition bfs_inv :: "(NodeId \<Rightarrow> NodeId list) \<Rightarrow> NodeId \<Rightarrow> NodeId \<Rightarrow> (NodeId \<Rightarrow> nat)
    \<Rightarrow> NodeId set \<Rightarrow> (NodeId \<rightharpoonup> NodeId) \<Rightarrow> NodeId list \<Rightarrow> nat \<Rightarrow> bool" where
  "bfs_inv getSucc a to d seen parent q head =
     (distinct q \<and> set q = seen \<and> a \<in> seen \<and> to \<notin> seen \<and> head \<le> length q \<and>
      d a = 0 \<and>
      (\<forall>v u. parent v = Some u \<longrightarrow> v \<in> seen \<and> u \<in> seen \<and> v \<in> set (getSucc u) \<and> d v = Suc (d u)) \<and>
      (\<forall>i j. i \<le> j \<longrightarrow> j < length q \<longrightarrow> d (q ! i) \<le> d (q ! j)) \<and>
      (head < length q \<longrightarrow> (\<forall>j < length q. d (q ! j) \<le> Suc (d (q ! head)))) \<and>
      (\<forall>i < head. \<forall>w \<in> set (getSucc (q ! i)). w \<in> seen \<and> d w \<le> Suc (d (q ! i))))"

text \<open>The invariant inside the \<open>for\<close> loop, after the successors \<open>done\<close> of the head.\<close>

definition bfs_inv_for :: "(NodeId \<Rightarrow> NodeId list) \<Rightarrow> NodeId \<Rightarrow> NodeId \<Rightarrow> (NodeId \<Rightarrow> nat)
    \<Rightarrow> NodeId set \<Rightarrow> (NodeId \<rightharpoonup> NodeId) \<Rightarrow> NodeId list \<Rightarrow> nat \<Rightarrow> NodeId list \<Rightarrow> bool" where
  "bfs_inv_for getSucc a to d seen parent q head done =
     (bfs_inv getSucc a to d seen parent q head \<and> head < length q \<and>
      (\<forall>w \<in> set done. w \<in> seen \<and> d w \<le> Suc (d (q ! head))))"

text \<open>
  What the depth-first enumeration keeps true of its state: the current path is a walk
  from the start node, and every recorded path is a walk from the start node to \<open>to\<close>.
\<close>

definition fap_ok :: "(NodeId \<Rightarrow> NodeId list) \<Rightarrow> NodeId \<Rightarrow> NodeId \<Rightarrow> fap_state \<Rightarrow> bool" where
  "fap_ok getSucc a to s =
     (path s \<noteq> [] \<and> walk getSucc a (last (path s)) (length (path s) - 1) \<and>
      (\<forall>p \<in> set (paths s). p \<noteq> [] \<and> walk getSucc a to (length p - 1)))"

section \<open>Graphs built through the public interface\<close>

text \<open>
  A graph is built by the constructor followed by any sequence of \<open>addNode\<close>,
  \<open>addEdge\<close> and \<open>clear\<close> calls, failed calls included.
\<close>

inductive built :: "('nm, 'em) DirectedGraph \<Rightarrow> bool" where
  built_new: "built (new_graph sl me vc)"
| built_addNode: "built g \<Longrightarrow> built (snd (addNode g i md))"
| built_addEdge: "built g \<Longrightarrow> built (snd (addEdge g a b emd))"
| built_clear: "built g \<Longrightarrow> built (clear g)"

text \<open>
  The engines reached from \<open>g\<close> by \<open>addNode\<close> and \<open>addEdge\<close> calls only, failed
  ones included: no \<open>clear\<close> in between.
\<close>

inductive grown :: "('nm, 'em) DirectedGraph \<Rightarrow> ('nm, 'em) DirectedGraph \<Rightarrow> bool" where
  grown_refl: "grown g g"
| grown_addNode: "grown g h \<Longrightarrow> grown g (snd (addNode h i md))"
| grown_addEdge: "grown g h \<Longrightarrow> grown g (snd (addEdge h a b emd))"

text \<open>The successor relation of a graph and what the engine keeps true of its indices.\<close>

definition succ_rel :: "('nm, 'em) DirectedGraph \<Rightarrow> (NodeId \<times> NodeId) set" where
  "succ_rel g = {(u, v). v \<in> set (getSuccessors g u)}"

definition wf_graph :: "('nm, 'em) DirectedGraph \<Rightarrow> bool" where
  "wf_graph g =
     (distinct (map fst (nodes g)) \<and>
      map fst (adjacencyList g) = map fst (nodes g) \<and>
      map fst (reverseAdjacencyList g) = map fst (nodes g) \<and>
      (\<forall>u s. map_of (adjacencyList g) u = Some s \<longrightarrow> distinct s \<and> set s \<subseteq> fst ` set (nodes g)) \<and>
      (\<forall>v s. map_of (reverseAdjacencyList g) v = Some s \<longrightarrow>
         distinct s \<and> set s = {u. v \<in> set (getSuccessors g u)}) \<and>
      (\<forall>k b. map_of (edgeIndex g) k = Some b \<longrightarrow>
         b \<noteq> [] \<and> (\<exists>u v. k = getEdgeKey u v \<and> v \<in> set (getSuccessors g u))) \<and>
      (\<forall>u v. v \<in> set (getSuccessors g u) \<longrightarrow> map_of (edgeIndex g) (getEdgeKey u v) \<noteq> None) \<and>
      (\<forall>e \<in> snd ` set (edges g). edge_to e \<in> set (getSuccessors g (edge_from e))))"

section \<open>The invariant of Kahn's algorithm\<close>

text \<open>
  For a successor function \<open>sc\<close> on a finite node set \<open>V\<close>: the predecessors of \<open>v\<close>
  that the loop has not dequeued yet, and what holds at the head of the \<open>while\<close> loop.
  The stored in-degree of a node is the number of its predecessors not yet dequeued, a
  node is in the queue exactly when that number is 0, and every node of the queue comes
  after all its predecessors.
\<close>

definition unprocessed :: "('a \<Rightarrow> 'a list) \<Rightarrow> 'a set \<Rightarrow> 'a list \<Rightarrow> nat \<Rightarrow> 'a \<Rightarrow> 'a set" where
  "unprocessed sc V q head v = {u \<in> V. v \<in> set (sc u) \<and> u \<notin> set (take head q)}"

definition degree_of :: "('a \<times> int) list \<Rightarrow> 'a \<Rightarrow> int" where
  "degree_of inDegree v = (case map_of inDegree v of None \<Rightarrow> 0 | Some d \<Rightarrow> d)"

definition kahn_inv :: "('a \<Rightarrow> 'a list) \<Rightarrow> 'a set \<Rightarrow> ('a \<times> int) list \<Rightarrow> 'a list \<Rightarrow> nat \<Rightarrow> bool" where
  "kahn_inv sc V inDegree q head =
     (finite V \<and> (\<forall>u \<in> V. distinct (sc u) \<and> set (sc u) \<subseteq> V) \<and>
      distinct q \<and> set q \<subseteq> V \<and> head \<le> length q \<and>
      (\<forall>v \<in> V. map_of inDegree v = Some (int (card (unprocessed sc V q head v)))) \<and>
      (\<forall>v \<in> V. (v \<in> set q) = (unprocessed sc V q head v = {})) \<and>
      (\<forall>j < length q. \<forall>u \<in> V. q ! j \<in> set (sc u) \<longrightarrow> (\<exists>i < j. q ! i = u)))"

section \<open>The invariant of Tarjan's algorithm\<close>

text \<open>
  The nodes already put into a component, and what holds of the component list at any
  time: the identifier of a component is its position; every successor of a node of a
  component lies in the same or an earlier component; a component flagged acyclic is a
  single node without a self-loop; the components are non-empty, without repetitions
  and pairwise disjoint; and in an acyclic graph every component is flagged acyclic.
\<close>

definition emitted :: "SCC list \<Rightarrow> NodeId set" where
  "emitted cs = (\<Union>c \<in> set cs. set (scc_nodes c))"

definition scc_inv :: "('nm, 'em) DirectedGraph \<Rightarrow> SCC list \<Rightarrow> bool" where
  "scc_inv g cs =
     ((\<forall>i < length cs. scc_id (cs ! i) = i) \<and>
      (\<forall>i < length cs. \<forall>x \<in> set (scc_nodes (cs ! i)). \<forall>y \<in> set (getSuccessors g x).
          \<exists>j \<le> i. y \<in> set (scc_nodes (cs ! j))) \<and>
      (\<forall>i < length cs. isAcyclic (cs ! i) =
          (\<exists>x. scc_nodes (cs ! i) = [x] \<and> x \<notin> set (getSuccessors g x))) \<and>
      (\<forall>i < length cs. distinct (scc_nodes (cs ! i)) \<and> scc_nodes (cs ! i) \<noteq> []) \<and>
      (\<forall>i j. i < j \<longrightarrow> j < length cs \<longrightarrow>
          set (scc_nodes (cs ! i)) \<inter> set (scc_nodes (cs ! j)) = {}) \<and>
      (acyclic (succ_rel g) \<longrightarrow> (\<forall>c \<in> set cs. isAcyclic c)))"

definition ix :: "tarjan_state \<Rightarrow> NodeId \<Rightarrow> nat" where
  "ix st x = (case index st x of None \<Rightarrow> 0 | Some n \<Rightarrow> n)"

definition tarjan_inv :: "('nm, 'em) DirectedGraph \<Rightarrow> tarjan_state \<Rightarrow> bool" where
  "tarjan_inv g st =
     (onStack st = set (stack st) \<and> distinct (stack st) \<and>
      set (stack st) \<subseteq> dom (index st) \<and> dom (index st) \<subseteq> set (map fst (nodes g)) \<and>
      (\<forall>x n. index st x = Some n \<longrightarrow> n < currentIndex st) \<and>
      emitted (sccs st) = dom (index st) - set (stack st) \<and>
      scc_inv g (sccs st))"

text \<open>
  The nodes whose call of \<open>strongConnect\<close> is still running are \<open>gray\<close>; every other
  visited node has only visited successors.
\<close>

definition black_closed :: "('nm, 'em) DirectedGraph \<Rightarrow> NodeId set \<Rightarrow> tarjan_state \<Rightarrow> bool" where
  "black_closed g gray st =
     (\<forall>x. index st x \<noteq> None \<longrightarrow> x \<notin> gray \<longrightarrow> set (getSuccessors g x) \<subseteq> dom (index st))"

text \<open>What a call leaves untouched; the nodes in \<open>ex\<close> may get a new \<open>lowlink\<close>.\<close>

definition frame :: "NodeId set \<Rightarrow> tarjan_state \<Rightarrow> tarjan_state \<Rightarrow> bool" where
  "frame ex st st' =
     ((\<forall>x. index st x \<noteq> None \<longrightarrow>
         index st' x = index st x \<and> (x \<notin> ex \<longrightarrow> lowlink st' x = lowlink st x)) \<and>
      (\<exists>cs. sccs st' = sccs st @ cs) \<and> currentIndex st \<le> currentIndex st')"

text \<open>
  Inside the loop of the call for \<open>v\<close>, entered with the stack \<open>old\<close>, after the
  successors \<open>dn\<close>: the stack is \<open>seg @ v # old\<close>, and the \<open>lowlink\<close> of \<open>v\<close> is the
  index of \<open>v\<close> or of a node of \<open>old\<close>, and is at most the index of every node of \<open>old\<close>
  that a node of \<open>seg\<close> or a successor in \<open>dn\<close> leads to.
\<close>

definition loop_inv :: "('nm, 'em) DirectedGraph \<Rightarrow> NodeId set \<Rightarrow> NodeId list \<Rightarrow> NodeId
    \<Rightarrow> NodeId list \<Rightarrow> tarjan_state \<Rightarrow> bool" where
  "loop_inv g gray old v dn st =
     (tarjan_inv g st \<and> black_closed g (insert v gray) st \<and> gray \<subseteq> set old \<and>
      set dn \<subseteq> dom (index st) \<and>
      (\<exists>seg l. stack st = seg @ v # old \<and> lowlink st v = Some l \<and>
         (\<forall>z \<in> set old. ix st z < ix st v) \<and>
         (\<forall>x \<in> set seg. ix st v < ix st x) \<and>
         (l = ix st v \<or> (\<exists>z \<in> set old. l = ix st z)) \<and>
         (\<forall>x \<in> set seg. \<forall>z \<in> set (getSuccessors g x). z \<in> set old \<longrightarrow> l \<le> ix st z) \<and>
         (\<forall>z \<in> set dn. z \<in> set old \<longrightarrow> l \<le> ix st z) \<and>
         (acyclic (succ_rel g) \<longrightarrow>
            seg = [] \<and> l = ix st v \<and> (\<forall>x \<in> set old. (x, v) \<in> (succ_rel g)\<^sup>+))))"

text \<open>What the call \<open>strongConnect(v)\<close>, entered in state \<open>st\<close>, establishes.\<close>

definition visit_post :: "('nm, 'em) DirectedGraph \<Rightarrow> NodeId set \<Rightarrow> tarjan_state \<Rightarrow> NodeId
    \<Rightarrow> tarjan_state \<Rightarrow> bool" where
  "visit_post g gray st v st' =
     (tarjan_inv g st' \<and> black_closed g gray st' \<and> frame {} st st' \<and>
      index st' v = Some (currentIndex st) \<and>
      (\<exists>seg l. stack st' = seg @ stack st \<and> lowlink st' v = Some l \<and>
         (\<forall>x \<in> set seg. index st x = None \<and> currentIndex st \<le> ix st' x) \<and>
         (l = currentIndex st \<or> (\<exists>z \<in> set (stack st). l = ix st z)) \<and>
         ((l = currentIndex st) = (seg = [])) \<and>
         (\<forall>x \<in> set seg. \<forall>z \<in> set (getSuccessors g x). z \<in> set (stack st) \<longrightarrow> l \<le> ix st z) \<and>
         (acyclic (succ_rel g) \<longrightarrow> seg = [])))"

definition visit_pre :: "('nm, 'em) DirectedGraph \<Rightarrow> NodeId set \<Rightarrow> tarjan_state \<Rightarrow> NodeId \<Rightarrow> bool" where
  "visit_pre g gray st v =
     (tarjan_inv g st \<and> black_closed g gray st \<and> gray \<subseteq> set (stack st) \<and>
      v \<in> set (map fst (nodes g)) \<and> index st v = None \<and>
      (acyclic (succ_rel g) \<longrightarrow> (\<forall>x \<in> set (stack st). (x, v) \<in> (succ_rel g)\<^sup>+)))"

definition visit_ok :: "('nm, 'em) DirectedGraph \<Rightarrow> nat \<Rightarrow> bool" where
  "visit_ok g n =
     (\<forall>gray st v. visit_pre g gray st v \<and> card (set (map fst (nodes g)) - dom (index st)) \<le> n \<longrightarrow>
        (\<exists>st'. strongConnect g (Visit v) st = Some st' \<and> visit_post g gray st v st'))"

definition loop_ok :: "('nm, 'em) DirectedGraph \<Rightarrow> nat \<Rightarrow> bool" where
  "loop_ok g n =
     (\<forall>gray old v dn ws st.
        loop_inv g gray old v dn st \<and> getSuccessors g v = dn @ ws \<and>
        card (set (map fst (nodes g)) - dom (index st)) \<le> n \<longrightarrow>
        (\<exists>st'. strongConnect g (Successors v ws) st = Some st' \<and>
           loop_inv g gray old v (getSuccessors g v) st' \<and> frame {v} st st'))"


subsection \<open>An example engine\<close>

text \<open>A fresh engine with default options, the nodes A and B and the edge from A to B.\<close>

definition gAB :: "(unit, unit) DirectedGraph" where
  "gAB = snd (addEdge (snd (addNode (snd (addNode (new_graph None None None) ''A'' None)) ''B'' None))
        ''A'' ''B'' None)"

text \<open>The same engine with the edge from B back to A added: one cycle through both nodes.\<close>

definition gABA :: "(unit, unit) DirectedGraph" where
  "gABA = snd (addEdge (snd (addEdge (snd (addNode (snd (addNode (new_graph None None None) ''A'' None)) ''B'' None))
        ''A'' ''B'' None)) ''B'' ''A'' None)"

text \<open>
  A fresh engine in multi-edge mode with the nodes A and B, and the same engine after the
  first edge from A to B.
\<close>

definition gM0 :: "(unit, unit) DirectedGraph" where
  "gM0 = snd (addNode (snd (addNode (new_graph None (Some True) None) ''A'' None)) ''B'' None)"

definition gM1 :: "(unit, unit) DirectedGraph" where
  "gM1 = snd (addEdge gM0 ''A'' ''B'' None)"


section \<open>The invariant of the edge pass of buildCondensationGraph\<close>

text \<open>
  The component adjacency as a successor function, and what holds of the component
  adjacency and the in-degrees during the pass over the edges, for \<open>n\<close> components
  with the ids \<open>0 ..< n\<close>: every component edge leads to a smaller id, and the stored
  in-degree of a component is the number of components that point to it.
\<close>

definition adj_of :: "(nat \<times> nat list) list \<Rightarrow> nat \<Rightarrow> nat list" where
  "adj_of cAdj c = (case map_of cAdj c of None \<Rightarrow> [] | Some s \<Rightarrow> s)"

definition cg_inv :: "nat \<Rightarrow> 'em cg_state \<Rightarrow> bool" where
  "cg_inv n s =
     (set (map fst (compAdj s)) = {..<n} \<and>
      distinct (map fst (indeg s)) \<and> set (map fst (indeg s)) = {..<n} \<and>
      (\<forall>c<n. distinct (adj_of (compAdj s) c) \<and> (\<forall>d \<in> set (adj_of (compAdj s) c). d < c)) \<and>
      (\<forall>d<n. map_of (indeg s) d = Some (int (card {c. c < n \<and> d \<in> set (adj_of (compAdj s) c)}))))"

definition edge_ok :: "(NodeId \<times> nat) list \<Rightarrow> (nat \<times> nat) list \<Rightarrow> nat \<Rightarrow> 'em Edge \<Rightarrow> bool" where
  "edge_ok cmap byId n e =
     (\<exists>cf ct. map_of cmap (edge_from e) = Some cf \<and> map_of cmap (edge_to e) = Some ct \<and>
        cf < n \<and> ct \<le> cf \<and> map_of byId cf \<noteq> None \<and> map_of byId ct \<noteq> None)"

definition same_members :: "'em CondensationComponent list \<Rightarrow> 'em CondensationComponent list \<Rightarrow> bool" where
  "same_members cs cs' = (map cc_id cs' = map cc_id cs \<and> map members cs' = map members cs)"

definition routed :: "(NodeId \<times> nat) list \<Rightarrow> 'em Edge \<Rightarrow> 'em cg_state \<Rightarrow> bool" where
  "routed cmap e s =
     (\<forall>cf ct. map_of cmap (edge_from e) = Some cf \<and> map_of cmap (edge_to e) = Some ct \<and> cf \<noteq> ct
        \<longrightarrow> ct \<in> set (adj_of (compAdj s) cf))"

section \<open>The edge key is injective\<close>

lemma digit_char_inj: "a < 10 \<Longrightarrow> b < 10 \<Longrightarrow> digit_char a = digit_char b \<Longrightarrow> a = b"
proof -
  assume a: "a < 10" and b: "b < 10" and e: "digit_char a = digit_char b"
  have "distinct ''0123456789''" by simp
  moreover from a b have "a < length ''0123456789''" "b < length ''0123456789''" by simp_all
  ultimately show "a = b"
    using e unfolding digit_char_def by (simp only: nth_eq_iff_index_eq)
qed

lemma digit_char_not_colon: "d < 10 \<Longrightarrow> digit_char d \<noteq> CHR '':''"
proof -
  assume "d < 10"
  then have "digit_char d \<in> set ''0123456789''"
    unfolding digit_char_def by (intro nth_mem) simp
  then show ?thesis by auto
qed

lemma show_nat_not_colon: "CHR '':'' \<notin> set (show_nat n)"
proof (induction n rule: show_nat.induct)
  case (1 n)
  show ?case
  proof (cases "n < 10")
    case True
    then show ?thesis
      using digit_char_not_colon [of n] by (subst show_nat.simps) auto
  next
    case False
    have "n mod 10 < 10" by simp
    then have "digit_char (n mod 10) \<noteq> CHR '':''" by (rule digit_char_not_colon)
    with False "1.IH" show ?thesis
      by (subst show_nat.simps) auto
  qed
qed

lemma show_nat_nonempty: "show_nat n \<noteq> []"
  by (subst show_nat.simps) simp

lemma show_nat_inj: "show_nat n = show_nat m \<Longrightarrow> n = m"
proof (induction n arbitrary: m rule: show_nat.induct)
  case (1 n)
  show ?case
  proof (cases "n < 10")
    case n: True
    show ?thesis
    proof (cases "m < 10")
      case True
      with n "1.prems" show ?thesis
        by (simp add: show_nat.simps [of n] show_nat.simps [of m] digit_char_inj)
    next
      case False
      with n "1.prems" have "[digit_char n] = show_nat (m div 10) @ [digit_char (m mod 10)]"
        by (simp add: show_nat.simps [of n] show_nat.simps [of m])
      then have "show_nat (m div 10) = []" by simp
      then show ?thesis by (simp add: show_nat_nonempty)
    qed
  next
    case n: False
    show ?thesis
    proof (cases "m < 10")
      case True
      with n "1.prems" have "show_nat (n div 10) @ [digit_char (n mod 10)] = [digit_char m]"
        by (simp add: show_nat.simps [of n] show_nat.simps [of m])
      then have "show_nat (n div 10) = []" by simp
      then show ?thesis by (simp add: show_nat_nonempty)
    next
      case False
      with n "1.prems" have e: "show_nat (n div 10) @ [digit_char (n mod 10)]
          = show_nat (m div 10) @ [digit_char (m mod 10)]"
        by (simp add: show_nat.simps [of n] show_nat.simps [of m])
      then have e1: "show_nat (n div 10) = show_nat (m div 10)"
        and e2: "digit_char (n mod 10) = digit_char (m mod 10)" by simp_all
      from "1.IH" [OF n e1] have d: "n div 10 = m div 10" .
      have "n mod 10 = m mod 10"
        by (rule digit_char_inj [OF _ _ e2]) simp_all
      with d show ?thesis
        by (metis div_mult_mod_eq)
    qed
  qed
qed

lemma split_at_separator:
  assumes "xs @ c # ys = xs' @ c # ys'" and "c \<notin> set xs" and "c \<notin> set xs'"
  shows "xs = xs' \<and> ys = ys'"
  using assms
proof (induction xs arbitrary: xs')
  case Nil
  then show ?case by (cases xs') auto
next
  case (Cons x xs)
  then show ?case by (cases xs') auto
qed

lemma getEdgeKey_inj:
  assumes k: "getEdgeKey a b = getEdgeKey c d"
  shows "a = c \<and> b = d"
proof -
  let ?ra = "a @ ''|'' @ show_nat (length b) @ '':'' @ b"
  let ?rc = "c @ ''|'' @ show_nat (length d) @ '':'' @ d"
  from k have "show_nat (length a) @ CHR '':'' # ?ra = show_nat (length c) @ CHR '':'' # ?rc"
    by (simp add: getEdgeKey_def)
  from split_at_separator [OF this show_nat_not_colon show_nat_not_colon]
  have la: "show_nat (length a) = show_nat (length c)" and r: "?ra = ?rc" by simp_all
  from la have len: "length a = length c" by (rule show_nat_inj)
  with r have ac: "a = c"
    and r2: "show_nat (length b) @ CHR '':'' # b = show_nat (length d) @ CHR '':'' # d"
    by simp_all
  from split_at_separator [OF r2 show_nat_not_colon show_nat_not_colon]
  have "b = d" by simp
  with ac show "a = c \<and> b = d" by simp
qed

text \<open>
  C6. The edge-key encoding is injective on ordered pairs of node identifiers: two keys
  are equal only when both the sources and the targets are equal, so two different pairs
  never get the same key.
\<close>

theorem getEdgeKey_injective:
  "(getEdgeKey a b = getEdgeKey c d) = (a = c \<and> b = d)"
proof
  assume "getEdgeKey a b = getEdgeKey c d"
  then show "a = c \<and> b = d" by (rule getEdgeKey_inj)
next
  assume "a = c \<and> b = d"
  then show "getEdgeKey a b = getEdgeKey c d" by simp
qed

section \<open>Failed mutations leave the engine untouched\<close>

lemma validateEdgeInvariants_not_usage:
  "validateEdgeInvariants g from to = Some e \<Longrightarrow> \<not> is_usage_error e"
  by (auto simp: validateEdgeInvariants_def split: if_splits)

lemma addEdge_commit:
  assumes "has (nodes g) from" and "has (nodes g) to"
    and "allowSelfLoops (options g) \<or> from \<noteq> to"
    and "allowMultiEdges (options g) \<or> \<not> has (edgeIndex g) (getEdgeKey from to)"
  shows "\<exists>g5. nextEdgeId g5 = (if allowMultiEdges (options g) then nextEdgeId g + 1 else nextEdgeId g)
     \<and> (addEdge g from to md =
          (Inr (if allowMultiEdges (options g)
                then getEdgeKey from to @ ''#'' @ show_nat (nextEdgeId g) else getEdgeKey from to), g5)
        \<or> (\<exists>e. \<not> is_usage_error e \<and> addEdge g from to md = (Inl e, g5)))"
proof -
  define edgeId where "edgeId = (if allowMultiEdges (options g)
      then getEdgeKey from to @ ''#'' @ show_nat (nextEdgeId g) else getEdgeKey from to)"
  define g1 where "g1 = (if allowMultiEdges (options g) then g\<lparr>nextEdgeId := nextEdgeId g + 1\<rparr> else g)"
  define g2 where "g2 = g1\<lparr>edges := AList.update edgeId
      \<lparr>edge_id = edgeId, edge_from = from, edge_to = to, edge_metadata = md\<rparr> (edges g1)\<rparr>"
  define g3 where "g3 = g2\<lparr>edgeIndex := AList.update (getEdgeKey from to)
      (set_add (case map_of (edgeIndex g2) (getEdgeKey from to) of None \<Rightarrow> [] | Some b \<Rightarrow> b) edgeId)
      (edgeIndex g2)\<rparr>"
  define g4 where "g4 = (case map_of (adjacencyList g3) from of
      None \<Rightarrow> g3
    | Some fromAdj \<Rightarrow> g3\<lparr>adjacencyList := AList.update from (set_add fromAdj to) (adjacencyList g3)\<rparr>)"
  define g5 where "g5 = (case map_of (reverseAdjacencyList g4) to of
      None \<Rightarrow> g4
    | Some toRev \<Rightarrow> g4\<lparr>reverseAdjacencyList := AList.update to (set_add toRev from) (reverseAdjacencyList g4)\<rparr>)"
  have unfold: "addEdge g from to md =
      (if validateOnConstruction (options g)
       then (case validateEdgeInvariants g5 from to of
               Some e \<Rightarrow> (Inl e, g5) | None \<Rightarrow> (Inr edgeId, g5))
       else (Inr edgeId, g5))"
  proof -
    have c3: "(\<not> allowSelfLoops (options g) \<and> from = to) = False" using assms(3) by auto
    have c4: "(\<not> allowMultiEdges (options g) \<and> has (edgeIndex g) (getEdgeKey from to)) = False"
      using assms(4) by auto
    show ?thesis
      unfolding addEdge_def Let_def g5_def g4_def g3_def g2_def g1_def edgeId_def
      by (simp only: assms(1,2) c3 c4 if_False if_True simp_thms)
  qed
  have n1: "nextEdgeId g1 = (if allowMultiEdges (options g) then nextEdgeId g + 1 else nextEdgeId g)"
    by (simp add: g1_def)
  have n3: "nextEdgeId g3 = nextEdgeId g1" by (simp add: g3_def g2_def)
  have n4: "nextEdgeId g4 = nextEdgeId g3" by (simp add: g4_def split: option.split)
  have n5: "nextEdgeId g5 = nextEdgeId g4" by (simp add: g5_def split: option.split)
  show ?thesis
  proof (intro exI [of _ g5] conjI)
    show "nextEdgeId g5 = (if allowMultiEdges (options g) then nextEdgeId g + 1 else nextEdgeId g)"
      using n1 n3 n4 n5 by simp
    show "addEdge g from to md =
          (Inr (if allowMultiEdges (options g)
                then getEdgeKey from to @ ''#'' @ show_nat (nextEdgeId g) else getEdgeKey from to), g5)
        \<or> (\<exists>e. \<not> is_usage_error e \<and> addEdge g from to md = (Inl e, g5))"
    proof (cases "validateOnConstruction (options g)")
      case False
      with unfold show ?thesis by (simp add: edgeId_def)
    next
      case True
      show ?thesis
      proof (cases "validateEdgeInvariants g5 from to")
        case None
        with True unfold show ?thesis by (simp add: edgeId_def)
      next
        case (Some e)
        with True unfold validateEdgeInvariants_not_usage [OF Some] show ?thesis by simp
      qed
    qed
  qed
qed

lemma addEdge_rejects:
  "\<not> (has (nodes g) from \<and> has (nodes g) to
      \<and> (allowSelfLoops (options g) \<or> from \<noteq> to)
      \<and> (allowMultiEdges (options g) \<or> \<not> has (edgeIndex g) (getEdgeKey from to)))
   \<Longrightarrow> snd (addEdge g from to md) = g \<and> (\<exists>e. fst (addEdge g from to md) = Inl e)"
  by (auto simp: addEdge_def)

text \<open>
  C5. Whenever \<open>addNode\<close> or \<open>addEdge\<close> fails with a usage error (duplicate node,
  unknown source or target, disallowed self-loop, duplicate edge under single-edge mode),
  the whole engine state (node map, edge map, both adjacency indices, edge index and
  edge-id counter) is the state before the call.
\<close>


theorem usage_error_keeps_state:
  "(addNode g i nmd = (Inl e, g') \<and> is_usage_error e \<longrightarrow> g' = g) \<and>
   (addEdge g from to emd = (Inl e, g') \<and> is_usage_error e \<longrightarrow> g' = g)"
proof (intro conjI impI)
  assume "addNode g i nmd = (Inl e, g') \<and> is_usage_error e"
  then show "g' = g"
    by (auto simp: addNode_def Let_def split: if_splits)
next
  assume a: "addEdge g from to emd = (Inl e, g') \<and> is_usage_error e"
  show "g' = g"
  proof (cases "has (nodes g) from \<and> has (nodes g) to
      \<and> (allowSelfLoops (options g) \<or> from \<noteq> to)
      \<and> (allowMultiEdges (options g) \<or> \<not> has (edgeIndex g) (getEdgeKey from to))")
    case False
    from addEdge_rejects [OF False, of emd] a show ?thesis by simp
  next
    case True
    then obtain g5 where "addEdge g from to emd =
          (Inr (if allowMultiEdges (options g)
                then getEdgeKey from to @ ''#'' @ show_nat (nextEdgeId g) else getEdgeKey from to), g5)
        \<or> (\<exists>e. \<not> is_usage_error e \<and> addEdge g from to emd = (Inl e, g5))"
      using addEdge_commit [of g "from" to emd] by blast
    with a show ?thesis by auto
  qed
qed

lemma show_nat_digit: "n < 10 \<Longrightarrow> show_nat n = [digit_char n]"
  by (subst show_nat.simps) simp

lemma digit_char_0: "digit_char 0 = CHR ''0''"
  by (simp add: digit_char_def)

lemma digit_char_1: "digit_char 1 = CHR ''1''"
  by (simp add: digit_char_def)

theorem usage_error_keeps_state_witness:
  "addNode (snd (addNode (new_graph None None None) ''A'' (None :: unit option))) ''A'' None
     = (Inl (NodeAlreadyExists ''A''),
        snd (addNode (new_graph None None None :: (unit, unit) DirectedGraph) ''A'' None))
   \<and> is_usage_error (NodeAlreadyExists ''A'')
   \<and> addEdge (new_graph None None None :: (unit, unit) DirectedGraph) ''A'' ''B'' None
     = (Inl (SourceNodeMissing ''A''), new_graph None None None)
   \<and> is_usage_error (SourceNodeMissing ''A'')"
  using usage_error_keeps_state
    [of "snd (addNode (new_graph None None None :: (unit, unit) DirectedGraph) ''A'' None)"
        "''A''" None "NodeAlreadyExists ''A''"
        "snd (addNode (new_graph None None None :: (unit, unit) DirectedGraph) ''A'' None)"]
    usage_error_keeps_state
    [of "new_graph None None None :: (unit, unit) DirectedGraph" _ _ "SourceNodeMissing ''A''"
        "new_graph None None None" "''A''" "''B''" None]
  by (simp add: addNode_def addEdge_def new_graph_def has_def Let_def)

lemma getEdgeKey_A_B: "getEdgeKey ''A'' ''B'' = ''1:A|1:B''"
  using digit_char_1 by (simp add: getEdgeKey_def show_nat_digit)

section \<open>Paths from a node to itself\<close>

text \<open>
  C10. For every successor function and every depth bound that is not negative (the
  default bound included), \<open>findAllPaths\<close> from a node to itself returns exactly one
  path, the single-node path; no cycle back to the start is enumerated.
\<close>

theorem findAllPaths_to_itself:
  "(0 \<le> maxDepth \<longrightarrow> findAllPaths from from getSucc (Some maxDepth) = Inr [[from]])
   \<and> findAllPaths from from getSucc None = Inr [[from]]"
  by (simp add: findAllPaths_def)

theorem findAllPaths_to_itself_witness:
  "(0::int) \<le> 3 \<and> findAllPaths ''A'' ''A'' (\<lambda>n. [''A'', ''B'']) (Some 3) = Inr [[''A'']]"
  using findAllPaths_to_itself [of 3 "''A''" "\<lambda>n. [''A'', ''B'']"] by simp

section \<open>A self-loop is never bipartite\<close>

lemma dom_init_neighbors: "dom (init_neighbors ns nb) = set ns \<union> dom nb"
  by (induction ns arbitrary: nb) auto

lemma link_succs_Continue_dom:
  "link_succs u vs nb = Continue nb' \<Longrightarrow> dom nb' = dom nb"
proof (induction vs arbitrary: nb)
  case Nil
  then show ?case by simp
next
  case (Cons v vs)
  from Cons.prems obtain us where us: "nb u = Some us"
    by (cases "nb u") auto
  let ?nb1 = "nb(u \<mapsto> set_add us v)"
  let ?nb2 = "case ?nb1 v of None \<Rightarrow> ?nb1 | Some ws \<Rightarrow> ?nb1(v \<mapsto> set_add ws u)"
  from Cons.prems us have neq: "u \<noteq> v" and rest: "link_succs u vs ?nb2 = Continue nb'"
    by (auto simp: Let_def split: if_splits)
  from Cons.IH [OF rest] have "dom nb' = dom ?nb2" .
  also have "\<dots> = dom nb" using us by (auto split: option.splits if_splits)
  finally show ?case .
qed

lemma link_succs_self_loop:
  "u \<in> dom nb \<Longrightarrow> u \<in> set vs \<Longrightarrow>
   link_succs u vs nb = Return (Inr \<lparr>isBipartite_flag = False, partition = None\<rparr>)"
proof (induction vs arbitrary: nb)
  case Nil
  then show ?case by simp
next
  case (Cons v vs)
  from Cons.prems obtain us where us: "nb u = Some us" by auto
  let ?nb1 = "nb(u \<mapsto> set_add us v)"
  let ?nb2 = "case ?nb1 v of None \<Rightarrow> ?nb1 | Some ws \<Rightarrow> ?nb1(v \<mapsto> set_add ws u)"
  show ?case
  proof (cases "u = v")
    case True
    with us show ?thesis by (simp add: Let_def)
  next
    case False
    with Cons.prems have mem: "u \<in> set vs" by auto
    have "u \<in> dom ?nb2" by (auto split: option.splits)
    from Cons.IH [OF this mem] False us show ?thesis by (simp add: Let_def)
  qed
qed

lemma link_succs_Return:
  "u \<in> dom nb \<Longrightarrow> link_succs u vs nb = Return r \<Longrightarrow>
   r = Inr \<lparr>isBipartite_flag = False, partition = None\<rparr>"
proof (induction vs arbitrary: nb)
  case Nil
  then show ?case by simp
next
  case (Cons v vs)
  from Cons.prems obtain us where us: "nb u = Some us" by auto
  let ?nb1 = "nb(u \<mapsto> set_add us v)"
  let ?nb2 = "case ?nb1 v of None \<Rightarrow> ?nb1 | Some ws \<Rightarrow> ?nb1(v \<mapsto> set_add ws u)"
  show ?case
  proof (cases "u = v")
    case True
    with us Cons.prems show ?thesis by (simp add: Let_def)
  next
    case False
    have d: "u \<in> dom ?nb2" by (auto split: option.splits)
    from False us Cons.prems have "link_succs u vs ?nb2 = Return r" by (simp add: Let_def)
    from Cons.IH [OF d this] show ?thesis .
  qed
qed

lemma link_nodes_self_loop:
  "set ns \<subseteq> dom nb \<Longrightarrow> u \<in> set ns \<Longrightarrow> u \<in> set (getSucc u) \<Longrightarrow>
   link_nodes getSucc ns nb = Return (Inr \<lparr>isBipartite_flag = False, partition = None\<rparr>)"
proof (induction ns arbitrary: nb)
  case Nil
  then show ?case by simp
next
  case (Cons n ns)
  from Cons.prems have n: "n \<in> dom nb" by auto
  show ?case
  proof (cases "link_succs n (getSucc n) nb")
    case (Return r)
    with link_succs_Return [OF n Return] show ?thesis by simp
  next
    case (Continue nb')
    from link_succs_Continue_dom [OF Continue] Cons.prems have sub: "set ns \<subseteq> dom nb'" by auto
    have "u \<noteq> n"
    proof
      assume "u = n"
      with link_succs_self_loop [OF n, of "getSucc n"] Cons.prems Continue show False by simp
    qed
    with Cons.prems have "u \<in> set ns" by auto
    from Cons.IH [OF sub this Cons.prems(3)] Continue show ?thesis by simp
  qed
qed

text \<open>
  C8. For every node list and successor function, if some node of the list is among its
  own successors, \<open>isBipartite\<close> returns the result with flag false and no partition.
\<close>

theorem isBipartite_self_loop:
  "u \<in> set nodeList \<and> u \<in> set (getSucc u) \<longrightarrow>
   isBipartite nodeList getSucc = Some (Inr \<lparr>isBipartite_flag = False, partition = None\<rparr>)"
proof
  assume a: "u \<in> set nodeList \<and> u \<in> set (getSucc u)"
  have "set nodeList \<subseteq> dom (init_neighbors nodeList Map.empty)"
    by (simp add: dom_init_neighbors)
  from link_nodes_self_loop [OF this, of u getSucc] a
  show "isBipartite nodeList getSucc = Some (Inr \<lparr>isBipartite_flag = False, partition = None\<rparr>)"
    by (simp add: isBipartite_def)
qed

theorem isBipartite_self_loop_witness:
  "''B'' \<in> set [''A'', ''B''] \<and> ''B'' \<in> set ((\<lambda>n. if n = ''A'' then [''B''] else [''A'', ''B'']) ''B'')
   \<and> isBipartite [''A'', ''B''] (\<lambda>n. if n = ''A'' then [''B''] else [''A'', ''B''])
       = Some (Inr \<lparr>isBipartite_flag = False, partition = None\<rparr>)"
  using isBipartite_self_loop [of "''B''" "[''A'', ''B'']" "\<lambda>n. if n = ''A'' then [''B''] else [''A'', ''B'']"]
  by simp

section \<open>The order validation of longestPathDAG\<close>

lemma lp_rebuild_None: "lp_rebuild parent None acc = Some acc"
  by (subst lp_rebuild.simps) simp

lemma lp_rebuild_Some:
  "lp_rebuild parent (Some c) acc = lp_rebuild parent (case parent c of None \<Rightarrow> None | Some p \<Rightarrow> p) (c # acc)"
  by (subst lp_rebuild.simps) simp

text \<open>
  C3. The validation compares the number of distinct entries of the order with the
  length of the node list; it does not compare the two node sets. With nodes A and B,
  no edges, and the order A, C the call does not fail: it returns length 0 and the path
  A, although B is missing from the order.
\<close>

theorem longestPathDAG_accepts_foreign_order:
  "longestPathDAG [''A'', ''B''] (\<lambda>n. []) [Some ''A'', Some ''C''] = Some (Inr (0, [''A'']))
   \<and> ''B'' \<in> set [''A'', ''B''] \<and> Some ''B'' \<notin> set [Some ''A'', Some ''C'']"
  by (simp add: longestPathDAG_def List.map_filter_def lp_rebuild_None lp_rebuild_Some)

section \<open>The breadth-first searches\<close>

lemma bfs_inv_init: "a \<noteq> to \<Longrightarrow> bfs_inv getSucc a to (\<lambda>_. 0) {a} Map.empty [a] 0"
  by (simp add: bfs_inv_def)

lemma bfs_inv_enter:
  "bfs_inv getSucc a to d seen parent q head \<Longrightarrow> head < length q \<Longrightarrow>
   bfs_inv_for getSucc a to d seen parent q head []"
  by (simp add: bfs_inv_for_def)

lemma bfs_inv_for_skip:
  assumes "bfs_inv_for getSucc a to d seen parent q head dn" and "v \<in> seen"
  shows "bfs_inv_for getSucc a to d seen parent q head (dn @ [v])"
proof -
  from assms have inv: "bfs_inv getSucc a to d seen parent q head" and h: "head < length q"
    by (simp_all add: bfs_inv_for_def)
  from inv assms(2) obtain j where "j < length q" "q ! j = v"
    unfolding bfs_inv_def by (metis in_set_conv_nth)
  with inv h have "d v \<le> Suc (d (q ! head))"
    unfolding bfs_inv_def by blast
  with assms show ?thesis by (simp add: bfs_inv_for_def)
qed

lemma bfs_inv_for_exit:
  assumes "bfs_inv_for getSucc a to d seen parent q head (getSucc (q ! head))"
  shows "bfs_inv getSucc a to d seen parent q (Suc head)"
proof -
  from assms have inv: "bfs_inv getSucc a to d seen parent q head" and h: "head < length q"
    and dn: "\<forall>w \<in> set (getSucc (q ! head)). w \<in> seen \<and> d w \<le> Suc (d (q ! head))"
    by (simp_all add: bfs_inv_for_def)
  from inv have mono: "\<forall>i j. i \<le> j \<longrightarrow> j < length q \<longrightarrow> d (q ! i) \<le> d (q ! j)"
    and bound: "\<forall>j < length q. d (q ! j) \<le> Suc (d (q ! head))"
    and proc: "\<forall>i < head. \<forall>w \<in> set (getSucc (q ! i)). w \<in> seen \<and> d w \<le> Suc (d (q ! i))"
    using h by (simp_all add: bfs_inv_def)
  have b': "Suc head < length q \<longrightarrow> (\<forall>j < length q. d (q ! j) \<le> Suc (d (q ! Suc head)))"
  proof (intro impI allI)
    fix j assume s: "Suc head < length q" and j: "j < length q"
    from mono s have "d (q ! head) \<le> d (q ! Suc head)" by simp
    moreover from bound j have "d (q ! j) \<le> Suc (d (q ! head))" by simp
    ultimately show "d (q ! j) \<le> Suc (d (q ! Suc head))" by simp
  qed
  have p': "\<forall>i < Suc head. \<forall>w \<in> set (getSucc (q ! i)). w \<in> seen \<and> d w \<le> Suc (d (q ! i))"
    using proc dn by (auto simp: less_Suc_eq)
  from inv h b' p' show ?thesis
    unfolding bfs_inv_def by simp
qed

lemma bfs_inv_for_push:
  assumes J: "bfs_inv_for getSucc a to d seen parent q head dn"
    and v: "v \<notin> seen" "v \<noteq> to" "v \<in> set (getSucc (q ! head))"
  shows "bfs_inv_for getSucc a to (d(v := Suc (d (q ! head)))) (insert v seen)
           (parent(v \<mapsto> q ! head)) (q @ [v]) head (dn @ [v])"
proof -
  let ?u = "q ! head"
  let ?d = "d(v := Suc (d ?u))"
  from J have inv: "bfs_inv getSucc a to d seen parent q head" and h: "head < length q"
    and dn: "\<forall>w \<in> set dn. w \<in> seen \<and> d w \<le> Suc (d ?u)"
    by (simp_all add: bfs_inv_for_def)
  from inv have dist: "distinct q" and sq: "set q = seen" and a: "a \<in> seen" and to: "to \<notin> seen"
    and da: "d a = 0"
    and par: "\<forall>x u. parent x = Some u \<longrightarrow> x \<in> seen \<and> u \<in> seen \<and> x \<in> set (getSucc u) \<and> d x = Suc (d u)"
    and mono: "\<forall>i j. i \<le> j \<longrightarrow> j < length q \<longrightarrow> d (q ! i) \<le> d (q ! j)"
    and bound: "\<forall>j < length q. d (q ! j) \<le> Suc (d ?u)"
    and proc: "\<forall>i < head. \<forall>w \<in> set (getSucc (q ! i)). w \<in> seen \<and> d w \<le> Suc (d (q ! i))"
    using h by (simp_all add: bfs_inv_def)
  have useen: "?u \<in> seen" using h sq by auto
  have old: "\<And>x. x \<in> seen \<Longrightarrow> ?d x = d x" using v(1) by auto
  have nthq: "\<And>i. i < length q \<Longrightarrow> (q @ [v]) ! i = q ! i" by (simp add: nth_append)
  have qseen: "\<And>i. i < length q \<Longrightarrow> q ! i \<in> seen" using sq by auto
  have dq: "\<And>i. i < length q \<Longrightarrow> ?d (q ! i) = d (q ! i)" using old qseen by blast
  have c1: "distinct (q @ [v])" using dist sq v(1) by simp
  have c2: "set (q @ [v]) = insert v seen" using sq by simp
  have c3: "a \<in> insert v seen" using a by simp
  have c4: "to \<notin> insert v seen" using to v(2) by simp
  have c5: "head \<le> length (q @ [v])" using h by simp
  have c6: "?d a = 0" using da a old by simp
  have c7: "\<forall>x u. (parent(v \<mapsto> ?u)) x = Some u \<longrightarrow>
      x \<in> insert v seen \<and> u \<in> insert v seen \<and> x \<in> set (getSucc u) \<and> ?d x = Suc (?d u)"
  proof (intro allI impI)
    fix x u assume p: "(parent(v \<mapsto> ?u)) x = Some u"
    show "x \<in> insert v seen \<and> u \<in> insert v seen \<and> x \<in> set (getSucc u) \<and> ?d x = Suc (?d u)"
    proof (cases "x = v")
      case True
      with p have "u = ?u" by simp
      with True v(3) useen old [OF useen] show ?thesis by simp
    next
      case False
      with p have "parent x = Some u" by simp
      with par have "x \<in> seen" "u \<in> seen" "x \<in> set (getSucc u)" "d x = Suc (d u)" by blast+
      with old show ?thesis by simp
    qed
  qed
  have c8: "\<forall>i j. i \<le> j \<longrightarrow> j < length (q @ [v]) \<longrightarrow> ?d ((q @ [v]) ! i) \<le> ?d ((q @ [v]) ! j)"
  proof (intro allI impI)
    fix i j assume ij: "i \<le> j" and j: "j < length (q @ [v])"
    show "?d ((q @ [v]) ! i) \<le> ?d ((q @ [v]) ! j)"
    proof (cases "j < length q")
      case True
      with ij have "i < length q" by simp
      with True ij mono nthq dq show ?thesis by simp
    next
      case False
      with j have jl: "j = length q" by simp
      show ?thesis
      proof (cases "i < length q")
        case True
        with bound have "d (q ! i) \<le> Suc (d ?u)" by simp
        with True jl nthq dq show ?thesis by simp
      next
        case False
        with ij jl show ?thesis by simp
      qed
    qed
  qed
  have c9: "\<forall>j < length (q @ [v]). ?d ((q @ [v]) ! j) \<le> Suc (?d ((q @ [v]) ! head))"
  proof (intro allI impI)
    fix j assume j: "j < length (q @ [v])"
    have hd: "?d ((q @ [v]) ! head) = d ?u" using h nthq dq by simp
    show "?d ((q @ [v]) ! j) \<le> Suc (?d ((q @ [v]) ! head))"
    proof (cases "j < length q")
      case True
      with bound nthq dq hd show ?thesis by simp
    next
      case False
      with j have "j = length q" by simp
      with hd show ?thesis by simp
    qed
  qed
  have c10: "\<forall>i < head. \<forall>w \<in> set (getSucc ((q @ [v]) ! i)).
      w \<in> insert v seen \<and> ?d w \<le> Suc (?d ((q @ [v]) ! i))"
  proof (intro allI impI ballI)
    fix i w assume i: "i < head" and w: "w \<in> set (getSucc ((q @ [v]) ! i))"
    from i h have il: "i < length q" by simp
    with w nthq have "w \<in> set (getSucc (q ! i))" by simp
    with proc i have "w \<in> seen" "d w \<le> Suc (d (q ! i))" by blast+
    with old il nthq dq show "w \<in> insert v seen \<and> ?d w \<le> Suc (?d ((q @ [v]) ! i))" by simp
  qed
  have c11: "\<forall>w \<in> set (dn @ [v]). w \<in> insert v seen \<and> ?d w \<le> Suc (?d ((q @ [v]) ! head))"
  proof
    fix w assume w: "w \<in> set (dn @ [v])"
    have hd: "?d ((q @ [v]) ! head) = d ?u" using h nthq dq by simp
    show "w \<in> insert v seen \<and> ?d w \<le> Suc (?d ((q @ [v]) ! head))"
    proof (cases "w = v")
      case True
      with hd show ?thesis by simp
    next
      case False
      with w have "w \<in> set dn" by simp
      with dn have "w \<in> seen" "d w \<le> Suc (d ?u)" by blast+
      with old hd show ?thesis by simp
    qed
  qed
  have inv': "bfs_inv getSucc a to ?d (insert v seen) (parent(v \<mapsto> ?u)) (q @ [v]) head"
    unfolding bfs_inv_def
    using c1 c2 c3 c4 c5 c6 c7 c8 c9 c10 by blast
  show ?thesis
    unfolding bfs_inv_for_def using inv' c11 h by simp
qed


lemma walk_lower_bound:
  assumes inv: "bfs_inv getSucc a to d seen parent q head" and h: "head < length q"
    and w: "walk getSucc a x k"
  shows "k \<le> d (q ! head) \<longrightarrow> x \<in> seen \<and> d x \<le> k"
  using w
proof (induction rule: walk.induct)
  case walk_start
  from inv show ?case by (simp add: bfs_inv_def)
next
  case (walk_step x k y)
  show ?case
  proof
    assume k: "Suc k \<le> d (q ! head)"
    with walk_step.IH have xs: "x \<in> seen" and dx: "d x \<le> k" by simp_all
    from inv xs obtain i where i: "i < length q" "q ! i = x"
      unfolding bfs_inv_def by (metis in_set_conv_nth)
    have "i < head"
    proof (rule ccontr)
      assume "\<not> i < head"
      then have "head \<le> i" by simp
      with inv i have "d (q ! head) \<le> d x" unfolding bfs_inv_def by blast
      with dx k show False by simp
    qed
    with inv i walk_step.hyps(2) have "y \<in> seen \<and> d y \<le> Suc (d x)"
      unfolding bfs_inv_def by blast
    with dx show "y \<in> seen \<and> d y \<le> Suc k" by simp
  qed
qed

lemma reconstruct_terminates:
  assumes tree: "\<And>v u. parent v = Some u \<Longrightarrow> d v = Suc (d u)"
  shows "\<exists>p. reconstruct parent (Some c) acc = Some (p @ acc) \<and> p \<noteq> [] \<and> length p \<le> Suc (d c)"
proof (induction "d c" arbitrary: c acc rule: less_induct)
  case less
  show ?case
  proof (cases "parent c")
    case None
    then have "reconstruct parent (Some c) acc = Some ([c] @ acc)"
      by (subst reconstruct.simps, simp, subst reconstruct.simps, simp)
    then show ?thesis by (intro exI [of _ "[c]"]) simp
  next
    case (Some u)
    with tree have du: "d c = Suc (d u)" by simp
    then have "d u < d c" by simp
    from less [OF this, of "c # acc"] obtain p where
      p: "reconstruct parent (Some u) (c # acc) = Some (p @ c # acc)" "length p \<le> Suc (d u)"
      by auto
    have "reconstruct parent (Some c) acc = reconstruct parent (Some u) (c # acc)"
      using Some by (subst reconstruct.simps) simp
    with p du show ?thesis by (intro exI [of _ "p @ [c]"]) simp
  qed
qed

lemma sp_for_inv:
  assumes "bfs_inv_for getSucc a to d seen parent q head dn"
    and "getSucc u = dn @ vs" and "q ! head = u"
  shows "(\<forall>st. sp_for to u vs seen parent q = Continue st \<longrightarrow>
            (\<exists>d'. bfs_inv_for getSucc a to d' (fst st) (fst (snd st)) (snd (snd st)) head (getSucc u))
            \<and> snd (snd st) ! head = u)
       \<and> (\<forall>parent'. sp_for to u vs seen parent q = Return parent' \<longrightarrow>
            (\<exists>d' seen' par' q' dn'. bfs_inv_for getSucc a to d' seen' par' q' head dn'
               \<and> q' ! head = u \<and> parent' = par'(to \<mapsto> u) \<and> to \<in> set (getSucc u)))"
  using assms
proof (induction vs arbitrary: d seen parent q dn)
  case Nil
  then show ?case by auto
next
  case (Cons v vs)
  have vin: "v \<in> set (getSucc u)" using Cons.prems(2) by simp
  have split: "getSucc u = (dn @ [v]) @ vs" using Cons.prems(2) by simp
  show ?case
  proof (cases "v \<in> seen")
    case True
    from bfs_inv_for_skip [OF Cons.prems(1) True]
    have J: "bfs_inv_for getSucc a to d seen parent q head (dn @ [v])" .
    have step: "sp_for to u (v # vs) seen parent q = sp_for to u vs seen parent q"
      using True by simp
    show ?thesis unfolding step by (rule Cons.IH [OF J split Cons.prems(3)])
  next
    case notseen: False
    show ?thesis
    proof (cases "v = to")
      case True
      with notseen have r: "sp_for to u (v # vs) seen parent q = Return (parent(to \<mapsto> u))" by simp
      show ?thesis
      proof (rule conjI; intro allI impI)
        fix st assume "sp_for to u (v # vs) seen parent q = Continue st"
        with r show "(\<exists>d'. bfs_inv_for getSucc a to d' (fst st) (fst (snd st)) (snd (snd st)) head (getSucc u))
            \<and> snd (snd st) ! head = u" by simp
      next
        fix parent' assume "sp_for to u (v # vs) seen parent q = Return parent'"
        with r have e: "parent' = parent(to \<mapsto> u)" by simp
        show "\<exists>d' seen' par' q' dn'. bfs_inv_for getSucc a to d' seen' par' q' head dn'
               \<and> q' ! head = u \<and> parent' = par'(to \<mapsto> u) \<and> to \<in> set (getSucc u)"
          unfolding e using Cons.prems(1,3) vin True by blast
      qed
    next
      case False
      from Cons.prems(1) have h: "head < length q" by (simp add: bfs_inv_for_def)
      from bfs_inv_for_push [OF Cons.prems(1) notseen False] vin Cons.prems(3)
      have J: "bfs_inv_for getSucc a to (d(v := Suc (d u))) (insert v seen)
           (parent(v \<mapsto> u)) (q @ [v]) head (dn @ [v])" by simp
      have q': "(q @ [v]) ! head = u" using h Cons.prems(3) by (simp add: nth_append)
      have step: "sp_for to u (v # vs) seen parent q
          = sp_for to u vs (insert v seen) (parent(v \<mapsto> u)) (q @ [v])"
        using notseen False by simp
      show ?thesis unfolding step by (rule Cons.IH [OF J split q'])
    qed
  qed
qed

lemma found_path_shortest:
  assumes J: "bfs_inv_for getSucc a to d seen parent q head dn"
    and u: "q ! head = u" and t: "to \<in> set (getSucc u)"
  shows "\<exists>p. reconstruct (parent(to \<mapsto> u)) (Some to) [] = Some p \<and> p \<noteq> []
           \<and> (\<forall>k. walk getSucc a to k \<longrightarrow> length p \<le> Suc k)"
proof -
  from J have inv: "bfs_inv getSucc a to d seen parent q head" and h: "head < length q"
    by (simp_all add: bfs_inv_for_def)
  from inv have to: "to \<notin> seen" and sq: "set q = seen"
    and par: "\<forall>x w. parent x = Some w \<longrightarrow> x \<in> seen \<and> w \<in> seen \<and> x \<in> set (getSucc w) \<and> d x = Suc (d w)"
    by (simp_all add: bfs_inv_def)
  from h sq u have us: "u \<in> seen" by auto
  with to have ut: "u \<noteq> to" by auto
  let ?d = "d(to := Suc (d u))"
  have tree: "\<And>x w. (parent(to \<mapsto> u)) x = Some w \<Longrightarrow> ?d x = Suc (?d w)"
  proof -
    fix x w assume p: "(parent(to \<mapsto> u)) x = Some w"
    show "?d x = Suc (?d w)"
    proof (cases "x = to")
      case True
      with p ut show ?thesis by auto
    next
      case False
      with p have "parent x = Some w" by simp
      with par have "x \<in> seen" "w \<in> seen" "d x = Suc (d w)" by blast+
      with to show ?thesis by auto
    qed
  qed
  from reconstruct_terminates [of "parent(to \<mapsto> u)" ?d to "[]", OF tree]
  obtain p where p: "reconstruct (parent(to \<mapsto> u)) (Some to) [] = Some p" "p \<noteq> []"
    "length p \<le> Suc (Suc (d u))" by auto
  have "\<forall>k. walk getSucc a to k \<longrightarrow> length p \<le> Suc k"
  proof (intro allI impI)
    fix k assume w: "walk getSucc a to k"
    have "\<not> k \<le> d u"
      using walk_lower_bound [OF inv h w] u to by auto
    with p(3) show "length p \<le> Suc k" by simp
  qed
  with p show ?thesis by blast
qed

lemma reach_for_sp_for:
  "reach_for to vs seen q =
     (case sp_for to u vs seen parent q of
        Return parent' \<Rightarrow> Return True
      | Continue st \<Rightarrow> Continue (fst st, snd (snd st)))"
  by (induction vs arbitrary: seen parent q) auto


lemma sp_while_reach_while:
  assumes a: "sp_while getSucc to seen parent q head = Some r"
  shows "reach_while getSucc to seen q head = Some (r \<noteq> None)"
proof (rule sp_while.raw_induct
    [where P = "\<lambda>getSucc to seen parent q head r. reach_while getSucc to seen q head = Some (r \<noteq> None)",
     OF _ a])
  fix f :: "(NodeId \<Rightarrow> NodeId list) \<Rightarrow> NodeId \<Rightarrow> NodeId set \<Rightarrow> (NodeId \<rightharpoonup> NodeId) \<Rightarrow> NodeId list \<Rightarrow> nat
    \<Rightarrow> NodeId list option option"
  fix getSucc to seen parent q head r
  assume IH: "\<And>getSucc to seen parent q head y. f getSucc to seen parent q head = Some y \<Longrightarrow>
      reach_while getSucc to seen q head = Some (y \<noteq> None)"
  assume eq: "(if head < length q
      then case sp_for to (q ! head) (getSucc (q ! head)) seen parent q of
           Return parent' \<Rightarrow> Option.bind (reconstruct parent' (Some to) []) (\<lambda>p. Some (Some p))
           | Continue st \<Rightarrow> f getSucc to (fst st) (fst (snd st)) (snd (snd st)) (head + 1)
      else Some None) = Some r"
  show "reach_while getSucc to seen q head = Some (r \<noteq> None)"
  proof (cases "head < length q")
    case False
    with eq show ?thesis by (subst reach_while.simps) auto
  next
    case h: True
    show ?thesis
    proof (cases "sp_for to (q ! head) (getSucc (q ! head)) seen parent q")
      case (Return parent')
      with h eq have "r \<noteq> None" by (auto simp: bind_eq_Some_conv)
      moreover from Return have "reach_for to (getSucc (q ! head)) seen q = Return True"
        by (simp add: reach_for_sp_for [of to _ seen q "q ! head" parent])
      ultimately show ?thesis using h by (subst reach_while.simps) simp
    next
      case (Continue st)
      with h eq have "f getSucc to (fst st) (fst (snd st)) (snd (snd st)) (head + 1) = Some r"
        by simp
      from IH [OF this]
      have "reach_while getSucc to (fst st) (snd (snd st)) (head + 1) = Some (r \<noteq> None)" .
      moreover from Continue have "reach_for to (getSucc (q ! head)) seen q = Continue (fst st, snd (snd st))"
        by (simp add: reach_for_sp_for [of to _ seen q "q ! head" parent])
      ultimately show ?thesis using h by (subst reach_while.simps) simp
    qed
  qed
qed


lemma sp_for_inv_head:
  assumes inv: "bfs_inv getSucc a to d seen parent q head" and h: "head < length q"
  shows "(\<forall>st. sp_for to (q ! head) (getSucc (q ! head)) seen parent q = Continue st \<longrightarrow>
            (\<exists>d'. bfs_inv getSucc a to d' (fst st) (fst (snd st)) (snd (snd st)) (head + 1)))
       \<and> (\<forall>parent'. sp_for to (q ! head) (getSucc (q ! head)) seen parent q = Return parent' \<longrightarrow>
            (\<exists>p. reconstruct parent' (Some to) [] = Some p \<and> p \<noteq> []
               \<and> (\<forall>k. walk getSucc a to k \<longrightarrow> length p \<le> Suc k)))"
proof -
  let ?u = "q ! head"
  from bfs_inv_enter [OF inv h] have J: "bfs_inv_for getSucc a to d seen parent q head []" .
  have facts: "(\<forall>st. sp_for to ?u (getSucc ?u) seen parent q = Continue st \<longrightarrow>
        (\<exists>d'. bfs_inv_for getSucc a to d' (fst st) (fst (snd st)) (snd (snd st)) head (getSucc ?u))
        \<and> snd (snd st) ! head = ?u)
   \<and> (\<forall>parent'. sp_for to ?u (getSucc ?u) seen parent q = Return parent' \<longrightarrow>
        (\<exists>d' seen' par' q' dn'. bfs_inv_for getSucc a to d' seen' par' q' head dn'
           \<and> q' ! head = ?u \<and> parent' = par'(to \<mapsto> ?u) \<and> to \<in> set (getSucc ?u)))"
    by (rule sp_for_inv [OF J]) simp_all
  show ?thesis
  proof (rule conjI; intro allI impI)
    fix st assume "sp_for to ?u (getSucc ?u) seen parent q = Continue st"
    with facts obtain d' where
      J': "bfs_inv_for getSucc a to d' (fst st) (fst (snd st)) (snd (snd st)) head (getSucc ?u)"
      and q': "snd (snd st) ! head = ?u" by blast
    from J' q' have "bfs_inv_for getSucc a to d' (fst st) (fst (snd st)) (snd (snd st)) head
        (getSucc (snd (snd st) ! head))" by simp
    from bfs_inv_for_exit [OF this]
    show "\<exists>d'. bfs_inv getSucc a to d' (fst st) (fst (snd st)) (snd (snd st)) (head + 1)"
      by auto
  next
    fix parent' assume "sp_for to ?u (getSucc ?u) seen parent q = Return parent'"
    with facts obtain d' seen' par' q' dn' where
      J': "bfs_inv_for getSucc a to d' seen' par' q' head dn'" and
      q': "q' ! head = ?u" and p': "parent' = par'(to \<mapsto> ?u)" and t: "to \<in> set (getSucc ?u)"
      by blast
    from found_path_shortest [OF J' q' t] p'
    show "\<exists>p. reconstruct parent' (Some to) [] = Some p \<and> p \<noteq> []
               \<and> (\<forall>k. walk getSucc a to k \<longrightarrow> length p \<le> Suc k)" by simp
  qed
qed

lemma reach_while_sp_while:
  assumes b: "reach_while getSucc to seen q head = Some b"
    and inv: "bfs_inv getSucc a to d seen parent q head"
  shows "\<exists>r. sp_while getSucc to seen parent q head = Some r \<and> b = (r \<noteq> None)"
proof -
  have "\<forall>parent. (\<exists>d. bfs_inv getSucc a to d seen parent q head) \<longrightarrow>
           (\<exists>r. sp_while getSucc to seen parent q head = Some r \<and> b = (r \<noteq> None))"
  proof (rule reach_while.raw_induct
      [where P = "\<lambda>getSucc to seen q head b. \<forall>parent. (\<exists>d. bfs_inv getSucc a to d seen parent q head) \<longrightarrow>
           (\<exists>r. sp_while getSucc to seen parent q head = Some r \<and> b = (r \<noteq> None))", OF _ b])
    fix f :: "(NodeId \<Rightarrow> NodeId list) \<Rightarrow> NodeId \<Rightarrow> NodeId set \<Rightarrow> NodeId list \<Rightarrow> nat \<Rightarrow> bool option"
    fix getSucc to seen q head b
    assume IH: "\<And>getSucc to seen q head y. f getSucc to seen q head = Some y \<Longrightarrow>
        \<forall>parent. (\<exists>d. bfs_inv getSucc a to d seen parent q head) \<longrightarrow>
           (\<exists>r. sp_while getSucc to seen parent q head = Some r \<and> y = (r \<noteq> None))"
    assume eq: "(if head < length q
        then case reach_for to (getSucc (q ! head)) seen q of
             Return b \<Rightarrow> Some b
             | Continue sq \<Rightarrow> f getSucc to (fst sq) (snd sq) (head + 1)
        else Some False) = Some b"
    show "\<forall>parent. (\<exists>d. bfs_inv getSucc a to d seen parent q head) \<longrightarrow>
           (\<exists>r. sp_while getSucc to seen parent q head = Some r \<and> b = (r \<noteq> None))"
    proof (intro allI impI)
      fix parent assume "\<exists>d. bfs_inv getSucc a to d seen parent q head"
      then obtain d where inv: "bfs_inv getSucc a to d seen parent q head" ..
      show "\<exists>r. sp_while getSucc to seen parent q head = Some r \<and> b = (r \<noteq> None)"
      proof (cases "head < length q")
        case False
        with eq show ?thesis by (subst sp_while.simps) auto
      next
        case h: True
        let ?u = "q ! head"
        note facts = sp_for_inv_head [OF inv h]
        show ?thesis
        proof (cases "sp_for to ?u (getSucc ?u) seen parent q")
          case (Return parent')
          with facts obtain p where
            p: "reconstruct parent' (Some to) [] = Some p" by blast
          from Return have "reach_for to (getSucc ?u) seen q = Return True"
            by (simp add: reach_for_sp_for [of to _ seen q ?u parent])
          with h eq have b: "b = True" by simp
          have "sp_while getSucc to seen parent q head = Some (Some p)"
            using h Return p by (subst sp_while.simps) simp
          with b show ?thesis by simp
        next
          case (Continue st)
          with facts have
            inv': "\<exists>d. bfs_inv getSucc a to d (fst st) (fst (snd st)) (snd (snd st)) (head + 1)"
            by blast
          from Continue have "reach_for to (getSucc ?u) seen q = Continue (fst st, snd (snd st))"
            by (simp add: reach_for_sp_for [of to _ seen q ?u parent])
          with h eq have "f getSucc to (fst st) (snd (snd st)) (head + 1) = Some b"
            by simp
          from IH [OF this] inv' obtain r where
            "sp_while getSucc to (fst st) (fst (snd st)) (snd (snd st)) (head + 1) = Some r" "b = (r \<noteq> None)"
            by blast
          then show ?thesis using h Continue by (subst sp_while.simps) simp
        qed
      qed
    qed
  qed
  with inv show ?thesis by blast
qed

lemma sp_while_shortest:
  assumes r: "sp_while getSucc to seen parent q head = Some r"
    and inv: "bfs_inv getSucc a to d seen parent q head"
    and w: "walk getSucc a to k" and rp: "r = Some p"
  shows "p \<noteq> [] \<and> length p \<le> Suc k"
proof -
  have "(\<exists>d. bfs_inv getSucc a to d seen parent q head) \<longrightarrow>
           (\<forall>p k. r = Some p \<longrightarrow> walk getSucc a to k \<longrightarrow> p \<noteq> [] \<and> length p \<le> Suc k)"
  proof (rule sp_while.raw_induct
      [where P = "\<lambda>getSucc to seen parent q head r. (\<exists>d. bfs_inv getSucc a to d seen parent q head) \<longrightarrow>
           (\<forall>p k. r = Some p \<longrightarrow> walk getSucc a to k \<longrightarrow> p \<noteq> [] \<and> length p \<le> Suc k)", OF _ r])
    fix f :: "(NodeId \<Rightarrow> NodeId list) \<Rightarrow> NodeId \<Rightarrow> NodeId set \<Rightarrow> (NodeId \<rightharpoonup> NodeId) \<Rightarrow> NodeId list \<Rightarrow> nat
      \<Rightarrow> NodeId list option option"
    fix getSucc to seen parent q head r
    assume IH: "\<And>getSucc to seen parent q head y. f getSucc to seen parent q head = Some y \<Longrightarrow>
        (\<exists>d. bfs_inv getSucc a to d seen parent q head) \<longrightarrow>
           (\<forall>p k. y = Some p \<longrightarrow> walk getSucc a to k \<longrightarrow> p \<noteq> [] \<and> length p \<le> Suc k)"
    assume eq: "(if head < length q
        then case sp_for to (q ! head) (getSucc (q ! head)) seen parent q of
             Return parent' \<Rightarrow> Option.bind (reconstruct parent' (Some to) []) (\<lambda>p. Some (Some p))
             | Continue st \<Rightarrow> f getSucc to (fst st) (fst (snd st)) (snd (snd st)) (head + 1)
        else Some None) = Some r"
    show "(\<exists>d. bfs_inv getSucc a to d seen parent q head) \<longrightarrow>
           (\<forall>p k. r = Some p \<longrightarrow> walk getSucc a to k \<longrightarrow> p \<noteq> [] \<and> length p \<le> Suc k)"
    proof (intro allI impI)
      fix p k
      assume "\<exists>d. bfs_inv getSucc a to d seen parent q head"
        and r: "r = Some p" and w: "walk getSucc a to k"
      then obtain d where inv: "bfs_inv getSucc a to d seen parent q head" by blast
      show "p \<noteq> [] \<and> length p \<le> Suc k"
      proof (cases "head < length q")
        case False
        with eq r show ?thesis by simp
      next
        case h: True
        let ?u = "q ! head"
        note facts = sp_for_inv_head [OF inv h]
        show ?thesis
        proof (cases "sp_for to ?u (getSucc ?u) seen parent q")
          case (Return parent')
          with facts obtain p0 where
            p0: "reconstruct parent' (Some to) [] = Some p0" "p0 \<noteq> []"
              "\<forall>k. walk getSucc a to k \<longrightarrow> length p0 \<le> Suc k" by blast
          from h Return eq p0(1) r have "p = p0" by simp
          with p0 w show ?thesis by simp
        next
          case (Continue st)
          with facts have
            inv': "\<exists>d. bfs_inv getSucc a to d (fst st) (fst (snd st)) (snd (snd st)) (head + 1)"
            by blast
          from h Continue eq
          have "f getSucc to (fst st) (fst (snd st)) (snd (snd st)) (head + 1) = Some r" by simp
          from IH [OF this] inv' r w show ?thesis by blast
        qed
      qed
    qed
  qed
  with inv w rp show ?thesis by blast
qed

text \<open>
  C9. For every start node, target and successor function, \<open>shortestPath\<close> returns a
  path (a non-null result) exactly when \<open>isReachable\<close> returns true; moreover one of
  the two calls fails to return exactly when the other does.
\<close>

theorem shortestPath_iff_isReachable:
  "(\<exists>p. shortestPath a to getSucc = Some (Some p)) = (isReachable a to getSucc = Some True)
   \<and> (shortestPath a to getSucc = None) = (isReachable a to getSucc = None)"
proof (cases "a = to")
  case True
  then show ?thesis by (simp add: shortestPath_def isReachable_def)
next
  case False
  note inv = bfs_inv_init [OF False, of getSucc]
  let ?sp = "sp_while getSucc to {a} Map.empty [a] 0"
  let ?re = "reach_while getSucc to {a} [a] 0"
  have 1: "\<And>r. ?sp = Some r \<Longrightarrow> ?re = Some (r \<noteq> None)"
    by (rule sp_while_reach_while)
  have 2: "\<And>b. ?re = Some b \<Longrightarrow> \<exists>r. ?sp = Some r \<and> b = (r \<noteq> None)"
    by (rule reach_while_sp_while [OF _ inv])
  have "(\<exists>p. ?sp = Some (Some p)) = (?re = Some True)"
  proof
    assume "\<exists>p. ?sp = Some (Some p)"
    then obtain p where "?sp = Some (Some p)" ..
    from 1 [OF this] show "?re = Some True" by simp
  next
    assume "?re = Some True"
    from 2 [OF this] show "\<exists>p. ?sp = Some (Some p)" by auto
  qed
  moreover have "(?sp = None) = (?re = None)"
  proof
    assume n: "?sp = None"
    show "?re = None"
    proof (cases ?re)
      case None then show ?thesis .
    next
      case (Some b)
      from 2 [OF this] n show ?thesis by simp
    qed
  next
    assume n: "?re = None"
    show "?sp = None"
    proof (cases ?sp)
      case None then show ?thesis .
    next
      case (Some r)
      from 1 [OF this] n show ?thesis by simp
    qed
  qed
  ultimately show ?thesis using False by (simp add: shortestPath_def isReachable_def)
qed

section \<open>The shortest path against the enumerated paths\<close>

lemma dfs_fap_ok:
  "(fap_ok getSucc a to s \<and> last (path s) = u \<longrightarrow>
      fap_ok getSucc a to (dfs getSucc to maxDepth u depth s)
      \<and> path (dfs getSucc to maxDepth u depth s) = path s)"
  "(fap_ok getSucc a to s \<and> set vs \<subseteq> set (getSucc (last (path s))) \<longrightarrow>
      fap_ok getSucc a to (dfs_for getSucc to maxDepth vs depth s)
      \<and> path (dfs_for getSucc to maxDepth vs depth s) = path s)"
proof (induction getSucc to maxDepth u depth s and getSucc to maxDepth vs depth s
    rule: dfs_dfs_for.induct)
  case (1 getSucc to maxDepth u depth s)
  show ?case
  proof
    assume ok: "fap_ok getSucc a to s \<and> last (path s) = u"
    show "fap_ok getSucc a to (dfs getSucc to maxDepth u depth s)
      \<and> path (dfs getSucc to maxDepth u depth s) = path s"
    proof (cases "depth > maxDepth")
      case True
      with ok show ?thesis by simp
    next
      case d: False
      show ?thesis
      proof (cases "u = to")
        case True
        with d ok show ?thesis by (auto simp: fap_ok_def)
      next
        case False
        with d ok "1.IH" show ?thesis by simp
      qed
    qed
  qed
next
  case (2 getSucc to maxDepth depth s)
  show ?case by simp
next
  case (3 getSucc to maxDepth v vs depth s)
  show ?case
  proof
    assume ok: "fap_ok getSucc a to s \<and> set (v # vs) \<subseteq> set (getSucc (last (path s)))"
    then have oks: "fap_ok getSucc a to s" and v: "v \<in> set (getSucc (last (path s)))"
      and vs: "set vs \<subseteq> set (getSucc (last (path s)))" by simp_all
    show "fap_ok getSucc a to (dfs_for getSucc to maxDepth (v # vs) depth s)
      \<and> path (dfs_for getSucc to maxDepth (v # vs) depth s) = path s"
    proof (cases "v \<in> visited s")
      case True
      with "3.IH"(1) oks vs show ?thesis by simp
    next
      case False
      define s1 where "s1 = s\<lparr>visited := insert v (visited s), path := path s @ [v]\<rparr>"
      define s2 where "s2 = dfs getSucc to maxDepth v (depth + 1) s1"
      define s3 where "s3 = s2\<lparr>path := butlast (path s2), visited := visited s2 - {v}\<rparr>"
      from oks have ne: "path s \<noteq> []" and w: "walk getSucc a (last (path s)) (length (path s) - 1)"
        and good: "\<forall>p \<in> set (paths s). p \<noteq> [] \<and> walk getSucc a to (length p - 1)"
        by (simp_all add: fap_ok_def)
      from walk_step [OF w v] ne have "walk getSucc a v (length (path s))" by simp
      with good have ok1: "fap_ok getSucc a to s1 \<and> last (path s1) = v"
        by (simp add: fap_ok_def s1_def)
      from "3.IH"(2) [OF False s1_def] ok1
      have ok2: "fap_ok getSucc a to s2" and p2: "path s2 = path s1"
        by (simp_all add: s2_def)
      have p3: "path s3 = path s" by (simp add: s3_def p2 s1_def)
      from ok2 have "\<forall>p \<in> set (paths s3). p \<noteq> [] \<and> walk getSucc a to (length p - 1)"
        by (simp add: fap_ok_def s3_def)
      with ne w p3 have ok3: "fap_ok getSucc a to s3" by (simp add: fap_ok_def)
      from "3.IH"(3) [OF False s1_def s2_def s3_def] ok3 vs p3
      have "fap_ok getSucc a to (dfs_for getSucc to maxDepth vs depth s3)
        \<and> path (dfs_for getSucc to maxDepth vs depth s3) = path s" by simp
      moreover have "dfs_for getSucc to maxDepth (v # vs) depth s = dfs_for getSucc to maxDepth vs depth s3"
        using False by (simp add: Let_def s3_def s2_def s1_def)
      ultimately show ?thesis by simp
    qed
  qed
qed

lemma findAllPaths_walks:
  assumes "findAllPaths a to getSucc maxDepthArg = Inr ps" and "x \<in> set ps"
  shows "x \<noteq> [] \<and> walk getSucc a to (length x - 1)"
proof -
  let ?m = "case maxDepthArg of None \<Rightarrow> 100 | Some d \<Rightarrow> d"
  let ?s0 = "\<lparr>paths = [], visited = {a}, path = [a]\<rparr>"
  from assms(1) have ps: "ps = paths (dfs getSucc to ?m a 0 ?s0)"
    by (auto simp: findAllPaths_def Let_def split: if_splits)
  have "fap_ok getSucc a to ?s0" by (simp add: fap_ok_def walk_start)
  with dfs_fap_ok(1) [of getSucc a to ?s0 a ?m 0]
  have "fap_ok getSucc a to (dfs getSucc to ?m a 0 ?s0)" by simp
  with ps assms(2) show ?thesis by (simp add: fap_ok_def)
qed

text \<open>
  C7. For every start node, target, successor function and depth bound: if
  \<open>shortestPath\<close> returns a path and \<open>findAllPaths\<close> returns (its bound is not
  negative), then the number of edges of the shortest path is at most the number of
  edges of every enumerated path; no path involved is empty.
\<close>

theorem shortestPath_shortest:
  "shortestPath a to getSucc = Some (Some p) \<and> findAllPaths a to getSucc maxDepth = Inr ps \<longrightarrow>
     (\<forall>x \<in> set ps. p \<noteq> [] \<and> x \<noteq> [] \<and> length p - 1 \<le> length x - 1)"
proof (intro impI ballI)
  fix x
  assume asm: "shortestPath a to getSucc = Some (Some p) \<and> findAllPaths a to getSucc maxDepth = Inr ps"
    and x: "x \<in> set ps"
  from findAllPaths_walks [of a to getSucc maxDepth ps x] asm x
  have xne: "x \<noteq> []" and w: "walk getSucc a to (length x - 1)" by simp_all
  show "p \<noteq> [] \<and> x \<noteq> [] \<and> length p - 1 \<le> length x - 1"
  proof (cases "a = to")
    case True
    with asm have "p = [a]" by (simp add: shortestPath_def)
    with xne show ?thesis by simp
  next
    case False
    with asm have sp: "sp_while getSucc to {a} Map.empty [a] 0 = Some (Some p)"
      by (simp add: shortestPath_def)
    from sp_while_shortest [OF sp bfs_inv_init [OF False] w refl]
    have "p \<noteq> []" "length p \<le> Suc (length x - 1)" by simp_all
    with xne show ?thesis by simp
  qed
qed

lemma reconstruct_None: "reconstruct parent None acc = Some acc"
  by (subst reconstruct.simps) simp

lemma reconstruct_Some: "reconstruct parent (Some c) acc = reconstruct parent (parent c) (c # acc)"
  by (subst reconstruct.simps) simp

lemma shortestPath_A_B:
  "shortestPath ''A'' ''B'' (\<lambda>n. if n = ''A'' then [''C'', ''B''] else if n = ''C'' then [''B''] else [])
     = Some (Some [''A'', ''B''])"
  by (simp add: shortestPath_def sp_while.simps reconstruct_None reconstruct_Some)

lemma findAllPaths_A_B:
  "findAllPaths ''A'' ''B'' (\<lambda>n. if n = ''A'' then [''C'', ''B''] else if n = ''C'' then [''B''] else []) (Some 5)
     = Inr [[''A'', ''C'', ''B''], [''A'', ''B'']]"
  by (simp add: findAllPaths_def Let_def)

theorem shortestPath_shortest_witness:
  "shortestPath ''A'' ''B'' (\<lambda>n. if n = ''A'' then [''C'', ''B''] else if n = ''C'' then [''B''] else [])
     = Some (Some [''A'', ''B''])
   \<and> findAllPaths ''A'' ''B'' (\<lambda>n. if n = ''A'' then [''C'', ''B''] else if n = ''C'' then [''B''] else []) (Some 5)
     = Inr [[''A'', ''C'', ''B''], [''A'', ''B'']]
   \<and> length [''A'', ''B''] - 1 \<le> length [''A'', ''C'', ''B''] - 1
   \<and> length [''A'', ''B''] - 1 \<le> length [''A'', ''B''] - 1"
  using shortestPath_shortest
    [of "''A''" "''B''" "\<lambda>n. if n = ''A'' then [''C'', ''B''] else if n = ''C'' then [''B''] else []"
        "[''A'', ''B'']" "Some 5" "[[''A'', ''C'', ''B''], [''A'', ''B'']]"]
    shortestPath_A_B findAllPaths_A_B
  by simp

section \<open>The engine keeps its indices consistent\<close>

lemma wf_graph_new: "wf_graph (new_graph sl me vc)"
  by (simp add: wf_graph_def new_graph_def getSuccessors_def)

lemma wf_graph_clear: "wf_graph (clear g)"
  by (simp add: wf_graph_def clear_def getSuccessors_def)

lemma map_of_update_cases:
  "map_of (AList.update k v al) x = Some y \<Longrightarrow> (x = k \<and> y = v) \<or> (x \<noteq> k \<and> map_of al x = Some y)"
  by (cases "x = k") (simp_all add: update_conv')

lemma wf_graph_addNode_fields:
  assumes wf: "wf_graph g" and inew: "i \<notin> set (map fst (nodes g))"
    and n: "nodes g' = AList.update i nd (nodes g)"
    and a: "adjacencyList g' = AList.update i [] (adjacencyList g)"
    and r: "reverseAdjacencyList g' = AList.update i [] (reverseAdjacencyList g)"
    and e: "edgeIndex g' = edgeIndex g" "edges g' = edges g"
  shows "wf_graph g'"
proof -
  from wf have d: "distinct (map fst (nodes g))"
    and ka: "map fst (adjacencyList g) = map fst (nodes g)"
    and kr: "map fst (reverseAdjacencyList g) = map fst (nodes g)"
    and adj: "\<forall>u s. map_of (adjacencyList g) u = Some s \<longrightarrow> distinct s \<and> set s \<subseteq> fst ` set (nodes g)"
    and rev: "\<forall>v s. map_of (reverseAdjacencyList g) v = Some s \<longrightarrow>
         distinct s \<and> set s = {u. v \<in> set (getSuccessors g u)}"
    and ei1: "\<forall>k b. map_of (edgeIndex g) k = Some b \<longrightarrow>
         b \<noteq> [] \<and> (\<exists>u v. k = getEdgeKey u v \<and> v \<in> set (getSuccessors g u))"
    and ei2: "\<forall>u v. v \<in> set (getSuccessors g u) \<longrightarrow> map_of (edgeIndex g) (getEdgeKey u v) \<noteq> None"
    and ed: "\<forall>e \<in> snd ` set (edges g). edge_to e \<in> set (getSuccessors g (edge_from e))"
    by (simp_all add: wf_graph_def)
  have "set (map fst (adjacencyList g)) = set (map fst (nodes g))" using ka by simp
  with inew have ai: "map_of (adjacencyList g) i = None"
    by (simp add: map_of_eq_None_iff)
  have succ: "getSuccessors g' u = getSuccessors g u" for u
    using ai by (simp add: getSuccessors_def a update_conv')
  have keys: "fst ` set (nodes g') = insert i (fst ` set (nodes g))"
    by (simp add: n dom_update)
  have noi: "i \<notin> set (getSuccessors g u)" for u
  proof (cases "map_of (adjacencyList g) u")
    case None then show ?thesis by (simp add: getSuccessors_def)
  next
    case (Some s)
    with adj have "set s \<subseteq> fst ` set (nodes g)" by blast
    with inew Some show ?thesis by (auto simp: getSuccessors_def)
  qed
  have c1: "distinct (map fst (nodes g'))" using d by (simp add: n distinct_update)
  have c2: "map fst (adjacencyList g') = map fst (nodes g')" using ka by (simp add: n a update_keys)
  have c3: "map fst (reverseAdjacencyList g') = map fst (nodes g')" using kr by (simp add: n r update_keys)
  have c4: "\<forall>u s. map_of (adjacencyList g') u = Some s \<longrightarrow> distinct s \<and> set s \<subseteq> fst ` set (nodes g')"
  proof (intro allI impI)
    fix u s assume "map_of (adjacencyList g') u = Some s"
    then have "(u = i \<and> s = []) \<or> (u \<noteq> i \<and> map_of (adjacencyList g) u = Some s)"
      unfolding a by (rule map_of_update_cases)
    then show "distinct s \<and> set s \<subseteq> fst ` set (nodes g')"
    proof
      assume "u = i \<and> s = []"
      then show ?thesis by simp
    next
      assume "u \<noteq> i \<and> map_of (adjacencyList g) u = Some s"
      with adj have "distinct s \<and> set s \<subseteq> fst ` set (nodes g)" by blast
      then show ?thesis unfolding keys by blast
    qed
  qed
  have c5: "\<forall>v s. map_of (reverseAdjacencyList g') v = Some s \<longrightarrow>
         distinct s \<and> set s = {u. v \<in> set (getSuccessors g' u)}"
  proof (intro allI impI)
    fix v s assume "map_of (reverseAdjacencyList g') v = Some s"
    then have "(v = i \<and> s = []) \<or> (v \<noteq> i \<and> map_of (reverseAdjacencyList g) v = Some s)"
      unfolding r by (rule map_of_update_cases)
    then show "distinct s \<and> set s = {u. v \<in> set (getSuccessors g' u)}"
    proof
      assume "v = i \<and> s = []"
      with noi show ?thesis by (simp add: succ)
    next
      assume "v \<noteq> i \<and> map_of (reverseAdjacencyList g) v = Some s"
      with rev have "distinct s \<and> set s = {u. v \<in> set (getSuccessors g u)}" by blast
      then show ?thesis by (simp only: succ)
    qed
  qed
  have c6: "\<forall>k b. map_of (edgeIndex g') k = Some b \<longrightarrow>
         b \<noteq> [] \<and> (\<exists>u v. k = getEdgeKey u v \<and> v \<in> set (getSuccessors g' u))"
    using ei1 by (simp only: e succ)
  have c7: "\<forall>u v. v \<in> set (getSuccessors g' u) \<longrightarrow> map_of (edgeIndex g') (getEdgeKey u v) \<noteq> None"
    using ei2 by (simp only: e succ)
  have c8: "\<forall>e \<in> snd ` set (edges g'). edge_to e \<in> set (getSuccessors g' (edge_from e))"
    using ed by (simp only: e succ)
  show ?thesis
    unfolding wf_graph_def using c1 c2 c3 c4 c5 c6 c7 c8 by blast
qed

lemma wf_graph_addNode:
  assumes wf: "wf_graph g"
  shows "wf_graph (snd (addNode g i md))"
proof (cases "has (nodes g) i")
  case True
  with wf show ?thesis by (simp add: addNode_def)
next
  case False
  then have inew: "i \<notin> set (map fst (nodes g))"
    by (simp add: has_def map_of_eq_None_iff)
  show ?thesis
    by (rule wf_graph_addNode_fields [OF wf inew, where nd = "\<lparr>node_id = i, node_metadata = md\<rparr>"])
      (simp_all add: addNode_def Let_def False)
qed

lemma addEdge_fields:
  assumes "has (nodes g) a" and "has (nodes g) b"
    and "allowSelfLoops (options g) \<or> a \<noteq> b"
    and "allowMultiEdges (options g) \<or> \<not> has (edgeIndex g) (getEdgeKey a b)"
  shows "\<exists>eid. nodes (snd (addEdge g a b md)) = nodes g
    \<and> adjacencyList (snd (addEdge g a b md)) =
        (case map_of (adjacencyList g) a of None \<Rightarrow> adjacencyList g
         | Some s \<Rightarrow> AList.update a (set_add s b) (adjacencyList g))
    \<and> reverseAdjacencyList (snd (addEdge g a b md)) =
        (case map_of (reverseAdjacencyList g) b of None \<Rightarrow> reverseAdjacencyList g
         | Some s \<Rightarrow> AList.update b (set_add s a) (reverseAdjacencyList g))
    \<and> edgeIndex (snd (addEdge g a b md)) =
        AList.update (getEdgeKey a b)
          (set_add (case map_of (edgeIndex g) (getEdgeKey a b) of None \<Rightarrow> [] | Some bk \<Rightarrow> bk) eid)
          (edgeIndex g)
    \<and> edges (snd (addEdge g a b md)) =
        AList.update eid \<lparr>edge_id = eid, edge_from = a, edge_to = b, edge_metadata = md\<rparr> (edges g)"
proof -
  define edgeId where "edgeId = (if allowMultiEdges (options g)
      then getEdgeKey a b @ ''#'' @ show_nat (nextEdgeId g) else getEdgeKey a b)"
  define g1 where "g1 = (if allowMultiEdges (options g) then g\<lparr>nextEdgeId := nextEdgeId g + 1\<rparr> else g)"
  define g2 where "g2 = g1\<lparr>edges := AList.update edgeId
      \<lparr>edge_id = edgeId, edge_from = a, edge_to = b, edge_metadata = md\<rparr> (edges g1)\<rparr>"
  define g3 where "g3 = g2\<lparr>edgeIndex := AList.update (getEdgeKey a b)
      (set_add (case map_of (edgeIndex g2) (getEdgeKey a b) of None \<Rightarrow> [] | Some b \<Rightarrow> b) edgeId)
      (edgeIndex g2)\<rparr>"
  define g4 where "g4 = (case map_of (adjacencyList g3) a of
      None \<Rightarrow> g3
    | Some fromAdj \<Rightarrow> g3\<lparr>adjacencyList := AList.update a (set_add fromAdj b) (adjacencyList g3)\<rparr>)"
  define g5 where "g5 = (case map_of (reverseAdjacencyList g4) b of
      None \<Rightarrow> g4
    | Some toRev \<Rightarrow> g4\<lparr>reverseAdjacencyList := AList.update b (set_add toRev a) (reverseAdjacencyList g4)\<rparr>)"
  have unfold: "addEdge g a b md =
      (if validateOnConstruction (options g)
       then (case validateEdgeInvariants g5 a b of
               Some e \<Rightarrow> (Inl e, g5) | None \<Rightarrow> (Inr edgeId, g5))
       else (Inr edgeId, g5))"
  proof -
    have c3: "(\<not> allowSelfLoops (options g) \<and> a = b) = False" using assms(3) by auto
    have c4: "(\<not> allowMultiEdges (options g) \<and> has (edgeIndex g) (getEdgeKey a b)) = False"
      using assms(4) by auto
    show ?thesis
      unfolding addEdge_def Let_def g5_def g4_def g3_def g2_def g1_def edgeId_def
      by (simp only: assms(1,2) c3 c4 if_False if_True simp_thms)
  qed
  have s5: "snd (addEdge g a b md) = g5"
    unfolding unfold by (simp split: option.split)
  have f1: "nodes g1 = nodes g" "edges g1 = edges g" "edgeIndex g1 = edgeIndex g"
    "adjacencyList g1 = adjacencyList g" "reverseAdjacencyList g1 = reverseAdjacencyList g"
    by (simp_all add: g1_def)
  have f2: "nodes g2 = nodes g" "edgeIndex g2 = edgeIndex g"
    "adjacencyList g2 = adjacencyList g" "reverseAdjacencyList g2 = reverseAdjacencyList g"
    "edges g2 = AList.update edgeId
      \<lparr>edge_id = edgeId, edge_from = a, edge_to = b, edge_metadata = md\<rparr> (edges g)"
    by (simp_all add: g2_def f1)
  have f3: "nodes g3 = nodes g" "edges g3 = edges g2"
    "adjacencyList g3 = adjacencyList g" "reverseAdjacencyList g3 = reverseAdjacencyList g"
    "edgeIndex g3 = AList.update (getEdgeKey a b)
      (set_add (case map_of (edgeIndex g) (getEdgeKey a b) of None \<Rightarrow> [] | Some b \<Rightarrow> b) edgeId)
      (edgeIndex g)"
    by (simp_all add: g3_def f2)
  have f4: "nodes g4 = nodes g" "edges g4 = edges g2" "edgeIndex g4 = edgeIndex g3"
    "reverseAdjacencyList g4 = reverseAdjacencyList g"
    "adjacencyList g4 = (case map_of (adjacencyList g) a of None \<Rightarrow> adjacencyList g
         | Some s \<Rightarrow> AList.update a (set_add s b) (adjacencyList g))"
    by (simp_all add: g4_def f3 split: option.split)
  have f5: "nodes g5 = nodes g" "edges g5 = edges g2" "edgeIndex g5 = edgeIndex g3"
    "adjacencyList g5 = adjacencyList g4"
    "reverseAdjacencyList g5 = (case map_of (reverseAdjacencyList g) b of None \<Rightarrow> reverseAdjacencyList g
         | Some s \<Rightarrow> AList.update b (set_add s a) (reverseAdjacencyList g))"
    by (simp_all add: g5_def f4 split: option.split)
  show ?thesis
    unfolding s5 by (rule exI [of _ edgeId]) (simp only: f5 f4 f3 f2 simp_thms)
qed

lemma set_set_add: "set (set_add s x) = insert x (set s)"
  by (auto simp: set_add_def)

lemma distinct_set_add: "distinct s \<Longrightarrow> distinct (set_add s x)"
  by (simp add: set_add_def)

lemma set_add_nonempty: "set_add s x \<noteq> []"
  by (auto simp: set_add_def)

lemma set_update_subset: "set (AList.update k v al) \<subseteq> insert (k, v) (set al)"
  by (induction al) auto

lemma has_keys: "has m k \<longleftrightarrow> k \<in> set (map fst m)"
  by (simp add: has_def map_of_eq_None_iff)

lemma wf_graph_addEdge_fields:
  assumes wf: "wf_graph g" and ha: "has (nodes g) a" and hb: "has (nodes g) b"
    and n: "nodes g' = nodes g"
    and aj: "adjacencyList g' =
        (case map_of (adjacencyList g) a of None \<Rightarrow> adjacencyList g
         | Some s \<Rightarrow> AList.update a (set_add s b) (adjacencyList g))"
    and rj: "reverseAdjacencyList g' =
        (case map_of (reverseAdjacencyList g) b of None \<Rightarrow> reverseAdjacencyList g
         | Some s \<Rightarrow> AList.update b (set_add s a) (reverseAdjacencyList g))"
    and ej: "edgeIndex g' = AList.update (getEdgeKey a b) (set_add bk eid) (edgeIndex g)"
    and dj: "edges g' = AList.update eid \<lparr>edge_id = eid, edge_from = a, edge_to = b, edge_metadata = md\<rparr> (edges g)"
  shows "wf_graph g'"
proof -
  from wf have d: "distinct (map fst (nodes g))"
    and ka: "map fst (adjacencyList g) = map fst (nodes g)"
    and kr: "map fst (reverseAdjacencyList g) = map fst (nodes g)"
    and adj: "\<forall>u s. map_of (adjacencyList g) u = Some s \<longrightarrow> distinct s \<and> set s \<subseteq> fst ` set (nodes g)"
    and rev: "\<forall>v s. map_of (reverseAdjacencyList g) v = Some s \<longrightarrow>
         distinct s \<and> set s = {u. v \<in> set (getSuccessors g u)}"
    and ei1: "\<forall>k b. map_of (edgeIndex g) k = Some b \<longrightarrow>
         b \<noteq> [] \<and> (\<exists>u v. k = getEdgeKey u v \<and> v \<in> set (getSuccessors g u))"
    and ei2: "\<forall>u v. v \<in> set (getSuccessors g u) \<longrightarrow> map_of (edgeIndex g) (getEdgeKey u v) \<noteq> None"
    and ed: "\<forall>e \<in> snd ` set (edges g). edge_to e \<in> set (getSuccessors g (edge_from e))"
    by (simp_all add: wf_graph_def)
  from ha have ain: "a \<in> set (map fst (nodes g))" by (simp add: has_keys)
  from hb have bin: "b \<in> set (map fst (nodes g))" by (simp add: has_keys)
  from ain ka have "a \<in> set (map fst (adjacencyList g))" by simp
  then obtain sa where sa: "map_of (adjacencyList g) a = Some sa"
    by (cases "map_of (adjacencyList g) a") (simp_all add: map_of_eq_None_iff)
  from bin kr have "b \<in> set (map fst (reverseAdjacencyList g))" by simp
  then obtain rb where rb: "map_of (reverseAdjacencyList g) b = Some rb"
    by (cases "map_of (reverseAdjacencyList g) b") (simp_all add: map_of_eq_None_iff)
  have aj': "adjacencyList g' = AList.update a (set_add sa b) (adjacencyList g)"
    by (simp add: aj sa)
  have rj': "reverseAdjacencyList g' = AList.update b (set_add rb a) (reverseAdjacencyList g)"
    by (simp add: rj rb)
  have succ: "set (getSuccessors g' u) = (if u = a then insert b (set (getSuccessors g u)) else set (getSuccessors g u))" for u
    by (auto simp: getSuccessors_def aj' update_conv' sa set_set_add)
  have grow: "v \<in> set (getSuccessors g u) \<Longrightarrow> v \<in> set (getSuccessors g' u)" for u v
    by (auto simp: succ)
  have newedge: "b \<in> set (getSuccessors g' a)" by (simp add: succ)
  have c1: "distinct (map fst (nodes g'))" using d by (simp add: n)
  have c2: "map fst (adjacencyList g') = map fst (nodes g')"
    using ka ain by (simp add: n aj' update_keys)
  have c3: "map fst (reverseAdjacencyList g') = map fst (nodes g')"
    using kr bin by (simp add: n rj' update_keys)
  have c4: "\<forall>u s. map_of (adjacencyList g') u = Some s \<longrightarrow> distinct s \<and> set s \<subseteq> fst ` set (nodes g')"
  proof (intro allI impI)
    fix u s assume "map_of (adjacencyList g') u = Some s"
    then have "(u = a \<and> s = set_add sa b) \<or> (u \<noteq> a \<and> map_of (adjacencyList g) u = Some s)"
      unfolding aj' by (rule map_of_update_cases)
    then show "distinct s \<and> set s \<subseteq> fst ` set (nodes g')"
    proof
      assume us: "u = a \<and> s = set_add sa b"
      from adj sa have "distinct sa \<and> set sa \<subseteq> fst ` set (nodes g)" by blast
      with us bin show ?thesis by (simp add: n distinct_set_add set_set_add)
    next
      assume "u \<noteq> a \<and> map_of (adjacencyList g) u = Some s"
      with adj have "distinct s \<and> set s \<subseteq> fst ` set (nodes g)" by blast
      then show ?thesis by (simp add: n)
    qed
  qed
  have c5: "\<forall>v s. map_of (reverseAdjacencyList g') v = Some s \<longrightarrow>
         distinct s \<and> set s = {u. v \<in> set (getSuccessors g' u)}"
  proof (intro allI impI)
    fix v s assume "map_of (reverseAdjacencyList g') v = Some s"
    then have "(v = b \<and> s = set_add rb a) \<or> (v \<noteq> b \<and> map_of (reverseAdjacencyList g) v = Some s)"
      unfolding rj' by (rule map_of_update_cases)
    then show "distinct s \<and> set s = {u. v \<in> set (getSuccessors g' u)}"
    proof
      assume vs: "v = b \<and> s = set_add rb a"
      from rev rb have r: "distinct rb" "set rb = {u. b \<in> set (getSuccessors g u)}" by blast+
      have "set s = insert a (set rb)" using vs by (simp add: set_set_add)
      also have "\<dots> = {u. b \<in> set (getSuccessors g' u)}"
        unfolding r(2) by (auto simp: succ)
      finally show ?thesis using vs r(1) by (simp add: distinct_set_add)
    next
      assume vs: "v \<noteq> b \<and> map_of (reverseAdjacencyList g) v = Some s"
      with rev have r: "distinct s" "set s = {u. v \<in> set (getSuccessors g u)}" by blast+
      have "{u. v \<in> set (getSuccessors g u)} = {u. v \<in> set (getSuccessors g' u)}"
        using vs by (auto simp: succ)
      with r show ?thesis by simp
    qed
  qed
  have c6: "\<forall>k bb. map_of (edgeIndex g') k = Some bb \<longrightarrow>
         bb \<noteq> [] \<and> (\<exists>u v. k = getEdgeKey u v \<and> v \<in> set (getSuccessors g' u))"
  proof (intro allI impI)
    fix k bb assume "map_of (edgeIndex g') k = Some bb"
    then have "(k = getEdgeKey a b \<and> bb = set_add bk eid) \<or> (k \<noteq> getEdgeKey a b \<and> map_of (edgeIndex g) k = Some bb)"
      unfolding ej by (rule map_of_update_cases)
    then show "bb \<noteq> [] \<and> (\<exists>u v. k = getEdgeKey u v \<and> v \<in> set (getSuccessors g' u))"
    proof
      assume "k = getEdgeKey a b \<and> bb = set_add bk eid"
      with newedge show ?thesis by (auto simp: set_add_nonempty)
    next
      assume "k \<noteq> getEdgeKey a b \<and> map_of (edgeIndex g) k = Some bb"
      with ei1 have "bb \<noteq> [] \<and> (\<exists>u v. k = getEdgeKey u v \<and> v \<in> set (getSuccessors g u))" by blast
      with grow show ?thesis by blast
    qed
  qed
  have c7: "\<forall>u v. v \<in> set (getSuccessors g' u) \<longrightarrow> map_of (edgeIndex g') (getEdgeKey u v) \<noteq> None"
  proof (intro allI impI)
    fix u v assume uv: "v \<in> set (getSuccessors g' u)"
    show "map_of (edgeIndex g') (getEdgeKey u v) \<noteq> None"
    proof (cases "getEdgeKey u v = getEdgeKey a b")
      case True
      then show ?thesis by (simp add: ej update_conv')
    next
      case False
      then have "\<not> (u = a \<and> v = b)" by auto
      with uv have "v \<in> set (getSuccessors g u)" by (auto simp: succ split: if_splits)
      with ei2 have "map_of (edgeIndex g) (getEdgeKey u v) \<noteq> None" by blast
      with False show ?thesis by (simp add: ej update_conv')
    qed
  qed
  have c8: "\<forall>e \<in> snd ` set (edges g'). edge_to e \<in> set (getSuccessors g' (edge_from e))"
  proof
    fix e assume "e \<in> snd ` set (edges g')"
    then obtain k where "(k, e) \<in> set (edges g')" by auto
    with set_update_subset [of eid _ "edges g"]
    have "(k, e) = (eid, \<lparr>edge_id = eid, edge_from = a, edge_to = b, edge_metadata = md\<rparr>) \<or> (k, e) \<in> set (edges g)"
      unfolding dj by blast
    then show "edge_to e \<in> set (getSuccessors g' (edge_from e))"
    proof
      assume "(k, e) = (eid, \<lparr>edge_id = eid, edge_from = a, edge_to = b, edge_metadata = md\<rparr>)"
      with newedge show ?thesis by simp
    next
      assume "(k, e) \<in> set (edges g)"
      then have "e \<in> snd ` set (edges g)" by force
      with ed have "edge_to e \<in> set (getSuccessors g (edge_from e))" by blast
      then show ?thesis by (rule grow)
    qed
  qed
  show ?thesis
    unfolding wf_graph_def using c1 c2 c3 c4 c5 c6 c7 c8 by blast
qed

lemma wf_graph_addEdge:
  assumes wf: "wf_graph g"
  shows "wf_graph (snd (addEdge g a b md))"
proof (cases "has (nodes g) a \<and> has (nodes g) b
      \<and> (allowSelfLoops (options g) \<or> a \<noteq> b)
      \<and> (allowMultiEdges (options g) \<or> \<not> has (edgeIndex g) (getEdgeKey a b))")
  case False
  from addEdge_rejects [OF False, of md] wf show ?thesis by simp
next
  case True
  then have ha: "has (nodes g) a" and hb: "has (nodes g) b"
    and c3: "allowSelfLoops (options g) \<or> a \<noteq> b"
    and c4: "allowMultiEdges (options g) \<or> \<not> has (edgeIndex g) (getEdgeKey a b)" by simp_all
  from addEdge_fields [OF ha hb c3 c4, of md] obtain eid where
    f: "nodes (snd (addEdge g a b md)) = nodes g"
    "adjacencyList (snd (addEdge g a b md)) =
        (case map_of (adjacencyList g) a of None \<Rightarrow> adjacencyList g
         | Some s \<Rightarrow> AList.update a (set_add s b) (adjacencyList g))"
    "reverseAdjacencyList (snd (addEdge g a b md)) =
        (case map_of (reverseAdjacencyList g) b of None \<Rightarrow> reverseAdjacencyList g
         | Some s \<Rightarrow> AList.update b (set_add s a) (reverseAdjacencyList g))"
    "edgeIndex (snd (addEdge g a b md)) =
        AList.update (getEdgeKey a b)
          (set_add (case map_of (edgeIndex g) (getEdgeKey a b) of None \<Rightarrow> [] | Some bk \<Rightarrow> bk) eid)
          (edgeIndex g)"
    "edges (snd (addEdge g a b md)) =
        AList.update eid \<lparr>edge_id = eid, edge_from = a, edge_to = b, edge_metadata = md\<rparr> (edges g)"
    by blast
  show ?thesis by (rule wf_graph_addEdge_fields [OF wf ha hb f])
qed

lemma built_wf_graph: "built g \<Longrightarrow> wf_graph g"
proof (induction rule: built.induct)
  case (built_new sl me vc)
  show ?case by (rule wf_graph_new)
next
  case (built_addNode g i md)
  then show ?case by (simp add: wf_graph_addNode)
next
  case (built_addEdge g a b emd)
  then show ?case by (simp add: wf_graph_addEdge)
next
  case (built_clear g)
  show ?case by (rule wf_graph_clear)
qed

section \<open>Kahn's algorithm sorts exactly the acyclic graphs\<close>

lemma kahn_for_closed:
  "distinct vs \<Longrightarrow>
     map_of (fst (kahn_for vs inD q)) = (\<lambda>v. if v \<in> set vs then Some (degree_of inD v - 1) else map_of inD v)
     \<and> snd (kahn_for vs inD q) = q @ filter (\<lambda>v. degree_of inD v = 1) vs"
proof (induction vs arbitrary: inD q)
  case Nil
  show ?case by simp
next
  case (Cons v vs)
  let ?nd = "degree_of inD v - 1"
  let ?inD = "AList.update v ?nd inD"
  let ?q = "if ?nd = 0 then q @ [v] else q"
  from Cons.prems have dv: "distinct vs" and vn: "v \<notin> set vs" by simp_all
  have step: "kahn_for (v # vs) inD q = kahn_for vs ?inD ?q"
    by (simp add: Let_def degree_of_def)
  have deg': "degree_of ?inD w = degree_of inD w" if "w \<noteq> v" for w
    using that by (simp add: degree_of_def update_conv')
  have filt: "filter (\<lambda>w. degree_of ?inD w = 1) vs = filter (\<lambda>w. degree_of inD w = 1) vs"
  proof (rule filter_cong [OF refl])
    fix w assume "w \<in> set vs"
    with vn have "w \<noteq> v" by auto
    from deg' [OF this] show "(degree_of ?inD w = 1) = (degree_of inD w = 1)" by simp
  qed
  from Cons.IH [OF dv, of ?inD ?q]
  have m: "map_of (fst (kahn_for vs ?inD ?q)) =
      (\<lambda>w. if w \<in> set vs then Some (degree_of ?inD w - 1) else map_of ?inD w)"
    and s: "snd (kahn_for vs ?inD ?q) = ?q @ filter (\<lambda>w. degree_of ?inD w = 1) vs"
    by simp_all
  have "map_of (fst (kahn_for (v # vs) inD q)) =
      (\<lambda>w. if w \<in> set (v # vs) then Some (degree_of inD w - 1) else map_of inD w)"
  proof
    fix w
    show "map_of (fst (kahn_for (v # vs) inD q)) w =
      (if w \<in> set (v # vs) then Some (degree_of inD w - 1) else map_of inD w)"
    proof (cases "w = v")
      case True
      with vn show ?thesis by (simp only: step m) (simp add: update_conv')
    next
      case False
      with deg' [OF False] show ?thesis by (simp only: step m) (simp add: update_conv')
    qed
  qed
  moreover have "snd (kahn_for (v # vs) inD q) = q @ filter (\<lambda>w. degree_of inD w = 1) (v # vs)"
    by (simp only: step s filt) simp
  ultimately show ?case by simp
qed

lemma kahn_inv_step:
  assumes inv: "kahn_inv sc V inD q head" and h: "head < length q"
  shows "kahn_inv sc V (fst (kahn_for (sc (q ! head)) inD q)) (snd (kahn_for (sc (q ! head)) inD q)) (Suc head)"
proof -
  let ?u = "q ! head"
  let ?vs = "sc ?u"
  let ?new = "filter (\<lambda>v. degree_of inD v = 1) ?vs"
  let ?q = "q @ ?new"
  let ?inD = "fst (kahn_for ?vs inD q)"
  let ?U = "unprocessed sc V q head"
  let ?U' = "unprocessed sc V ?q (Suc head)"
  from inv have fin: "finite V" and scV: "\<forall>u \<in> V. distinct (sc u) \<and> set (sc u) \<subseteq> V"
    and dq: "distinct q" and qV: "set q \<subseteq> V"
    and i3: "\<forall>v \<in> V. map_of inD v = Some (int (card (?U v)))"
    and i4: "\<forall>v \<in> V. (v \<in> set q) = (?U v = {})"
    and i5: "\<forall>j < length q. \<forall>u \<in> V. q ! j \<in> set (sc u) \<longrightarrow> (\<exists>i < j. q ! i = u)"
    by (simp_all add: kahn_inv_def)
  from h qV have uV: "?u \<in> V" by auto
  with scV have dvs: "distinct ?vs" and vsV: "set ?vs \<subseteq> V" by blast+
  from kahn_for_closed [OF dvs, of inD q]
  have m: "map_of ?inD = (\<lambda>v. if v \<in> set ?vs then Some (degree_of inD v - 1) else map_of inD v)"
    and s: "snd (kahn_for ?vs inD q) = ?q" by simp_all
  have tk: "take (Suc head) ?q = take head q @ [?u]"
    using h by (simp add: take_Suc_conv_app_nth)
  have unotin: "?u \<notin> set (take head q)"
  proof
    assume "?u \<in> set (take head q)"
    then obtain i where "i < head" "take head q ! i = ?u"
      by (auto simp: in_set_conv_nth)
    with h have "i < length q" "i \<noteq> head" "q ! i = q ! head" by simp_all
    with dq h show False by (simp add: nth_eq_iff_index_eq)
  qed
  have finU: "finite (?U v)" for v
    using fin by (simp add: unprocessed_def)
  have U': "?U' v = ?U v - {?u}" for v
    unfolding unprocessed_def tk by auto
  have uU: "(?u \<in> ?U v) = (v \<in> set ?vs)" for v
    using uV unotin by (simp add: unprocessed_def)
  have deg: "degree_of inD v = int (card (?U v))" if "v \<in> V" for v
    using i3 that by (simp add: degree_of_def)
  have new1: "card (?U v) = 1 \<and> v \<in> set ?vs \<and> v \<in> V" if "v \<in> set ?new" for v
  proof -
    from that have v: "v \<in> set ?vs" and d: "degree_of inD v = 1" by simp_all
    from v vsV have "v \<in> V" by auto
    with deg [OF this] d v show ?thesis by simp
  qed
  have newU: "?U v = {?u}" if "v \<in> set ?new" for v
  proof -
    from new1 [OF that] have c: "card (?U v) = 1" and v: "v \<in> set ?vs" by simp_all
    from v have "?u \<in> ?U v" by (simp only: uU)
    with c show ?thesis by (auto simp: card_1_singleton_iff)
  qed
  have c_i2a: "distinct ?q"
  proof -
    have "set q \<inter> set ?new = {}"
    proof (rule ccontr)
      assume "set q \<inter> set ?new \<noteq> {}"
      then obtain v where vq: "v \<in> set q" and vn: "v \<in> set ?new" by auto
      from newU [OF vn] have "?U v \<noteq> {}" by simp
      moreover from vq qV have "v \<in> V" by auto
      ultimately show False using i4 vq by blast
    qed
    with dq dvs show ?thesis by simp
  qed
  have c_i2b: "set ?q \<subseteq> V" using qV vsV by auto
  have c_i2c: "Suc head \<le> length ?q" using h by simp
  have c_i3: "\<forall>v \<in> V. map_of ?inD v = Some (int (card (?U' v)))"
  proof
    fix v assume vV: "v \<in> V"
    show "map_of ?inD v = Some (int (card (?U' v)))"
    proof (cases "v \<in> set ?vs")
      case True
      then have uin: "?u \<in> ?U v" by (simp only: uU)
      with finU [of v] have "card (?U v - {?u}) = card (?U v) - 1" "0 < card (?U v)"
        by (auto simp: card_gt_0_iff)
      then have "int (card (?U' v)) = int (card (?U v)) - 1" by (simp add: U')
      with True deg [OF vV] show ?thesis by (simp add: m)
    next
      case False
      then have "?u \<notin> ?U v" by (simp only: uU) simp
      then have "?U' v = ?U v" by (simp add: U')
      with False i3 vV show ?thesis by (simp add: m)
    qed
  qed
  have c_i4: "\<forall>v \<in> V. (v \<in> set ?q) = (?U' v = {})"
  proof
    fix v assume vV: "v \<in> V"
    show "(v \<in> set ?q) = (?U' v = {})"
    proof
      assume "v \<in> set ?q"
      then have "v \<in> set q \<or> v \<in> set ?new" by auto
      then show "?U' v = {}"
      proof
        assume "v \<in> set q"
        with i4 vV have "?U v = {}" by blast
        then show ?thesis by (simp add: U')
      next
        assume "v \<in> set ?new"
        from newU [OF this] show ?thesis by (simp add: U')
      qed
    next
      assume e: "?U' v = {}"
      show "v \<in> set ?q"
      proof (cases "?U v = {}")
        case True
        with i4 vV show ?thesis by simp
      next
        case False
        with e have eq: "?U v = {?u}" by (auto simp: U')
        then have "?u \<in> ?U v" by simp
        then have "v \<in> set ?vs" by (simp only: uU)
        moreover from eq deg [OF vV] have "degree_of inD v = 1" by simp
        ultimately show ?thesis by simp
      qed
    qed
  qed
  have c_i5: "\<forall>j < length ?q. \<forall>u \<in> V. ?q ! j \<in> set (sc u) \<longrightarrow> (\<exists>i < j. ?q ! i = u)"
  proof (intro allI impI ballI)
    fix j u assume j: "j < length ?q" and uV': "u \<in> V" and e: "?q ! j \<in> set (sc u)"
    show "\<exists>i < j. ?q ! i = u"
    proof (cases "j < length q")
      case True
      with e have "q ! j \<in> set (sc u)" by (simp add: nth_append)
      with i5 True uV' obtain i where "i < j" "q ! i = u" by blast
      with True show ?thesis by (intro exI [of _ i]) (simp add: nth_append)
    next
      case False
      with j have "j - length q < length ?new" by simp
      then have "?new ! (j - length q) \<in> set ?new" by (rule nth_mem)
      with False have "?q ! j \<in> set ?new" by (simp only: nth_append if_False)
      from newU [OF this] have "?U' (?q ! j) = {}" by (simp add: U')
      with uV' e have "u \<in> set (take (Suc head) ?q)"
        by (auto simp: unprocessed_def)
      then have "u \<in> set (take (Suc head) q)" using h by simp
      then obtain i where i: "i < Suc head" "i < length q" "q ! i = u"
        by (auto simp: in_set_conv_nth)
      with False show ?thesis by (intro exI [of _ i]) (simp add: nth_append)
    qed
  qed
  show ?thesis
    unfolding s kahn_inv_def
    using fin scV c_i2a c_i2b c_i2c c_i3 c_i4 c_i5 by blast
qed

lemma index_takeWhile:
  assumes "distinct q" and "j < length q"
  shows "length (takeWhile (\<lambda>y. y \<noteq> q ! j) q) = j"
proof -
  have "takeWhile (\<lambda>y. y \<noteq> q ! j) q = take j q"
  proof (rule takeWhile_eq_take_P_nth)
    fix i assume "i < j" "i < length q"
    with assms show "q ! i \<noteq> q ! j" by (simp add: nth_eq_iff_index_eq)
  next
    show "\<not> q ! j \<noteq> q ! j" by simp
  qed
  with assms(2) show ?thesis by simp
qed

lemma list_order_acyclic:
  assumes d: "distinct q"
    and ord: "\<And>a b. (a, b) \<in> r \<Longrightarrow> \<exists>i j. i < j \<and> j < length q \<and> q ! i = a \<and> q ! j = b"
  shows "acyclic r"
proof -
  have "acyclic (r\<inverse>)"
  proof (rule acyclicI_order [where f = "\<lambda>x. length (takeWhile (\<lambda>y. y \<noteq> x) q)"])
    fix a b assume "(a, b) \<in> r\<inverse>"
    then have "(b, a) \<in> r" by simp
    from ord [OF this] obtain i j where ij: "i < j" "j < length q" "q ! i = b" "q ! j = a" by blast
    from ij have "i < length q" by simp
    from index_takeWhile [OF d this] index_takeWhile [OF d ij(2)] ij
    show "length (takeWhile (\<lambda>y. y \<noteq> b) q) < length (takeWhile (\<lambda>y. y \<noteq> a) q)" by simp
  qed
  then show ?thesis by simp
qed

lemma kahn_final_order:
  assumes inv: "kahn_inv sc V inD q (length q)" and u: "u \<in> V" and v: "v \<in> set q"
    and e: "v \<in> set (sc u)"
  shows "\<exists>i j. i < j \<and> j < length q \<and> q ! i = u \<and> q ! j = v"
proof -
  from v obtain j where j: "j < length q" "q ! j = v" by (auto simp: in_set_conv_nth)
  from inv have "\<forall>j < length q. \<forall>u \<in> V. q ! j \<in> set (sc u) \<longrightarrow> (\<exists>i < j. q ! i = u)"
    by (simp add: kahn_inv_def)
  with j u e obtain i where "i < j" "q ! i = u" by blast
  with j show ?thesis by blast
qed

lemma kahn_final_complete:
  assumes inv: "kahn_inv sc V inD q (length q)"
    and ac: "acyclic {(u, v). u \<in> V \<and> v \<in> set (sc u)}"
  shows "set q = V"
proof (rule ccontr)
  let ?R = "{(u, v). u \<in> V \<and> v \<in> set (sc u)}"
  assume ne: "set q \<noteq> V"
  from inv have fin: "finite V" and scV: "\<forall>u \<in> V. distinct (sc u) \<and> set (sc u) \<subseteq> V"
    and qV: "set q \<subseteq> V"
    and i4: "\<forall>v \<in> V. (v \<in> set q) = (unprocessed sc V q (length q) v = {})"
    by (simp_all add: kahn_inv_def)
  have "?R \<subseteq> V \<times> V" using scV by auto
  with fin have finR: "finite ?R" by (meson finite_SigmaI finite_subset)
  have "wf ?R" by (rule finite_acyclic_wf [OF finR ac])
  moreover from ne qV obtain x where "x \<in> V - set q" by auto
  ultimately obtain z where z: "z \<in> V - set q" and min: "\<And>y. (y, z) \<in> ?R \<Longrightarrow> y \<notin> V - set q"
    by (rule wfE_min) blast
  from z i4 have "unprocessed sc V q (length q) z \<noteq> {}" by blast
  then obtain u where "u \<in> V" "z \<in> set (sc u)" "u \<notin> set q"
    by (auto simp: unprocessed_def)
  with min [of u] show False by simp
qed

lemma zero_degree_set:
  assumes "distinct (map fst inD)"
  shows "set (zero_degree inD) = {k. map_of inD k = Some 0}" and "distinct (zero_degree inD)"
proof -
  show "set (zero_degree inD) = {k. map_of inD k = Some 0}"
  proof (rule set_eqI)
    fix k
    have "k \<in> set (zero_degree inD) \<longleftrightarrow> (k, 0) \<in> set inD"
      by (force simp: zero_degree_def)
    also have "\<dots> \<longleftrightarrow> map_of inD k = Some 0"
      using assms by simp
    finally show "k \<in> set (zero_degree inD) \<longleftrightarrow> k \<in> {k. map_of inD k = Some 0}" by simp
  qed
  show "distinct (zero_degree inD)"
    unfolding zero_degree_def using assms by (rule distinct_map_filter)
qed

lemma kahn_inv_init:
  assumes fin: "finite V" and scV: "\<forall>u \<in> V. distinct (sc u) \<and> set (sc u) \<subseteq> V"
    and keys: "distinct (map fst inD)" "set (map fst inD) = V"
    and deg: "\<forall>v \<in> V. map_of inD v = Some (int (card {u \<in> V. v \<in> set (sc u)}))"
  shows "kahn_inv sc V inD (zero_degree inD) 0"
proof -
  let ?q = "zero_degree inD"
  have U: "unprocessed sc V ?q 0 v = {u \<in> V. v \<in> set (sc u)}" for v
    by (simp add: unprocessed_def)
  have finU: "finite {u \<in> V. v \<in> set (sc u)}" for v using fin by simp
  note zs = zero_degree_set [OF keys(1)]
  have qV: "set ?q \<subseteq> V"
  proof
    fix k assume "k \<in> set ?q"
    then have "map_of inD k = Some 0" by (simp add: zs(1))
    then have "k \<in> set (map fst inD)" by (metis map_of_eq_None_iff option.distinct(1) set_map)
    with keys(2) show "k \<in> V" by simp
  qed
  have i4: "\<forall>v \<in> V. (v \<in> set ?q) = (unprocessed sc V ?q 0 v = {})"
  proof
    fix v assume v: "v \<in> V"
    with deg have "map_of inD v = Some (int (card {u \<in> V. v \<in> set (sc u)}))" by blast
    then have "(v \<in> set ?q) = (card {u \<in> V. v \<in> set (sc u)} = 0)"
      by (simp add: zs(1))
    also have "\<dots> = ({u \<in> V. v \<in> set (sc u)} = {})"
      using finU [of v] by simp
    finally show "(v \<in> set ?q) = (unprocessed sc V ?q 0 v = {})" by (simp only: U)
  qed
  have i5: "\<forall>j < length ?q. \<forall>u \<in> V. ?q ! j \<in> set (sc u) \<longrightarrow> (\<exists>i < j. ?q ! i = u)"
  proof (intro allI impI ballI)
    fix j u assume j: "j < length ?q" and u: "u \<in> V" and e: "?q ! j \<in> set (sc u)"
    from j have m: "?q ! j \<in> set ?q" by (rule nth_mem)
    with qV have "?q ! j \<in> V" by auto
    with i4 m have "unprocessed sc V ?q 0 (?q ! j) = {}" by blast
    with u e show "\<exists>i < j. ?q ! i = u" by (auto simp: U)
  qed
  have i3: "\<forall>v \<in> V. map_of inD v = Some (int (card (unprocessed sc V ?q 0 v)))"
    using deg by (simp only: U)
  show ?thesis
    unfolding kahn_inv_def using fin scV zs(2) qV i3 i4 i5 by simp
qed

lemma kahn_for_queue_grows:
  "\<exists>ys. snd (kahn_for vs inD q) = q @ ys"
proof (induction vs arbitrary: inD q)
  case Nil
  show ?case by simp
next
  case (Cons v vs)
  let ?nd = "(case map_of inD v of None \<Rightarrow> 0 | Some d \<Rightarrow> d) - 1"
  from Cons.IH [of "AList.update v ?nd inD" "if ?nd = 0 then q @ [v] else q"]
  obtain ys where "snd (kahn_for vs (AList.update v ?nd inD) (if ?nd = 0 then q @ [v] else q))
      = (if ?nd = 0 then q @ [v] else q) @ ys" by blast
  then show ?case by (cases "?nd = 0") (simp_all add: Let_def)
qed

lemma topo_while_run:
  assumes "kahn_inv (getSuccessors g) V inD q head"
  shows "\<exists>inD' q' ys. kahn_inv (getSuccessors g) V inD' q' (length q') \<and> q' = q @ ys
           \<and> topo_while g inD q head res = res @ drop head q'"
  using assms
proof (induction g inD q head res rule: topo_while.induct)
  case (1 g inDegree queue head result)
  show ?case
  proof (cases "head < length queue")
    case False
    with "1.prems" have hl: "head = length queue" by (simp add: kahn_inv_def)
    from False have "topo_while g inDegree queue head result = result"
      by (simp only: topo_while.simps [of g inDegree queue head result] if_False)
    with "1.prems" hl show ?thesis
      by (intro exI [of _ inDegree] exI [of _ queue] exI [of _ "[]"]) simp
  next
    case True
    let ?u = "queue ! head"
    let ?st = "kahn_for (case map_of (adjacencyList g) ?u of None \<Rightarrow> [] | Some s \<Rightarrow> s) inDegree queue"
    have st: "?st = kahn_for (getSuccessors g ?u) inDegree queue" by (simp add: getSuccessors_def)
    from kahn_inv_step [OF "1.prems" True]
    have inv': "kahn_inv (getSuccessors g) V (fst ?st) (snd ?st) (head + 1)" by (simp add: st)
    from "1.IH" [OF True refl refl inv'] obtain inD' q' ys where
      f: "kahn_inv (getSuccessors g) V inD' q' (length q')" and ext: "q' = snd ?st @ ys"
      and r: "topo_while g (fst ?st) (snd ?st) (head + 1) (result @ [?u]) = (result @ [?u]) @ drop (head + 1) q'"
      by blast
    from kahn_for_queue_grows obtain zs where zs: "snd ?st = queue @ zs" by blast
    with ext have ext': "q' = queue @ (zs @ ys)" by simp
    with True have "drop head q' = ?u # drop (head + 1) q'"
      by (simp add: Cons_nth_drop_Suc [symmetric] nth_append)
    with r have e1: "topo_while g (fst ?st) (snd ?st) (head + 1) (result @ [?u]) = result @ drop head q'"
      by simp
    have e2: "topo_while g inDegree queue head result
        = topo_while g (fst ?st) (snd ?st) (head + 1) (result @ [?u])"
      using True by (simp only: topo_while.simps [of g inDegree queue head result] if_True Let_def)
    have e3: "topo_while g inDegree queue head result = result @ drop head q'"
      by (simp only: e2 e1)
    from f ext' e3 show ?thesis
      by (intro exI [of _ inD'] exI [of _ q'] exI [of _ "zs @ ys"] conjI)
  qed
qed

lemma fold_update_keys:
  "distinct ks \<Longrightarrow> set ks \<inter> set (map fst m) = {} \<Longrightarrow>
   map fst (fold (\<lambda>k m'. AList.update k (f k) m') ks m) = map fst m @ ks"
proof (induction ks arbitrary: m)
  case Nil
  show ?case by simp
next
  case (Cons k ks)
  from Cons.prems have kn: "k \<notin> set (map fst m)" and d: "distinct ks" and kk: "k \<notin> set ks"
    and dis: "set ks \<inter> set (map fst m) = {}" by auto
  have keys: "map fst (AList.update k (f k) m) = map fst m @ [k]"
    using kn by (simp add: update_keys)
  have "set ks \<inter> set (map fst (AList.update k (f k) m)) = {}"
    unfolding keys using dis kk by auto
  from Cons.IH [OF d this] keys show ?case by simp
qed

lemma fold_update_map_of:
  "map_of (fold (\<lambda>k m'. AList.update k (f k) m') ks m) v =
     (if v \<in> set ks then Some (f v) else map_of m v)"
proof (induction ks arbitrary: m)
  case Nil
  show ?case by simp
next
  case (Cons k ks)
  show ?case by (simp add: Cons.IH update_conv')
qed

lemma wf_graph_succ:
  assumes wf: "wf_graph g"
  shows "distinct (getSuccessors g u)"
    and "set (getSuccessors g u) \<subseteq> set (map fst (nodes g))"
    and "v \<in> set (getSuccessors g u) \<Longrightarrow> u \<in> set (map fst (nodes g))"
proof -
  from wf have ka: "map fst (adjacencyList g) = map fst (nodes g)"
    and adj: "\<forall>u s. map_of (adjacencyList g) u = Some s \<longrightarrow> distinct s \<and> set s \<subseteq> fst ` set (nodes g)"
    by (simp_all add: wf_graph_def)
  show "distinct (getSuccessors g u)"
  proof (cases "map_of (adjacencyList g) u")
    case None then show ?thesis by (simp add: getSuccessors_def)
  next
    case (Some s)
    with adj have "distinct s" by blast
    with Some show ?thesis by (simp add: getSuccessors_def)
  qed
  show "set (getSuccessors g u) \<subseteq> set (map fst (nodes g))"
  proof (cases "map_of (adjacencyList g) u")
    case None then show ?thesis by (simp add: getSuccessors_def)
  next
    case (Some s)
    with adj have "set s \<subseteq> fst ` set (nodes g)" by blast
    with Some show ?thesis by (simp add: getSuccessors_def)
  qed
  show "u \<in> set (map fst (nodes g))" if "v \<in> set (getSuccessors g u)"
  proof (cases "map_of (adjacencyList g) u")
    case None with that show ?thesis by (simp add: getSuccessors_def)
  next
    case (Some s)
    then have "u \<in> set (map fst (adjacencyList g))"
      by (metis map_of_eq_None_iff option.distinct(1) set_map)
    with ka show ?thesis by simp
  qed
qed

lemma wf_graph_indegree:
  assumes wf: "wf_graph g" and v: "v \<in> set (map fst (nodes g))"
  shows "map_of (init_inDegree g) v =
    Some (int (card {u \<in> set (map fst (nodes g)). v \<in> set (getSuccessors g u)}))"
proof -
  from wf have kr: "map fst (reverseAdjacencyList g) = map fst (nodes g)"
    and rev: "\<forall>v s. map_of (reverseAdjacencyList g) v = Some s \<longrightarrow>
         distinct s \<and> set s = {u. v \<in> set (getSuccessors g u)}"
    by (simp_all add: wf_graph_def)
  from v kr have "v \<in> set (map fst (reverseAdjacencyList g))" by simp
  then obtain s where s: "map_of (reverseAdjacencyList g) v = Some s"
    by (cases "map_of (reverseAdjacencyList g) v") (simp_all add: map_of_eq_None_iff)
  with rev have ds: "distinct s" and ss: "set s = {u. v \<in> set (getSuccessors g u)}" by blast+
  have "{u. v \<in> set (getSuccessors g u)} = {u \<in> set (map fst (nodes g)). v \<in> set (getSuccessors g u)}"
    using wf_graph_succ(3) [OF wf] by blast
  with ss have "card {u \<in> set (map fst (nodes g)). v \<in> set (getSuccessors g u)} = card (set s)" by simp
  also have "\<dots> = length s" using ds by (rule distinct_card)
  finally have c: "int (card {u \<in> set (map fst (nodes g)). v \<in> set (getSuccessors g u)}) = int (length s)"
    by simp
  have "map_of (init_inDegree g) v = Some (int (length s))"
    unfolding init_inDegree_def using v s by (simp add: fold_update_map_of)
  with c show ?thesis by simp
qed

lemma succ_rel_kahn:
  assumes wf: "wf_graph g"
  shows "{(u, v). u \<in> set (map fst (nodes g)) \<and> v \<in> set (getSuccessors g u)} = succ_rel g"
  using wf_graph_succ(3) [OF wf] by (auto simp: succ_rel_def)

lemma topologicalSort_result:
  assumes wf: "wf_graph g"
  shows "\<exists>inD q. kahn_inv (getSuccessors g) (set (map fst (nodes g))) inD q (length q)
          \<and> topologicalSort g = (if length q = length (nodes g) then Some q else None)"
proof -
  let ?V = "set (map fst (nodes g))"
  from wf have d: "distinct (map fst (nodes g))" by (simp add: wf_graph_def)
  have keys: "map fst (init_inDegree g) = map fst (nodes g)"
    unfolding init_inDegree_def using fold_update_keys [OF d, of "[]"] by simp
  have init: "kahn_inv (getSuccessors g) ?V (init_inDegree g) (zero_degree (init_inDegree g)) 0"
  proof (rule kahn_inv_init)
    show "finite ?V" by simp
    show "\<forall>u \<in> ?V. distinct (getSuccessors g u) \<and> set (getSuccessors g u) \<subseteq> ?V"
      using wf_graph_succ(1,2) [OF wf] by blast
    show "distinct (map fst (init_inDegree g))" using d by (simp only: keys)
    show "set (map fst (init_inDegree g)) = ?V" by (simp only: keys)
    show "\<forall>v \<in> ?V. map_of (init_inDegree g) v =
        Some (int (card {u \<in> ?V. v \<in> set (getSuccessors g u)}))"
      using wf_graph_indegree [OF wf] by blast
  qed
  from topo_while_run [OF init, of "[]"] obtain inD q ys where
    f: "kahn_inv (getSuccessors g) ?V inD q (length q)"
    and r: "topo_while g (init_inDegree g) (zero_degree (init_inDegree g)) 0 [] = q" by auto
  have "topologicalSort g = (if length q = length (nodes g) then Some q else None)"
    by (simp add: topologicalSort_def Let_def r)
  with f show ?thesis by (intro exI [of _ inD] exI [of _ q] conjI)
qed

lemma topologicalSort_iff_acyclic:
  assumes wf: "wf_graph g"
  shows "(topologicalSort g \<noteq> None) = acyclic (succ_rel g)"
proof -
  let ?V = "set (map fst (nodes g))"
  from wf have d: "distinct (map fst (nodes g))" by (simp add: wf_graph_def)
  from topologicalSort_result [OF wf] obtain inD q where
    f: "kahn_inv (getSuccessors g) ?V inD q (length q)"
    and r: "topologicalSort g = (if length q = length (nodes g) then Some q else None)" by blast
  from f have dq: "distinct q" and qV: "set q \<subseteq> ?V" by (simp_all add: kahn_inv_def)
  have cardV: "card ?V = length (nodes g)" using distinct_card [OF d] by simp
  have cardq: "card (set q) = length q" using dq by (rule distinct_card)
  have full: "(length q = length (nodes g)) = (set q = ?V)"
  proof
    assume "length q = length (nodes g)"
    with cardV cardq have "card (set q) = card ?V" by simp
    with qV show "set q = ?V" by (intro card_subset_eq) simp_all
  next
    assume "set q = ?V"
    with cardV cardq show "length q = length (nodes g)" by simp
  qed
  have "(set q = ?V) = acyclic (succ_rel g)"
  proof
    assume all: "set q = ?V"
    show "acyclic (succ_rel g)"
    proof (rule list_order_acyclic [OF dq])
      fix a b assume "(a, b) \<in> succ_rel g"
      then have e: "b \<in> set (getSuccessors g a)" by (simp add: succ_rel_def)
      from wf_graph_succ(3) [OF wf e] have a: "a \<in> ?V" .
      from wf_graph_succ(2) [OF wf, of a] e all have b: "b \<in> set q" by auto
      from kahn_final_order [OF f a b e]
      show "\<exists>i j. i < j \<and> j < length q \<and> q ! i = a \<and> q ! j = b" .
    qed
  next
    assume "acyclic (succ_rel g)"
    then have "acyclic {(u, v). u \<in> ?V \<and> v \<in> set (getSuccessors g u)}"
      by (simp only: succ_rel_kahn [OF wf])
    from kahn_final_complete [OF f this] show "set q = ?V" .
  qed
  with full r show ?thesis by simp
qed


lemma sc_visit:
  "strongConnect g (Visit v) st =
     Option.bind (strongConnect g (Successors v (getSuccessors g v)) (enter_node v st)) (emit_scc g v)"
  by (subst strongConnect.simps) simp

lemma sc_nil: "strongConnect g (Successors v []) st = Some st"
  by (subst strongConnect.simps) simp

lemma sc_cons:
  "strongConnect g (Successors v (w # rest)) st =
     (if index st w = None
      then Option.bind (strongConnect g (Visit w) st)
             (\<lambda>st1. strongConnect g (Successors v rest) (lower_lowlink v (lowlink st1 w) st1))
      else if w \<in> onStack st
      then strongConnect g (Successors v rest) (lower_lowlink v (index st w) st)
      else strongConnect g (Successors v rest) st)"
  by (subst strongConnect.simps) simp

lemma enter_node_fields:
  "index (enter_node v st) = (index st)(v \<mapsto> currentIndex st)"
  "lowlink (enter_node v st) = (lowlink st)(v \<mapsto> currentIndex st)"
  "currentIndex (enter_node v st) = currentIndex st + 1"
  "stack (enter_node v st) = v # stack st"
  "onStack (enter_node v st) = insert v (onStack st)"
  "sccs (enter_node v st) = sccs st"
  by (simp_all add: enter_node_def)

lemma lower_lowlink_fields:
  "index (lower_lowlink v n st) = index st"
  "lowlink (lower_lowlink v n st) = (lowlink st)(v := js_min (lowlink st v) n)"
  "currentIndex (lower_lowlink v n st) = currentIndex st"
  "stack (lower_lowlink v n st) = stack st"
  "onStack (lower_lowlink v n st) = onStack st"
  "sccs (lower_lowlink v n st) = sccs st"
  by (simp_all add: lower_lowlink_def)

lemma pop_scc_segment:
  "v \<notin> set seg \<Longrightarrow>
   pop_scc v (seg @ v # old) onSt acc = Some (old, onSt - set (seg @ [v]), acc @ seg @ [v])"
proof (induction seg arbitrary: onSt acc)
  case Nil
  show ?case by simp
next
  case (Cons w seg)
  from Cons.prems have wv: "w \<noteq> v" and vs: "v \<notin> set seg" by auto
  have "onSt - {w} - set (seg @ [v]) = onSt - set ((w # seg) @ [v])" by auto
  with Cons.IH [OF vs, of "onSt - {w}" "acc @ [w]"] wv show ?case by simp
qed

lemma ix_Some: "index st x = Some n \<Longrightarrow> ix st x = n"
  by (simp add: ix_def)

lemma wf_graph_hasEdge:
  assumes wf: "wf_graph g"
  shows "hasEdge g u v = (v \<in> set (getSuccessors g u))"
proof -
  from wf have ei1: "\<forall>k b. map_of (edgeIndex g) k = Some b \<longrightarrow>
         b \<noteq> [] \<and> (\<exists>u v. k = getEdgeKey u v \<and> v \<in> set (getSuccessors g u))"
    and ei2: "\<forall>u v. v \<in> set (getSuccessors g u) \<longrightarrow> map_of (edgeIndex g) (getEdgeKey u v) \<noteq> None"
    by (simp_all add: wf_graph_def)
  show ?thesis
  proof (cases "map_of (edgeIndex g) (getEdgeKey u v)")
    case None
    with ei2 have "v \<notin> set (getSuccessors g u)" by blast
    with None show ?thesis by (simp add: hasEdge_def)
  next
    case (Some b)
    with ei1 have b: "b \<noteq> []" and "\<exists>u' v'. getEdgeKey u v = getEdgeKey u' v' \<and> v' \<in> set (getSuccessors g u')"
      by blast+
    then obtain u' v' where k: "getEdgeKey u v = getEdgeKey u' v'" and e: "v' \<in> set (getSuccessors g u')"
      by blast
    from k have "u = u' \<and> v = v'" by (rule getEdgeKey_inj)
    with e Some b show ?thesis by (simp add: hasEdge_def)
  qed
qed


lemma tarjan_inv_fields:
  assumes "tarjan_inv g st"
  shows "onStack st = set (stack st)" and "distinct (stack st)"
    and "set (stack st) \<subseteq> dom (index st)" and "dom (index st) \<subseteq> set (map fst (nodes g))"
    and "\<And>x n. index st x = Some n \<Longrightarrow> n < currentIndex st"
    and "emitted (sccs st) = dom (index st) - set (stack st)"
    and "scc_inv g (sccs st)"
  using assms by (simp_all add: tarjan_inv_def)

lemma ix_less_currentIndex:
  assumes "tarjan_inv g st" and "x \<in> dom (index st)"
  shows "ix st x < currentIndex st"
proof -
  from assms(2) obtain n where n: "index st x = Some n" by auto
  from tarjan_inv_fields(5) [OF assms(1) n] n show ?thesis by (simp add: ix_def)
qed

lemma enter_loop_inv:
  assumes pre: "visit_pre g gray st v"
  shows "loop_inv g gray (stack st) v [] (enter_node v st)"
proof -
  let ?st = "enter_node v st"
  note f = enter_node_fields [of v st]
  from pre have inv: "tarjan_inv g st" and bc: "black_closed g gray st"
    and gr: "gray \<subseteq> set (stack st)" and vV: "v \<in> set (map fst (nodes g))"
    and vn: "index st v = None"
    and ac: "acyclic (succ_rel g) \<longrightarrow> (\<forall>x \<in> set (stack st). (x, v) \<in> (succ_rel g)\<^sup>+)"
    by (simp_all add: visit_pre_def)
  note t = tarjan_inv_fields [OF inv]
  from vn t(3) have vns: "v \<notin> set (stack st)" by auto
  have dom: "dom (index ?st) = insert v (dom (index st))" by (simp add: f)
  have inv': "tarjan_inv g ?st"
    unfolding tarjan_inv_def
  proof (intro conjI)
    show "onStack ?st = set (stack ?st)" using t(1) by (simp add: f)
    show "distinct (stack ?st)" using t(2) vns by (simp add: f)
    show "set (stack ?st) \<subseteq> dom (index ?st)" using t(3) by (auto simp: f)
    show "dom (index ?st) \<subseteq> set (map fst (nodes g))" using t(4) vV unfolding dom by blast
    show "\<forall>x n. index ?st x = Some n \<longrightarrow> n < currentIndex ?st"
    proof (intro allI impI)
      fix x n assume "index ?st x = Some n"
      then have "(x = v \<and> n = currentIndex st) \<or> index st x = Some n"
        by (auto simp: f split: if_splits)
      then show "n < currentIndex ?st"
      proof
        assume "x = v \<and> n = currentIndex st" then show ?thesis by (simp add: f)
      next
        assume "index st x = Some n"
        from t(5) [OF this] show ?thesis by (simp add: f)
      qed
    qed
    show "emitted (sccs ?st) = dom (index ?st) - set (stack ?st)"
      using t(6) vn unfolding dom by (auto simp: f)
    show "scc_inv g (sccs ?st)" using t(7) by (simp add: f)
  qed
  have bc': "black_closed g (insert v gray) ?st"
    unfolding black_closed_def
  proof (intro allI impI)
    fix x assume x: "index ?st x \<noteq> None" and xg: "x \<notin> insert v gray"
    then have "index st x \<noteq> None" "x \<notin> gray" by (auto simp: f split: if_splits)
    with bc have "set (getSuccessors g x) \<subseteq> dom (index st)" unfolding black_closed_def by blast
    then show "set (getSuccessors g x) \<subseteq> dom (index ?st)" unfolding dom by blast
  qed
  have ixv: "ix ?st v = currentIndex st" by (simp add: ix_def f)
  have ixold: "ix ?st z = ix st z" if "z \<in> set (stack st)" for z
  proof -
    from that vns have "z \<noteq> v" by auto
    then show ?thesis by (simp add: ix_def f)
  qed
  have old: "\<forall>z \<in> set (stack st). ix ?st z < ix ?st v"
  proof
    fix z assume z: "z \<in> set (stack st)"
    with t(3) have "z \<in> dom (index st)" by auto
    from ix_less_currentIndex [OF inv this] ixold [OF z] ixv show "ix ?st z < ix ?st v" by simp
  qed
  have ex: "\<exists>seg l. stack ?st = seg @ v # stack st \<and> lowlink ?st v = Some l \<and>
         (\<forall>z \<in> set (stack st). ix ?st z < ix ?st v) \<and>
         (\<forall>x \<in> set seg. ix ?st v < ix ?st x) \<and>
         (l = ix ?st v \<or> (\<exists>z \<in> set (stack st). l = ix ?st z)) \<and>
         (\<forall>x \<in> set seg. \<forall>z \<in> set (getSuccessors g x). z \<in> set (stack st) \<longrightarrow> l \<le> ix ?st z) \<and>
         (\<forall>z \<in> set []. z \<in> set (stack st) \<longrightarrow> l \<le> ix ?st z) \<and>
         (acyclic (succ_rel g) \<longrightarrow>
            seg = [] \<and> l = ix ?st v \<and> (\<forall>x \<in> set (stack st). (x, v) \<in> (succ_rel g)\<^sup>+))"
    apply (rule exI [of _ "[]"])
    apply (rule exI [of _ "currentIndex st"])
    using old ac ixv by (simp add: f)
  show ?thesis
    unfolding loop_inv_def using inv' bc' gr ex by simp
qed

lemma enter_frame: "index st v = None \<Longrightarrow> frame {} st (enter_node v st)"
  by (auto simp: frame_def enter_node_fields)

lemma enter_card:
  assumes "tarjan_inv g st" and "v \<in> set (map fst (nodes g))" and "index st v = None"
  shows "card (set (map fst (nodes g)) - dom (index (enter_node v st)))
       < card (set (map fst (nodes g)) - dom (index st))"
proof -
  let ?A = "set (map fst (nodes g)) - dom (index st)"
  have e: "set (map fst (nodes g)) - dom (index (enter_node v st)) = ?A - {v}"
    by (auto simp: enter_node_fields)
  from assms have vA: "v \<in> ?A" by auto
  have "finite ?A" by simp
  from card_Diff1_less [OF this vA] show ?thesis unfolding e .
qed


lemma frame_ix: "frame ex st st' \<Longrightarrow> index st x \<noteq> None \<Longrightarrow> ix st' x = ix st x"
  by (simp add: frame_def ix_def)

lemma frame_dom: "frame ex st st' \<Longrightarrow> dom (index st) \<subseteq> dom (index st')"
  by (auto simp: frame_def)

lemma frame_refl: "frame ex st st"
  by (simp add: frame_def)

lemma frame_trans:
  assumes "frame ex st st1" and "frame ex st1 st2"
  shows "frame ex st st2"
proof -
  from assms obtain cs1 cs2 where "sccs st1 = sccs st @ cs1" "sccs st2 = sccs st1 @ cs2"
    unfolding frame_def by blast
  then have "sccs st2 = sccs st @ (cs1 @ cs2)" by simp
  then have c: "\<exists>cs. sccs st2 = sccs st @ cs" by (rule exI)
  have i: "\<forall>x. index st x \<noteq> None \<longrightarrow>
         index st2 x = index st x \<and> (x \<notin> ex \<longrightarrow> lowlink st2 x = lowlink st x)"
  proof (intro allI impI)
    fix x assume x: "index st x \<noteq> None"
    with assms(1) have a: "index st1 x = index st x" "x \<notin> ex \<longrightarrow> lowlink st1 x = lowlink st x"
      unfolding frame_def by blast+
    with x have "index st1 x \<noteq> None" by simp
    with assms(2) have b: "index st2 x = index st1 x" "x \<notin> ex \<longrightarrow> lowlink st2 x = lowlink st1 x"
      unfolding frame_def by blast+
    from a b show "index st2 x = index st x \<and> (x \<notin> ex \<longrightarrow> lowlink st2 x = lowlink st x)" by simp
  qed
  from assms have "currentIndex st \<le> currentIndex st2" unfolding frame_def by simp
  with i c show ?thesis unfolding frame_def by blast
qed

lemma frame_mono: "frame {} st st' \<Longrightarrow> frame ex st st'"
  by (simp add: frame_def)

text \<open>The parts of the loop invariant, with the segment and the lowlink value named.\<close>

lemma loop_invE:
  assumes "loop_inv g gray old v dn st"
  obtains seg l where "tarjan_inv g st" and "black_closed g (insert v gray) st"
    and "gray \<subseteq> set old" and "set dn \<subseteq> dom (index st)"
    and "stack st = seg @ v # old" and "lowlink st v = Some l"
    and "\<forall>z \<in> set old. ix st z < ix st v"
    and "\<forall>x \<in> set seg. ix st v < ix st x"
    and "l = ix st v \<or> (\<exists>z \<in> set old. l = ix st z)"
    and "\<forall>x \<in> set seg. \<forall>z \<in> set (getSuccessors g x). z \<in> set old \<longrightarrow> l \<le> ix st z"
    and "\<forall>z \<in> set dn. z \<in> set old \<longrightarrow> l \<le> ix st z"
    and "acyclic (succ_rel g) \<longrightarrow>
            seg = [] \<and> l = ix st v \<and> (\<forall>x \<in> set old. (x, v) \<in> (succ_rel g)\<^sup>+)"
  using assms unfolding loop_inv_def by blast

lemma loop_invI:
  assumes "tarjan_inv g st" and "black_closed g (insert v gray) st"
    and "gray \<subseteq> set old" and "set dn \<subseteq> dom (index st)"
    and "stack st = seg @ v # old" and "lowlink st v = Some l"
    and "\<forall>z \<in> set old. ix st z < ix st v"
    and "\<forall>x \<in> set seg. ix st v < ix st x"
    and "l = ix st v \<or> (\<exists>z \<in> set old. l = ix st z)"
    and "\<forall>x \<in> set seg. \<forall>z \<in> set (getSuccessors g x). z \<in> set old \<longrightarrow> l \<le> ix st z"
    and "\<forall>z \<in> set dn. z \<in> set old \<longrightarrow> l \<le> ix st z"
    and "acyclic (succ_rel g) \<longrightarrow>
            seg = [] \<and> l = ix st v \<and> (\<forall>x \<in> set old. (x, v) \<in> (succ_rel g)\<^sup>+)"
  shows "loop_inv g gray old v dn st"
  unfolding loop_inv_def
  apply (intro conjI assms(1-4))
  apply (rule exI [of _ seg])
  apply (rule exI [of _ l])
  apply (intro conjI assms(5-12))
  done

lemma loop_low_le:
  assumes "\<forall>z \<in> set old. ix st z < ix st v" and "l = ix st v \<or> (\<exists>z \<in> set old. l = ix st z)"
  shows "l \<le> ix st v"
  using assms by (auto simp: less_imp_le)

lemma loop_skip:
  assumes li: "loop_inv g gray old v dn st" and w: "index st w \<noteq> None" and ns: "w \<notin> onStack st"
  shows "loop_inv g gray old v (dn @ [w]) st"
proof -
  from li obtain seg l where p: "tarjan_inv g st" "black_closed g (insert v gray) st"
    "gray \<subseteq> set old" "set dn \<subseteq> dom (index st)"
    "stack st = seg @ v # old" "lowlink st v = Some l"
    "\<forall>z \<in> set old. ix st z < ix st v"
    "\<forall>x \<in> set seg. ix st v < ix st x"
    "l = ix st v \<or> (\<exists>z \<in> set old. l = ix st z)"
    "\<forall>x \<in> set seg. \<forall>z \<in> set (getSuccessors g x). z \<in> set old \<longrightarrow> l \<le> ix st z"
    "\<forall>z \<in> set dn. z \<in> set old \<longrightarrow> l \<le> ix st z"
    "acyclic (succ_rel g) \<longrightarrow>
            seg = [] \<and> l = ix st v \<and> (\<forall>x \<in> set old. (x, v) \<in> (succ_rel g)\<^sup>+)"
    by (rule loop_invE)
  from tarjan_inv_fields(1) [OF p(1)] ns p(5) have wo: "w \<notin> set old" by auto
  have d: "set (dn @ [w]) \<subseteq> dom (index st)" using p(4) w by auto
  have ii: "\<forall>z \<in> set (dn @ [w]). z \<in> set old \<longrightarrow> l \<le> ix st z"
    using p(11) wo by auto
  show ?thesis
    by (rule loop_invI [OF p(1,2,3) d p(5,6,7,8,9,10) ii p(12)])
qed

lemma lower_tarjan_inv: "tarjan_inv g st \<Longrightarrow> tarjan_inv g (lower_lowlink v n st)"
  by (simp add: tarjan_inv_def lower_lowlink_fields)

lemma lower_black_closed: "black_closed g gray st \<Longrightarrow> black_closed g gray (lower_lowlink v n st)"
  by (simp add: black_closed_def lower_lowlink_fields)

lemma lower_ix: "ix (lower_lowlink v n st) x = ix st x"
  by (simp add: ix_def lower_lowlink_fields)

lemma lower_frame: "frame {v} st (lower_lowlink v n st)"
  by (simp add: frame_def lower_lowlink_fields)

lemma loop_onstack:
  assumes li: "loop_inv g gray old v dn st" and w: "index st w = Some iw" and os: "w \<in> onStack st"
    and e: "w \<in> set (getSuccessors g v)"
  shows "loop_inv g gray old v (dn @ [w]) (lower_lowlink v (index st w) st)"
proof -
  let ?st = "lower_lowlink v (index st w) st"
  from li obtain seg l where p: "tarjan_inv g st" "black_closed g (insert v gray) st"
    "gray \<subseteq> set old" "set dn \<subseteq> dom (index st)"
    "stack st = seg @ v # old" "lowlink st v = Some l"
    "\<forall>z \<in> set old. ix st z < ix st v"
    "\<forall>x \<in> set seg. ix st v < ix st x"
    "l = ix st v \<or> (\<exists>z \<in> set old. l = ix st z)"
    "\<forall>x \<in> set seg. \<forall>z \<in> set (getSuccessors g x). z \<in> set old \<longrightarrow> l \<le> ix st z"
    "\<forall>z \<in> set dn. z \<in> set old \<longrightarrow> l \<le> ix st z"
    "acyclic (succ_rel g) \<longrightarrow>
            seg = [] \<and> l = ix st v \<and> (\<forall>x \<in> set old. (x, v) \<in> (succ_rel g)\<^sup>+)"
    by (rule loop_invE)
  let ?l = "min l iw"
  have ixw: "ix st w = iw" using w by (rule ix_Some)
  from loop_low_le [OF p(7,9)] have lv: "l \<le> ix st v" .
  from tarjan_inv_fields(1) [OF p(1)] os p(5) have wst: "w \<in> set seg \<or> w = v \<or> w \<in> set old" by auto
  have c6: "lowlink ?st v = Some ?l" by (simp add: lower_lowlink_fields p(6) w js_min_def)
  have c4: "set (dn @ [w]) \<subseteq> dom (index ?st)" using p(4) w by (auto simp: lower_lowlink_fields)
  have c5: "stack ?st = seg @ v # old" by (simp add: lower_lowlink_fields p(5))
  have c7: "\<forall>z \<in> set old. ix ?st z < ix ?st v" using p(7) by (simp add: lower_ix)
  have c8: "\<forall>x \<in> set seg. ix ?st v < ix ?st x" using p(8) by (simp add: lower_ix)
  have c9: "?l = ix ?st v \<or> (\<exists>z \<in> set old. ?l = ix ?st z)"
  proof (cases "l \<le> iw")
    case True
    then have "?l = l" by simp
    with p(9) show ?thesis by (simp add: lower_ix)
  next
    case False
    then have m: "?l = iw" and lt: "iw < l" by simp_all
    from wst have "w \<in> set old"
    proof (elim disjE)
      assume "w \<in> set seg"
      with p(8) have "ix st v < ix st w" by blast
      with lv lt ixw show ?thesis by simp
    next
      assume "w = v"
      with lv lt ixw show ?thesis by simp
    qed
    with m ixw show ?thesis by (auto simp: lower_ix)
  qed
  have c10: "\<forall>x \<in> set seg. \<forall>z \<in> set (getSuccessors g x). z \<in> set old \<longrightarrow> ?l \<le> ix ?st z"
  proof (intro ballI impI)
    fix x z assume "x \<in> set seg" "z \<in> set (getSuccessors g x)" "z \<in> set old"
    with p(10) have "l \<le> ix st z" by blast
    then show "?l \<le> ix ?st z" by (simp add: lower_ix)
  qed
  have c11: "\<forall>z \<in> set (dn @ [w]). z \<in> set old \<longrightarrow> ?l \<le> ix ?st z"
  proof (intro ballI impI)
    fix z assume z: "z \<in> set (dn @ [w])" and zo: "z \<in> set old"
    show "?l \<le> ix ?st z"
    proof (cases "z = w")
      case True
      with ixw show ?thesis by (simp add: lower_ix)
    next
      case False
      with z have "z \<in> set dn" by simp
      with p(11) zo have "l \<le> ix st z" by blast
      then show ?thesis by (simp add: lower_ix)
    qed
  qed
  have c12: "acyclic (succ_rel g) \<longrightarrow>
            seg = [] \<and> ?l = ix ?st v \<and> (\<forall>x \<in> set old. (x, v) \<in> (succ_rel g)\<^sup>+)"
  proof
    assume ac: "acyclic (succ_rel g)"
    with p(12) have s: "seg = []" and r: "\<forall>x \<in> set old. (x, v) \<in> (succ_rel g)\<^sup>+" by simp_all
    from e have vw: "(v, w) \<in> succ_rel g" by (simp add: succ_rel_def)
    from wst s have "w = v \<or> w \<in> set old" by simp
    then have "(w, w) \<in> (succ_rel g)\<^sup>+"
    proof
      assume "w = v"
      with vw show ?thesis by auto
    next
      assume "w \<in> set old"
      with r have "(w, v) \<in> (succ_rel g)\<^sup>+" by blast
      from this vw show ?thesis by (rule trancl_into_trancl)
    qed
    with ac have False by (simp add: acyclic_def)
    then show "seg = [] \<and> ?l = ix ?st v \<and> (\<forall>x \<in> set old. (x, v) \<in> (succ_rel g)\<^sup>+)" ..
  qed
  show ?thesis
    by (rule loop_invI [OF lower_tarjan_inv [OF p(1)] lower_black_closed [OF p(2)] p(3)
        c4 c5 c6 c7 c8 c9 c10 c11 c12])
qed


lemma loop_visit_pre:
  assumes wf: "wf_graph g" and li: "loop_inv g gray old v dn st"
    and w: "index st w = None" and e: "w \<in> set (getSuccessors g v)"
  shows "visit_pre g (insert v gray) st w"
proof -
  from li obtain seg l where p: "tarjan_inv g st" "black_closed g (insert v gray) st"
    "gray \<subseteq> set old" "set dn \<subseteq> dom (index st)"
    "stack st = seg @ v # old" "lowlink st v = Some l"
    "\<forall>z \<in> set old. ix st z < ix st v"
    "\<forall>x \<in> set seg. ix st v < ix st x"
    "l = ix st v \<or> (\<exists>z \<in> set old. l = ix st z)"
    "\<forall>x \<in> set seg. \<forall>z \<in> set (getSuccessors g x). z \<in> set old \<longrightarrow> l \<le> ix st z"
    "\<forall>z \<in> set dn. z \<in> set old \<longrightarrow> l \<le> ix st z"
    "acyclic (succ_rel g) \<longrightarrow>
            seg = [] \<and> l = ix st v \<and> (\<forall>x \<in> set old. (x, v) \<in> (succ_rel g)\<^sup>+)"
    by (rule loop_invE)
  have g: "insert v gray \<subseteq> set (stack st)" using p(3,5) by auto
  from wf_graph_succ(2) [OF wf] e have wV: "w \<in> set (map fst (nodes g))" by blast
  from e have vw: "(v, w) \<in> succ_rel g" by (simp add: succ_rel_def)
  have ac: "acyclic (succ_rel g) \<longrightarrow> (\<forall>x \<in> set (stack st). (x, w) \<in> (succ_rel g)\<^sup>+)"
  proof (intro impI ballI)
    fix x assume a: "acyclic (succ_rel g)" and x: "x \<in> set (stack st)"
    from a p(12) have s: "seg = []" and r: "\<forall>x \<in> set old. (x, v) \<in> (succ_rel g)\<^sup>+" by simp_all
    from x s p(5) have "x = v \<or> x \<in> set old" by simp
    then show "(x, w) \<in> (succ_rel g)\<^sup>+"
    proof
      assume "x = v"
      with vw show ?thesis by auto
    next
      assume "x \<in> set old"
      with r have "(x, v) \<in> (succ_rel g)\<^sup>+" by blast
      from this vw show ?thesis by (rule trancl_into_trancl)
    qed
  qed
  show ?thesis unfolding visit_pre_def
    by (intro conjI p(1) p(2) g wV w ac)
qed

lemma visit_postE:
  assumes "visit_post g gray st v st'"
  obtains seg l where "tarjan_inv g st'" and "black_closed g gray st'" and "frame {} st st'"
    and "index st' v = Some (currentIndex st)"
    and "stack st' = seg @ stack st" and "lowlink st' v = Some l"
    and "\<forall>x \<in> set seg. index st x = None \<and> currentIndex st \<le> ix st' x"
    and "l = currentIndex st \<or> (\<exists>z \<in> set (stack st). l = ix st z)"
    and "(l = currentIndex st) = (seg = [])"
    and "\<forall>x \<in> set seg. \<forall>z \<in> set (getSuccessors g x). z \<in> set (stack st) \<longrightarrow> l \<le> ix st z"
    and "acyclic (succ_rel g) \<longrightarrow> seg = []"
  using assms unfolding visit_post_def by blast

lemma visit_postI:
  assumes "tarjan_inv g st'" and "black_closed g gray st'" and "frame {} st st'"
    and "index st' v = Some (currentIndex st)"
    and "stack st' = seg @ stack st" and "lowlink st' v = Some l"
    and "\<forall>x \<in> set seg. index st x = None \<and> currentIndex st \<le> ix st' x"
    and "l = currentIndex st \<or> (\<exists>z \<in> set (stack st). l = ix st z)"
    and "(l = currentIndex st) = (seg = [])"
    and "\<forall>x \<in> set seg. \<forall>z \<in> set (getSuccessors g x). z \<in> set (stack st) \<longrightarrow> l \<le> ix st z"
    and "acyclic (succ_rel g) \<longrightarrow> seg = []"
  shows "visit_post g gray st v st'"
  unfolding visit_post_def
  apply (intro conjI assms(1-4))
  apply (rule exI [of _ seg])
  apply (rule exI [of _ l])
  apply (intro conjI assms(5-11))
  done

lemma loop_child:
  assumes li: "loop_inv g gray old v dn st" and w: "index st w = None"
    and post: "visit_post g (insert v gray) st w st1"
  shows "loop_inv g gray old v (dn @ [w]) (lower_lowlink v (lowlink st1 w) st1)"
    and "frame {v} st (lower_lowlink v (lowlink st1 w) st1)"
proof -
  let ?st = "lower_lowlink v (lowlink st1 w) st1"
  from li obtain seg l where p: "tarjan_inv g st" "black_closed g (insert v gray) st"
    "gray \<subseteq> set old" "set dn \<subseteq> dom (index st)"
    "stack st = seg @ v # old" "lowlink st v = Some l"
    "\<forall>z \<in> set old. ix st z < ix st v"
    "\<forall>x \<in> set seg. ix st v < ix st x"
    "l = ix st v \<or> (\<exists>z \<in> set old. l = ix st z)"
    "\<forall>x \<in> set seg. \<forall>z \<in> set (getSuccessors g x). z \<in> set old \<longrightarrow> l \<le> ix st z"
    "\<forall>z \<in> set dn. z \<in> set old \<longrightarrow> l \<le> ix st z"
    "acyclic (succ_rel g) \<longrightarrow>
            seg = [] \<and> l = ix st v \<and> (\<forall>x \<in> set old. (x, v) \<in> (succ_rel g)\<^sup>+)"
    by (rule loop_invE)
  from post obtain segw lw where q: "tarjan_inv g st1" "black_closed g (insert v gray) st1"
    "frame {} st st1" "index st1 w = Some (currentIndex st)"
    "stack st1 = segw @ stack st" "lowlink st1 w = Some lw"
    "\<forall>x \<in> set segw. index st x = None \<and> currentIndex st \<le> ix st1 x"
    "lw = currentIndex st \<or> (\<exists>z \<in> set (stack st). lw = ix st z)"
    "(lw = currentIndex st) = (segw = [])"
    "\<forall>x \<in> set segw. \<forall>z \<in> set (getSuccessors g x). z \<in> set (stack st) \<longrightarrow> lw \<le> ix st z"
    "acyclic (succ_rel g) \<longrightarrow> segw = []"
    by (rule visit_postE)
  let ?l = "min l lw"
  from tarjan_inv_fields(3) [OF p(1)] p(5) have vd: "v \<in> dom (index st)"
    and od: "set old \<subseteq> dom (index st)" and sd: "set seg \<subseteq> dom (index st)" by auto
  have keep: "\<And>x. x \<in> dom (index st) \<Longrightarrow> ix st1 x = ix st x"
    using frame_ix [OF q(3)] by blast
  have ixv: "ix st1 v = ix st v" using keep vd .
  from loop_low_le [OF p(7,9)] have lv: "l \<le> ix st v" .
  from ix_less_currentIndex [OF p(1) vd] have vc: "ix st v < currentIndex st" .
  from vd have vn: "index st v \<noteq> None" by auto
  with w have vw: "v \<noteq> w" by auto
  from q(3) vn have "lowlink st1 v = lowlink st v" unfolding frame_def by blast
  with p(6) have l1: "lowlink st1 v = Some l" by simp
  have c4: "set (dn @ [w]) \<subseteq> dom (index ?st)"
    using p(4) frame_dom [OF q(3)] q(4) by (auto simp: lower_lowlink_fields)
  have c5: "stack ?st = (segw @ seg) @ v # old" by (simp add: lower_lowlink_fields q(5) p(5))
  have c6: "lowlink ?st v = Some ?l" by (simp add: lower_lowlink_fields l1 q(6) js_min_def)
  have c7: "\<forall>z \<in> set old. ix ?st z < ix ?st v"
  proof
    fix z assume z: "z \<in> set old"
    with od have "ix st1 z = ix st z" using keep by blast
    with p(7) z ixv show "ix ?st z < ix ?st v" by (simp add: lower_ix)
  qed
  have c8: "\<forall>x \<in> set (segw @ seg). ix ?st v < ix ?st x"
  proof
    fix x assume "x \<in> set (segw @ seg)"
    then have "x \<in> set segw \<or> x \<in> set seg" by simp
    then show "ix ?st v < ix ?st x"
    proof
      assume "x \<in> set segw"
      with q(7) have "currentIndex st \<le> ix st1 x" by blast
      with vc ixv show ?thesis by (simp add: lower_ix)
    next
      assume x: "x \<in> set seg"
      with sd have "ix st1 x = ix st x" using keep by blast
      with p(8) x ixv show ?thesis by (simp add: lower_ix)
    qed
  qed
  have c9: "?l = ix ?st v \<or> (\<exists>z \<in> set old. ?l = ix ?st z)"
  proof (cases "l \<le> lw")
    case True
    then have m: "?l = l" by simp
    from p(9) show ?thesis
    proof
      assume "l = ix st v"
      with m ixv show ?thesis by (simp add: lower_ix)
    next
      assume "\<exists>z \<in> set old. l = ix st z"
      then obtain z where z: "z \<in> set old" "l = ix st z" by blast
      with od have "ix st1 z = ix st z" using keep by blast
      with z m have "z \<in> set old \<and> ?l = ix ?st z" by (simp add: lower_ix)
      then show ?thesis by blast
    qed
  next
    case False
    then have m: "?l = lw" and lt: "lw < l" by simp_all
    from q(8) lt lv vc have "\<exists>z \<in> set (stack st). lw = ix st z" by auto
    then obtain z where z: "z \<in> set (stack st)" "lw = ix st z" by blast
    from z(1) p(5) have "z \<in> set seg \<or> z = v \<or> z \<in> set old" by auto
    then have zo: "z \<in> set old"
    proof (elim disjE)
      assume "z \<in> set seg"
      with p(8) have "ix st v < ix st z" by blast
      with lv lt z(2) show ?thesis by simp
    next
      assume "z = v"
      with lv lt z(2) show ?thesis by simp
    qed
    with od have "ix st1 z = ix st z" using keep by blast
    with z(2) m zo have "z \<in> set old \<and> ?l = ix ?st z" by (simp add: lower_ix)
    then show ?thesis by blast
  qed
  have c10: "\<forall>x \<in> set (segw @ seg). \<forall>z \<in> set (getSuccessors g x). z \<in> set old \<longrightarrow> ?l \<le> ix ?st z"
  proof (intro ballI impI)
    fix x z assume x: "x \<in> set (segw @ seg)" and zs: "z \<in> set (getSuccessors g x)" and zo: "z \<in> set old"
    from zo od have k: "ix st1 z = ix st z" using keep by blast
    from x have "x \<in> set segw \<or> x \<in> set seg" by simp
    then show "?l \<le> ix ?st z"
    proof
      assume xs: "x \<in> set segw"
      from zo p(5) have "z \<in> set (stack st)" by simp
      with q(10) xs zs have "lw \<le> ix st z" by blast
      with k show ?thesis by (simp add: lower_ix)
    next
      assume "x \<in> set seg"
      with p(10) zs zo have "l \<le> ix st z" by blast
      with k show ?thesis by (simp add: lower_ix)
    qed
  qed
  have c11: "\<forall>z \<in> set (dn @ [w]). z \<in> set old \<longrightarrow> ?l \<le> ix ?st z"
  proof (intro ballI impI)
    fix z assume z: "z \<in> set (dn @ [w])" and zo: "z \<in> set old"
    from zo od have k: "ix st1 z = ix st z" using keep by blast
    from zo od w have "z \<noteq> w" by auto
    with z have "z \<in> set dn" by simp
    with p(11) zo have "l \<le> ix st z" by blast
    with k show "?l \<le> ix ?st z" by (simp add: lower_ix)
  qed
  have c12: "acyclic (succ_rel g) \<longrightarrow>
            segw @ seg = [] \<and> ?l = ix ?st v \<and> (\<forall>x \<in> set old. (x, v) \<in> (succ_rel g)\<^sup>+)"
  proof
    assume a: "acyclic (succ_rel g)"
    with p(12) have s: "seg = []" and le: "l = ix st v"
      and r: "\<forall>x \<in> set old. (x, v) \<in> (succ_rel g)\<^sup>+" by simp_all
    from a q(11) have sw: "segw = []" by simp
    with q(9) have "lw = currentIndex st" by simp
    with vc le have "?l = l" by simp
    with le ixv have "?l = ix ?st v" by (simp add: lower_ix)
    with s sw r show "segw @ seg = [] \<and> ?l = ix ?st v \<and> (\<forall>x \<in> set old. (x, v) \<in> (succ_rel g)\<^sup>+)"
      by simp
  qed
  show "loop_inv g gray old v (dn @ [w]) ?st"
    by (rule loop_invI [OF lower_tarjan_inv [OF q(1)] lower_black_closed [OF q(2)] p(3)
        c4 c5 c6 c7 c8 c9 c10 c11 c12])
  show "frame {v} st ?st"
    by (rule frame_trans [OF frame_mono [OF q(3)] lower_frame])
qed


lemma emitted_snoc: "emitted (cs @ [c]) = emitted cs \<union> set (scc_nodes c)"
  by (auto simp: emitted_def)

lemma emitted_nth:
  assumes "y \<in> emitted cs"
  shows "\<exists>j<length cs. y \<in> set (scc_nodes (cs ! j))"
proof -
  from assms obtain c where c: "c \<in> set cs" "y \<in> set (scc_nodes c)" by (auto simp: emitted_def)
  from c(1) obtain j where "j < length cs" "cs ! j = c" by (auto simp: in_set_conv_nth)
  with c(2) show ?thesis by auto
qed

lemma nth_emitted: "j < length cs \<Longrightarrow> y \<in> set (scc_nodes (cs ! j)) \<Longrightarrow> y \<in> emitted cs"
  by (auto simp: emitted_def)

lemma scc_inv_fields:
  assumes "scc_inv g cs"
  shows "\<forall>i<length cs. scc_id (cs ! i) = i"
    and "\<forall>i<length cs. \<forall>x \<in> set (scc_nodes (cs ! i)). \<forall>y \<in> set (getSuccessors g x).
                \<exists>j\<le>i. y \<in> set (scc_nodes (cs ! j))"
    and "\<forall>i<length cs. isAcyclic (cs ! i) =
                (\<exists>x. scc_nodes (cs ! i) = [x] \<and> x \<notin> set (getSuccessors g x))"
    and "\<forall>i<length cs. distinct (scc_nodes (cs ! i)) \<and> scc_nodes (cs ! i) \<noteq> []"
    and "\<forall>i j. i < j \<longrightarrow> j < length cs \<longrightarrow> set (scc_nodes (cs ! i)) \<inter> set (scc_nodes (cs ! j)) = {}"
    and "acyclic (succ_rel g) \<longrightarrow> (\<forall>c \<in> set cs. isAcyclic c)"
proof -
  note a = assms [unfolded scc_inv_def]
  note b = a [THEN conjunct2]
  note c = b [THEN conjunct2]
  note d = c [THEN conjunct2]
  note e = d [THEN conjunct2]
  show "\<forall>i<length cs. scc_id (cs ! i) = i" by (rule a [THEN conjunct1])
  show "\<forall>i<length cs. \<forall>x \<in> set (scc_nodes (cs ! i)). \<forall>y \<in> set (getSuccessors g x).
                \<exists>j\<le>i. y \<in> set (scc_nodes (cs ! j))" by (rule b [THEN conjunct1])
  show "\<forall>i<length cs. isAcyclic (cs ! i) =
                (\<exists>x. scc_nodes (cs ! i) = [x] \<and> x \<notin> set (getSuccessors g x))"
    by (rule c [THEN conjunct1])
  show "\<forall>i<length cs. distinct (scc_nodes (cs ! i)) \<and> scc_nodes (cs ! i) \<noteq> []"
    by (rule d [THEN conjunct1])
  show "\<forall>i j. i < j \<longrightarrow> j < length cs \<longrightarrow> set (scc_nodes (cs ! i)) \<inter> set (scc_nodes (cs ! j)) = {}"
    by (rule e [THEN conjunct1])
  show "acyclic (succ_rel g) \<longrightarrow> (\<forall>c \<in> set cs. isAcyclic c)" by (rule e [THEN conjunct2])
qed

lemma scc_inv_snoc:
  assumes inv: "scc_inv g cs" and cid: "scc_id c = length cs"
    and r: "\<forall>x \<in> set (scc_nodes c). \<forall>y \<in> set (getSuccessors g x). y \<in> set (scc_nodes c) \<or> y \<in> emitted cs"
    and fl: "isAcyclic c = (\<exists>x. scc_nodes c = [x] \<and> x \<notin> set (getSuccessors g x))"
    and d: "distinct (scc_nodes c)" and ne: "scc_nodes c \<noteq> []"
    and dj: "set (scc_nodes c) \<inter> emitted cs = {}"
    and ac: "acyclic (succ_rel g) \<longrightarrow> isAcyclic c"
  shows "scc_inv g (cs @ [c])"
proof -
  note i1 = scc_inv_fields(1) [OF inv] and i2 = scc_inv_fields(2) [OF inv]
    and i3 = scc_inv_fields(3) [OF inv] and i4 = scc_inv_fields(4) [OF inv]
    and i5 = scc_inv_fields(5) [OF inv] and i6 = scc_inv_fields(6) [OF inv]
  let ?cs = "cs @ [c]"
  have old: "\<And>i. i < length cs \<Longrightarrow> ?cs ! i = cs ! i" by (simp add: nth_append)
  have new: "?cs ! length cs = c" by simp
  have split: "\<And>i. i < length ?cs \<Longrightarrow> i < length cs \<or> i = length cs" by auto
  have c1: "\<forall>i<length ?cs. scc_id (?cs ! i) = i"
  proof (intro allI impI)
    fix i assume "i < length ?cs"
    from split [OF this] show "scc_id (?cs ! i) = i"
    proof
      assume "i < length cs"
      with i1 old show ?thesis by simp
    next
      assume "i = length cs"
      with cid show ?thesis by simp
    qed
  qed
  have c2: "\<forall>i<length ?cs. \<forall>x \<in> set (scc_nodes (?cs ! i)). \<forall>y \<in> set (getSuccessors g x).
                \<exists>j\<le>i. y \<in> set (scc_nodes (?cs ! j))"
  proof (intro allI impI ballI)
    fix i x y assume i: "i < length ?cs" and x: "x \<in> set (scc_nodes (?cs ! i))"
      and y: "y \<in> set (getSuccessors g x)"
    from split [OF i] show "\<exists>j\<le>i. y \<in> set (scc_nodes (?cs ! j))"
    proof
      assume il: "i < length cs"
      with x old have "x \<in> set (scc_nodes (cs ! i))" by simp
      with i2 il y obtain j where j: "j \<le> i" "y \<in> set (scc_nodes (cs ! j))" by blast
      with il have "j < length cs" by simp
      with j old have "j \<le> i \<and> y \<in> set (scc_nodes (?cs ! j))" by simp
      then show ?thesis by blast
    next
      assume il: "i = length cs"
      with x have "x \<in> set (scc_nodes c)" by simp
      with r y have "y \<in> set (scc_nodes c) \<or> y \<in> emitted cs" by blast
      then show ?thesis
      proof
        assume "y \<in> set (scc_nodes c)"
        with il have "i \<le> i \<and> y \<in> set (scc_nodes (?cs ! i))" by simp
        then show ?thesis by blast
      next
        assume "y \<in> emitted cs"
        from emitted_nth [OF this] obtain j where j: "j < length cs" "y \<in> set (scc_nodes (cs ! j))"
          by blast
        with il old have "j \<le> i \<and> y \<in> set (scc_nodes (?cs ! j))" by simp
        then show ?thesis by blast
      qed
    qed
  qed
  have c3: "\<forall>i<length ?cs. isAcyclic (?cs ! i) =
                (\<exists>x. scc_nodes (?cs ! i) = [x] \<and> x \<notin> set (getSuccessors g x))"
  proof (intro allI impI)
    fix i assume i: "i < length ?cs"
    from split [OF i] show "isAcyclic (?cs ! i) =
        (\<exists>x. scc_nodes (?cs ! i) = [x] \<and> x \<notin> set (getSuccessors g x))"
    proof
      assume il: "i < length cs"
      with i3 have "isAcyclic (cs ! i) =
          (\<exists>x. scc_nodes (cs ! i) = [x] \<and> x \<notin> set (getSuccessors g x))" by blast
      with il old show ?thesis by simp
    next
      assume il: "i = length cs"
      with fl show ?thesis by simp
    qed
  qed
  have c4: "\<forall>i<length ?cs. distinct (scc_nodes (?cs ! i)) \<and> scc_nodes (?cs ! i) \<noteq> []"
  proof (intro allI impI)
    fix i assume i: "i < length ?cs"
    from split [OF i] show "distinct (scc_nodes (?cs ! i)) \<and> scc_nodes (?cs ! i) \<noteq> []"
    proof
      assume il: "i < length cs"
      with i4 have "distinct (scc_nodes (cs ! i)) \<and> scc_nodes (cs ! i) \<noteq> []" by blast
      with il old show ?thesis by simp
    next
      assume "i = length cs"
      with d ne show ?thesis by simp
    qed
  qed
  have c5: "\<forall>i j. i < j \<longrightarrow> j < length ?cs \<longrightarrow>
              set (scc_nodes (?cs ! i)) \<inter> set (scc_nodes (?cs ! j)) = {}"
  proof (intro allI impI)
    fix i j assume ij: "i < j" and j: "j < length ?cs"
    from split [OF j] show "set (scc_nodes (?cs ! i)) \<inter> set (scc_nodes (?cs ! j)) = {}"
    proof
      assume jl: "j < length cs"
      with ij have il: "i < length cs" by simp
      from i5 ij jl have "set (scc_nodes (cs ! i)) \<inter> set (scc_nodes (cs ! j)) = {}" by blast
      with il jl old show ?thesis by simp
    next
      assume jl: "j = length cs"
      with ij have il: "i < length cs" by simp
      have "set (scc_nodes (cs ! i)) \<subseteq> emitted cs" using nth_emitted [OF il] by blast
      with dj have "set (scc_nodes (cs ! i)) \<inter> set (scc_nodes c) = {}" by blast
      with il jl old show ?thesis by simp
    qed
  qed
  have c6: "acyclic (succ_rel g) \<longrightarrow> (\<forall>c \<in> set ?cs. isAcyclic c)"
    using i6 ac by auto
  show ?thesis unfolding scc_inv_def
    by (intro conjI c1 c2 c3 c4 c5 c6)
qed


lemma emit_visit_post:
  assumes wf: "wf_graph g" and pre: "visit_pre g gray st v"
    and li: "loop_inv g gray (stack st) v (getSuccessors g v) st2"
    and fr: "frame {v} (enter_node v st) st2"
  shows "\<exists>st'. emit_scc g v st2 = Some st' \<and> visit_post g gray st v st'"
proof -
  from pre have inv0: "tarjan_inv g st" and vn: "index st v = None"
    unfolding visit_pre_def by blast+
  from li obtain seg l where p: "tarjan_inv g st2" "black_closed g (insert v gray) st2"
    "gray \<subseteq> set (stack st)" "set (getSuccessors g v) \<subseteq> dom (index st2)"
    "stack st2 = seg @ v # stack st" "lowlink st2 v = Some l"
    "\<forall>z \<in> set (stack st). ix st2 z < ix st2 v"
    "\<forall>x \<in> set seg. ix st2 v < ix st2 x"
    "l = ix st2 v \<or> (\<exists>z \<in> set (stack st). l = ix st2 z)"
    "\<forall>x \<in> set seg. \<forall>z \<in> set (getSuccessors g x). z \<in> set (stack st) \<longrightarrow> l \<le> ix st2 z"
    "\<forall>z \<in> set (getSuccessors g v). z \<in> set (stack st) \<longrightarrow> l \<le> ix st2 z"
    "acyclic (succ_rel g) \<longrightarrow>
            seg = [] \<and> l = ix st2 v \<and> (\<forall>x \<in> set (stack st). (x, v) \<in> (succ_rel g)\<^sup>+)"
    by (rule loop_invE)
  let ?old = "stack st"
  have fr0: "frame {} st st2"
  proof -
    have a: "\<forall>x. index st x \<noteq> None \<longrightarrow>
         index st2 x = index st x \<and> (x \<notin> {} \<longrightarrow> lowlink st2 x = lowlink st x)"
    proof (intro allI impI)
      fix x assume x: "index st x \<noteq> None"
      with vn have xv: "x \<noteq> v" by auto
      then have e: "index (enter_node v st) x = index st x" "lowlink (enter_node v st) x = lowlink st x"
        by (simp_all add: enter_node_fields)
      with x have "index (enter_node v st) x \<noteq> None" by simp
      with fr xv have "index st2 x = index (enter_node v st) x"
        "lowlink st2 x = lowlink (enter_node v st) x" unfolding frame_def by auto
      with e show "index st2 x = index st x \<and> (x \<notin> {} \<longrightarrow> lowlink st2 x = lowlink st x)" by simp
    qed
    from fr have b: "\<exists>cs. sccs st2 = sccs st @ cs" unfolding frame_def by (simp add: enter_node_fields)
    from fr have c: "currentIndex st \<le> currentIndex st2" unfolding frame_def
      by (simp add: enter_node_fields)
    from a b c show ?thesis unfolding frame_def by blast
  qed
  have "index (enter_node v st) v = Some (currentIndex st)" by (simp add: enter_node_fields)
  with fr have iv: "index st2 v = Some (currentIndex st)" unfolding frame_def by auto
  then have ixv: "ix st2 v = currentIndex st" by (rule ix_Some)
  from tarjan_inv_fields(3) [OF inv0] have od: "set ?old \<subseteq> dom (index st)" .
  have keep: "\<And>x. x \<in> dom (index st) \<Longrightarrow> ix st2 x = ix st x"
    using frame_ix [OF fr0] by blast
  note t2 = tarjan_inv_fields [OF p(1)]
  from t2(2) p(5) have vseg: "v \<notin> set seg" and vold: "v \<notin> set ?old"
    and so: "set seg \<inter> set ?old = {}" and dseg: "distinct seg" and dold: "distinct ?old" by auto
  from t2(3) p(5) have segd: "set seg \<subseteq> dom (index st2)" and oldd: "set ?old \<subseteq> dom (index st2)"
    by auto
  have bc: "black_closed g gray st2"
    unfolding black_closed_def
  proof (intro allI impI)
    fix x assume x: "index st2 x \<noteq> None" and xg: "x \<notin> gray"
    show "set (getSuccessors g x) \<subseteq> dom (index st2)"
    proof (cases "x = v")
      case True
      with p(4) show ?thesis by simp
    next
      case False
      with xg have "x \<notin> insert v gray" by simp
      with p(2) x show ?thesis unfolding black_closed_def by blast
    qed
  qed
  show ?thesis
  proof (cases "l = currentIndex st")
    case True
    define c where "c = \<lparr>scc_id = length (sccs st2), scc_nodes = seg @ [v],
                             isAcyclic = (length (seg @ [v]) = 1 \<and> \<not> hasEdge g v v)\<rparr>"
    define st' where "st' = st2\<lparr>stack := ?old, onStack := onStack st2 - set (seg @ [v]),
                                  sccs := sccs st2 @ [c]\<rparr>"
    have f: "index st' = index st2" "lowlink st' = lowlink st2" "currentIndex st' = currentIndex st2"
      "stack st' = ?old" "onStack st' = onStack st2 - set (seg @ [v])" "sccs st' = sccs st2 @ [c]"
      by (simp_all add: st'_def)
    have cf: "scc_id c = length (sccs st2)" "scc_nodes c = seg @ [v]"
      "isAcyclic c = (length (seg @ [v]) = 1 \<and> \<not> hasEdge g v v)"
      by (simp_all add: c_def)
    have pop: "pop_scc v (stack st2) (onStack st2) [] = Some (?old, onStack st2 - set (seg @ [v]), seg @ [v])"
      using pop_scc_segment [OF vseg, of ?old "onStack st2" "[]"] p(5) by simp
    have em: "emit_scc g v st2 = Some st'"
      unfolding emit_scc_def st'_def c_def by (simp add: p(6) iv True pop)
    have r: "\<forall>x \<in> set (scc_nodes c). \<forall>y \<in> set (getSuccessors g x).
                y \<in> set (scc_nodes c) \<or> y \<in> emitted (sccs st2)"
    proof (intro ballI)
      fix x y assume x: "x \<in> set (scc_nodes c)" and y: "y \<in> set (getSuccessors g x)"
      from x cf(2) have xs: "x \<in> set seg \<or> x = v" by auto
      have yd: "y \<in> dom (index st2)"
      proof (cases "x = v")
        case True
        with p(4) y show ?thesis by blast
      next
        case False
        with xs have xseg: "x \<in> set seg" by simp
        with so p(3) have "x \<notin> gray" by blast
        with False have "x \<notin> insert v gray" by simp
        moreover from xseg segd have "index st2 x \<noteq> None" by blast
        ultimately have "set (getSuccessors g x) \<subseteq> dom (index st2)"
          using p(2) unfolding black_closed_def by blast
        with y show ?thesis by blast
      qed
      have yo: "y \<notin> set ?old"
      proof
        assume yo: "y \<in> set ?old"
        have "l \<le> ix st2 y"
        proof (cases "x = v")
          case True
          with p(11) y yo show ?thesis by blast
        next
          case False
          with xs have "x \<in> set seg" by simp
          with p(10) y yo show ?thesis by blast
        qed
        moreover from p(7) yo have "ix st2 y < ix st2 v" by blast
        ultimately show False using ixv True by simp
      qed
      show "y \<in> set (scc_nodes c) \<or> y \<in> emitted (sccs st2)"
      proof (cases "y \<in> set (stack st2)")
        case True
        with p(5) yo have "y \<in> set (seg @ [v])" by auto
        with cf(2) show ?thesis by simp
      next
        case False
        with yd t2(6) show ?thesis by blast
      qed
    qed
    have fl: "isAcyclic c = (\<exists>x. scc_nodes c = [x] \<and> x \<notin> set (getSuccessors g x))"
    proof
      assume "isAcyclic c"
      with cf(3) have "seg = []" and "\<not> hasEdge g v v" by simp_all
      with wf_graph_hasEdge [OF wf, of v v] cf(2)
      have "scc_nodes c = [v] \<and> v \<notin> set (getSuccessors g v)" by simp
      then show "\<exists>x. scc_nodes c = [x] \<and> x \<notin> set (getSuccessors g x)" by blast
    next
      assume "\<exists>x. scc_nodes c = [x] \<and> x \<notin> set (getSuccessors g x)"
      then obtain x where x: "scc_nodes c = [x]" "x \<notin> set (getSuccessors g x)" by blast
      from x(1) cf(2) have "seg = []" and "x = v" by simp_all
      with x(2) wf_graph_hasEdge [OF wf, of v v] cf(3) show "isAcyclic c" by simp
    qed
    have d: "distinct (scc_nodes c)" using cf(2) dseg vseg by simp
    have ne: "scc_nodes c \<noteq> []" using cf(2) by simp
    have dj: "set (scc_nodes c) \<inter> emitted (sccs st2) = {}"
      using cf(2) t2(6) p(5) by auto
    have ac: "acyclic (succ_rel g) \<longrightarrow> isAcyclic c"
    proof
      assume a: "acyclic (succ_rel g)"
      with p(12) have s: "seg = []" by simp
      have "v \<notin> set (getSuccessors g v)"
      proof
        assume "v \<in> set (getSuccessors g v)"
        then have "(v, v) \<in> succ_rel g" by (simp add: succ_rel_def)
        then have "(v, v) \<in> (succ_rel g)\<^sup>+" by auto
        with a show False by (simp add: acyclic_def)
      qed
      with wf_graph_hasEdge [OF wf, of v v] s cf(3) show "isAcyclic c" by simp
    qed
    have si: "scc_inv g (sccs st')"
      unfolding f(6) by (rule scc_inv_snoc [OF t2(7) cf(1) r fl d ne dj ac])
    have t1: "onStack st' = set (stack st')"
      unfolding f using t2(1) p(5) vold so by auto
    have t3: "set (stack st') \<subseteq> dom (index st')" unfolding f using oldd .
    have t4: "dom (index st') \<subseteq> set (map fst (nodes g))" unfolding f using t2(4) .
    have t5: "\<forall>x n. index st' x = Some n \<longrightarrow> n < currentIndex st'"
      unfolding f using t2(5) by blast
    have vd2: "v \<in> dom (index st2)" using iv by auto
    have t6: "emitted (sccs st') = dom (index st') - set (stack st')"
      unfolding f emitted_snoc cf(2) t2(6) p(5) using vold so segd vd2 by auto
    have inv': "tarjan_inv g st'"
      unfolding tarjan_inv_def
      apply (intro conjI t1 t3 t4 t5 t6 si)
      apply (simp add: f dold)
      done
    have bc': "black_closed g gray st'"
      using bc unfolding black_closed_def f .
    have "frame {} st2 st'" unfolding frame_def f by simp
    with fr0 have fr': "frame {} st st'" by (rule frame_trans)
    have iv': "index st' v = Some (currentIndex st)" unfolding f using iv .
    have s5: "stack st' = [] @ stack st" unfolding f by simp
    have s6: "lowlink st' v = Some l" unfolding f using p(6) .
    have s7: "\<forall>x \<in> set []. index st x = None \<and> currentIndex st \<le> ix st' x" by simp
    have s8: "l = currentIndex st \<or> (\<exists>z \<in> set (stack st). l = ix st z)" using True by simp
    have s9: "(l = currentIndex st) = ([] = ([] :: NodeId list))" using True by simp
    have s10: "\<forall>x \<in> set []. \<forall>z \<in> set (getSuccessors g x). z \<in> set (stack st) \<longrightarrow> l \<le> ix st z"
      by simp
    have s11: "acyclic (succ_rel g) \<longrightarrow> [] = ([] :: NodeId list)" by simp
    have "visit_post g gray st v st'"
      by (rule visit_postI [OF inv' bc' fr' iv' s5 s6 s7 s8 s9 s10 s11])
    with em show ?thesis by blast
  next
    case False
    have em: "emit_scc g v st2 = Some st2"
      unfolding emit_scc_def using False by (simp add: p(6) iv)
    have s5: "stack st2 = (seg @ [v]) @ stack st" using p(5) by simp
    have s7: "\<forall>x \<in> set (seg @ [v]). index st x = None \<and> currentIndex st \<le> ix st2 x"
    proof
      fix x assume "x \<in> set (seg @ [v])"
      then have "x \<in> set seg \<or> x = v" by auto
      then show "index st x = None \<and> currentIndex st \<le> ix st2 x"
      proof
        assume "x = v"
        with vn ixv show ?thesis by simp
      next
        assume "x \<in> set seg"
        with p(8) ixv have lt: "currentIndex st < ix st2 x" by auto
        have "index st x = None"
        proof (rule ccontr)
          assume "index st x \<noteq> None"
          then have xd: "x \<in> dom (index st)" by auto
          from ix_less_currentIndex [OF inv0 xd] keep [OF xd] lt show False by simp
        qed
        with lt show ?thesis by simp
      qed
    qed
    have s8: "l = currentIndex st \<or> (\<exists>z \<in> set (stack st). l = ix st z)"
      using p(9)
    proof
      assume "l = ix st2 v"
      with ixv show ?thesis by simp
    next
      assume "\<exists>z \<in> set (stack st). l = ix st2 z"
      then obtain z where z: "z \<in> set (stack st)" "l = ix st2 z" by blast
      with od have "ix st2 z = ix st z" using keep by blast
      with z have "z \<in> set (stack st) \<and> l = ix st z" by simp
      then show ?thesis by blast
    qed
    have s9: "(l = currentIndex st) = (seg @ [v] = [])" using False by simp
    have s10: "\<forall>x \<in> set (seg @ [v]). \<forall>z \<in> set (getSuccessors g x).
                 z \<in> set (stack st) \<longrightarrow> l \<le> ix st z"
    proof (intro ballI impI)
      fix x z assume x: "x \<in> set (seg @ [v])" and z: "z \<in> set (getSuccessors g x)"
        and zo: "z \<in> set (stack st)"
      from zo od have k: "ix st2 z = ix st z" using keep by blast
      have "l \<le> ix st2 z"
      proof (cases "x = v")
        case True
        with p(11) z zo show ?thesis by blast
      next
        case False
        with x have "x \<in> set seg" by simp
        with p(10) z zo show ?thesis by blast
      qed
      with k show "l \<le> ix st z" by simp
    qed
    have s11: "acyclic (succ_rel g) \<longrightarrow> seg @ [v] = []"
      using p(12) ixv False by simp
    have "visit_post g gray st v st2"
      by (rule visit_postI [OF p(1) bc fr0 iv s5 p(6) s7 s8 s9 s10 s11])
    with em show ?thesis by blast
  qed
qed


lemma unvisited_mono:
  assumes "dom (index st) \<subseteq> dom (index st')"
  shows "card (set (map fst (nodes g)) - dom (index st')) \<le> card (set (map fst (nodes g)) - dom (index st))"
proof (rule card_mono)
  show "finite (set (map fst (nodes g)) - dom (index st))" by simp
  from assms show "set (map fst (nodes g)) - dom (index st') \<subseteq> set (map fst (nodes g)) - dom (index st)"
    by blast
qed

lemma loop_run:
  assumes wf: "wf_graph g" and vo: "visit_ok g n"
  shows "loop_inv g gray old v dn st \<Longrightarrow> getSuccessors g v = dn @ ws \<Longrightarrow>
         card (set (map fst (nodes g)) - dom (index st)) \<le> n \<Longrightarrow>
         \<exists>st'. strongConnect g (Successors v ws) st = Some st' \<and>
               loop_inv g gray old v (getSuccessors g v) st' \<and> frame {v} st st'"
proof (induction ws arbitrary: dn st)
  case Nil
  from Nil.prems(2) have "dn = getSuccessors g v" by simp
  with Nil.prems(1) have "loop_inv g gray old v (getSuccessors g v) st" by simp
  then have "strongConnect g (Successors v []) st = Some st \<and>
             loop_inv g gray old v (getSuccessors g v) st \<and> frame {v} st st"
    by (simp add: sc_nil frame_refl)
  then show ?case by blast
next
  case (Cons w rest)
  from Cons.prems(2) have sp: "getSuccessors g v = (dn @ [w]) @ rest" by simp
  then have e: "w \<in> set (getSuccessors g v)" by simp
  show ?case
  proof (cases "index st w = None")
    case True
    from loop_visit_pre [OF wf Cons.prems(1) True e] have pre: "visit_pre g (insert v gray) st w" .
    with vo Cons.prems(3) obtain st1 where s1: "strongConnect g (Visit w) st = Some st1"
      and post: "visit_post g (insert v gray) st w st1"
      unfolding visit_ok_def by blast
    let ?st2 = "lower_lowlink v (lowlink st1 w) st1"
    from loop_child [OF Cons.prems(1) True post]
    have li2: "loop_inv g gray old v (dn @ [w]) ?st2" and fr2: "frame {v} st ?st2" by blast+
    have "card (set (map fst (nodes g)) - dom (index ?st2)) \<le> n"
      by (rule order_trans [OF unvisited_mono [OF frame_dom [OF fr2]] Cons.prems(3)])
    from Cons.IH [OF li2 sp this] obtain st' where
      s': "strongConnect g (Successors v rest) ?st2 = Some st'"
      and li': "loop_inv g gray old v (getSuccessors g v) st'" and fr': "frame {v} ?st2 st'"
      by blast
    have "strongConnect g (Successors v (w # rest)) st = Some st'"
      by (simp add: sc_cons True s1 s')
    with li' frame_trans [OF fr2 fr'] show ?thesis by blast
  next
    case False
    then obtain iw where iw: "index st w = Some iw" by auto
    show ?thesis
    proof (cases "w \<in> onStack st")
      case True
      let ?st2 = "lower_lowlink v (index st w) st"
      from loop_onstack [OF Cons.prems(1) iw True e]
      have li2: "loop_inv g gray old v (dn @ [w]) ?st2" .
      have fr2: "frame {v} st ?st2" by (rule lower_frame)
      from Cons.prems(3) have "card (set (map fst (nodes g)) - dom (index ?st2)) \<le> n"
        by (simp add: lower_lowlink_fields)
      from Cons.IH [OF li2 sp this] obtain st' where
        s': "strongConnect g (Successors v rest) ?st2 = Some st'"
        and li': "loop_inv g gray old v (getSuccessors g v) st'" and fr': "frame {v} ?st2 st'"
        by blast
      have "strongConnect g (Successors v (w # rest)) st = Some st'"
        by (simp add: sc_cons False True s')
      with li' frame_trans [OF fr2 fr'] show ?thesis by blast
    next
      case ns: False
      from loop_skip [OF Cons.prems(1) False ns]
      have li2: "loop_inv g gray old v (dn @ [w]) st" .
      from Cons.IH [OF li2 sp Cons.prems(3)] obtain st' where
        s': "strongConnect g (Successors v rest) st = Some st'"
        and li': "loop_inv g gray old v (getSuccessors g v) st'" and fr': "frame {v} st st'"
        by blast
      have "strongConnect g (Successors v (w # rest)) st = Some st'"
        by (simp add: sc_cons False ns s')
      with li' fr' show ?thesis by blast
    qed
  qed
qed

lemma loop_step: "wf_graph g \<Longrightarrow> visit_ok g n \<Longrightarrow> loop_ok g n"
  unfolding loop_ok_def using loop_run by blast

lemma visit_step:
  assumes wf: "wf_graph g" and lo: "loop_ok g n"
  shows "visit_ok g (Suc n)"
  unfolding visit_ok_def
proof (intro allI impI)
  fix gray st v
  assume a: "visit_pre g gray st v \<and> card (set (map fst (nodes g)) - dom (index st)) \<le> Suc n"
  then have pre: "visit_pre g gray st v"
    and c: "card (set (map fst (nodes g)) - dom (index st)) \<le> Suc n" by simp_all
  from pre have inv: "tarjan_inv g st" and vV: "v \<in> set (map fst (nodes g))"
    and vn: "index st v = None" unfolding visit_pre_def by blast+
  let ?st1 = "enter_node v st"
  from enter_loop_inv [OF pre] have li: "loop_inv g gray (stack st) v [] ?st1" .
  from enter_card [OF inv vV vn] c
  have c1: "card (set (map fst (nodes g)) - dom (index ?st1)) \<le> n" by simp
  have sp: "getSuccessors g v = [] @ getSuccessors g v" by simp
  from lo li sp c1 obtain st2 where
    s2: "strongConnect g (Successors v (getSuccessors g v)) ?st1 = Some st2"
    and li2: "loop_inv g gray (stack st) v (getSuccessors g v) st2" and fr2: "frame {v} ?st1 st2"
    unfolding loop_ok_def by blast
  from emit_visit_post [OF wf pre li2 fr2] obtain st' where
    em: "emit_scc g v st2 = Some st'" and post: "visit_post g gray st v st'" by blast
  have "strongConnect g (Visit v) st = Some st'"
    by (simp add: sc_visit s2 em)
  with post show "\<exists>st'. strongConnect g (Visit v) st = Some st' \<and> visit_post g gray st v st'"
    by blast
qed

lemma visit_ok_0: "visit_ok g 0"
  unfolding visit_ok_def
proof (intro allI impI)
  fix gray st v
  assume a: "visit_pre g gray st v \<and> card (set (map fst (nodes g)) - dom (index st)) \<le> 0"
  then have "v \<in> set (map fst (nodes g))" and "index st v = None"
    unfolding visit_pre_def by blast+
  then have "v \<in> set (map fst (nodes g)) - dom (index st)" by auto
  moreover have "finite (set (map fst (nodes g)) - dom (index st))" by simp
  ultimately have "0 < card (set (map fst (nodes g)) - dom (index st))"
    using card_gt_0_iff by blast
  moreover from a have "card (set (map fst (nodes g)) - dom (index st)) \<le> 0" by (rule conjunct2)
  ultimately have False by (simp only: le_zero_eq less_numeral_extra(3))
  then show "\<exists>st'. strongConnect g (Visit v) st = Some st' \<and> visit_post g gray st v st'" ..
qed

lemma visit_ok_all: "wf_graph g \<Longrightarrow> visit_ok g n"
proof (induction n)
  case 0
  show ?case by (rule visit_ok_0)
next
  case (Suc n)
  from Suc.IH [OF Suc.prems] have "visit_ok g n" .
  from visit_step [OF Suc.prems loop_step [OF Suc.prems this]] show ?case .
qed

text \<open>A call of \<open>strongConnect\<close> from the outer loop of \<open>findSCCs\<close>: the stack is empty.\<close>

lemma root_visit:
  assumes wf: "wf_graph g" and inv: "tarjan_inv g st" and em: "stack st = []"
    and bc: "black_closed g {} st" and kV: "k \<in> set (map fst (nodes g))" and kn: "index st k = None"
  shows "\<exists>st'. strongConnect g (Visit k) st = Some st' \<and> tarjan_inv g st' \<and> stack st' = [] \<and>
               black_closed g {} st' \<and> dom (index st) \<subseteq> dom (index st') \<and> k \<in> dom (index st')"
proof -
  have pre: "visit_pre g {} st k"
    unfolding visit_pre_def using inv bc kV kn em by simp
  from visit_ok_all [OF wf, of "card (set (map fst (nodes g)) - dom (index st))"] pre
  obtain st' where s: "strongConnect g (Visit k) st = Some st'" and post: "visit_post g {} st k st'"
    unfolding visit_ok_def by blast
  from post obtain seg l where q: "tarjan_inv g st'" "black_closed g {} st'"
    "frame {} st st'" "index st' k = Some (currentIndex st)"
    "stack st' = seg @ stack st" "lowlink st' k = Some l"
    "\<forall>x \<in> set seg. index st x = None \<and> currentIndex st \<le> ix st' x"
    "l = currentIndex st \<or> (\<exists>z \<in> set (stack st). l = ix st z)"
    "(l = currentIndex st) = (seg = [])"
    "\<forall>x \<in> set seg. \<forall>z \<in> set (getSuccessors g x). z \<in> set (stack st) \<longrightarrow> l \<le> ix st z"
    "acyclic (succ_rel g) \<longrightarrow> seg = []"
    by (rule visit_postE)
  from q(8) em have "l = currentIndex st" by simp
  with q(9) have "seg = []" by simp
  with q(5) em have e': "stack st' = []" by simp
  from q(4) have "k \<in> dom (index st')" by auto
  with s q(1) e' q(2) frame_dom [OF q(3)] show ?thesis by blast
qed

lemma scc_roots_run:
  assumes wf: "wf_graph g"
  shows "tarjan_inv g st \<Longrightarrow> stack st = [] \<Longrightarrow> black_closed g {} st \<Longrightarrow>
         set ks \<subseteq> set (map fst (nodes g)) \<Longrightarrow>
         \<exists>st'. scc_roots g ks st = Some st' \<and> tarjan_inv g st' \<and> stack st' = [] \<and>
               dom (index st) \<subseteq> dom (index st') \<and> set ks \<subseteq> dom (index st')"
proof (induction ks arbitrary: st)
  case Nil
  then show ?case by simp
next
  case (Cons k ks)
  from Cons.prems(4) have kV: "k \<in> set (map fst (nodes g))"
    and ksV: "set ks \<subseteq> set (map fst (nodes g))" by simp_all
  show ?case
  proof (cases "index st k = None")
    case True
    from root_visit [OF wf Cons.prems(1,2,3) kV True] obtain st1 where
      s1: "strongConnect g (Visit k) st = Some st1" and i1: "tarjan_inv g st1"
      and e1: "stack st1 = []" and b1: "black_closed g {} st1"
      and d1: "dom (index st) \<subseteq> dom (index st1)" and k1: "k \<in> dom (index st1)" by blast
    from Cons.IH [OF i1 e1 b1 ksV] obtain st' where
      s': "scc_roots g ks st1 = Some st'" and i': "tarjan_inv g st'" and e': "stack st' = []"
      and d': "dom (index st1) \<subseteq> dom (index st')" and k': "set ks \<subseteq> dom (index st')" by blast
    have r: "scc_roots g (k # ks) st = Some st'" by (simp add: True s1 s')
    from d1 d' have dd: "dom (index st) \<subseteq> dom (index st')" by blast
    from k1 d' k' have kk: "set (k # ks) \<subseteq> dom (index st')" by auto
    from r i' e' dd kk show ?thesis by blast
  next
    case False
    from Cons.IH [OF Cons.prems(1,2,3) ksV] obtain st' where
      s': "scc_roots g ks st = Some st'" and i': "tarjan_inv g st'" and e': "stack st' = []"
      and d': "dom (index st) \<subseteq> dom (index st')" and k': "set ks \<subseteq> dom (index st')" by blast
    from False obtain ik where "index st k = Some ik" by auto
    then have r: "scc_roots g (k # ks) st = Some st'" by (simp add: s')
    from False d' k' have kk: "set (k # ks) \<subseteq> dom (index st')" by auto
    from r i' e' d' kk show ?thesis by blast
  qed
qed

text \<open>
  On a well-formed graph \<open>findSCCs\<close> returns; the components cover the nodes, and every
  edge leads into the same or an earlier component.
\<close>

lemma findSCCs_result:
  assumes wf: "wf_graph g"
  shows "\<exists>cs. findSCCs g = Some cs \<and> scc_inv g cs \<and> emitted cs = set (map fst (nodes g))"
proof -
  let ?st0 = "\<lparr>index = Map.empty, lowlink = Map.empty, onStack = {}, stack = [],
                currentIndex = 0, sccs = []\<rparr> :: tarjan_state"
  have s0: "scc_inv g []" by (simp add: scc_inv_def)
  have i0: "tarjan_inv g ?st0" by (simp add: tarjan_inv_def emitted_def s0)
  have e0: "stack ?st0 = []" by simp
  have b0: "black_closed g {} ?st0" by (simp add: black_closed_def)
  from scc_roots_run [OF wf i0 e0 b0 subset_refl] obtain st' where
    r: "scc_roots g (map fst (nodes g)) ?st0 = Some st'" and i': "tarjan_inv g st'"
    and e': "stack st' = []" and k': "set (map fst (nodes g)) \<subseteq> dom (index st')" by blast
  from r have f: "findSCCs g = Some (sccs st')" by (simp add: findSCCs_def)
  note t = tarjan_inv_fields [OF i']
  from t(6) e' t(4) k' have "emitted (sccs st') = set (map fst (nodes g))" by auto
  with f t(7) show ?thesis by blast
qed


text \<open>When every component is flagged acyclic, the component index is a rank that every edge lowers.\<close>

lemma all_acyclic_imp_acyclic:
  assumes wf: "wf_graph g" and inv: "scc_inv g cs" and cov: "emitted cs = set (map fst (nodes g))"
    and fl: "\<forall>c \<in> set cs. isAcyclic c"
  shows "acyclic (succ_rel g)"
proof (rule acyclicI_order [where f = "\<lambda>x. LEAST i. i < length cs \<and> x \<in> set (scc_nodes (cs ! i))"])
  fix a b assume "(a, b) \<in> succ_rel g"
  then have ab: "b \<in> set (getSuccessors g a)" by (simp add: succ_rel_def)
  note i2 = scc_inv_fields(2) [OF inv] and i3 = scc_inv_fields(3) [OF inv]
  let ?P = "\<lambda>x i. i < length cs \<and> x \<in> set (scc_nodes (cs ! i))"
  from wf_graph_succ(3) [OF wf ab] cov have "a \<in> emitted cs" by simp
  from emitted_nth [OF this] have "\<exists>i. ?P a i" by blast
  then have la: "?P a (LEAST i. ?P a i)" by (rule LeastI_ex)
  define i where "i = (LEAST i. ?P a i)"
  from la have il: "i < length cs" and ai: "a \<in> set (scc_nodes (cs ! i))" by (simp_all add: i_def)
  from il fl have "isAcyclic (cs ! i)" by simp
  with i3 il obtain x where x: "scc_nodes (cs ! i) = [x]" "x \<notin> set (getSuccessors g x)" by blast
  from x(1) ai have xa: "x = a" by simp
  from i2 il ai ab obtain j where j: "j \<le> i" "b \<in> set (scc_nodes (cs ! j))" by blast
  have "j \<noteq> i"
  proof
    assume "j = i"
    with j(2) x(1) xa have "b = a" by simp
    with ab x(2) xa show False by simp
  qed
  with j(1) have ji: "j < i" by simp
  with il have "?P b j" using j(2) by simp
  then have "(LEAST i. ?P b i) \<le> j" by (rule Least_le)
  with ji show "(LEAST i. ?P b i) < (LEAST i. ?P a i)" by (simp add: i_def)
qed

lemma findSCCs_flags:
  assumes wf: "wf_graph g"
  shows "\<exists>cs. findSCCs g = Some cs \<and>
           ((\<forall>c \<in> set cs. isAcyclic c) = acyclic (succ_rel g)) \<and>
           (\<forall>c \<in> set cs. isAcyclic c = (\<exists>x. scc_nodes c = [x] \<and> \<not> hasEdge g x x))"
proof -
  from findSCCs_result [OF wf] obtain cs where f: "findSCCs g = Some cs" and inv: "scc_inv g cs"
    and cov: "emitted cs = set (map fst (nodes g))" by blast
  note i3 = scc_inv_fields(3) [OF inv] and i6 = scc_inv_fields(6) [OF inv]
  have a: "(\<forall>c \<in> set cs. isAcyclic c) = acyclic (succ_rel g)"
    using all_acyclic_imp_acyclic [OF wf inv cov] i6 by blast
  have b: "\<forall>c \<in> set cs. isAcyclic c = (\<exists>x. scc_nodes c = [x] \<and> \<not> hasEdge g x x)"
  proof
    fix c assume "c \<in> set cs"
    then obtain i where i: "i < length cs" "cs ! i = c" by (auto simp: in_set_conv_nth)
    with i3 have "isAcyclic c = (\<exists>x. scc_nodes c = [x] \<and> x \<notin> set (getSuccessors g x))" by blast
    then show "isAcyclic c = (\<exists>x. scc_nodes c = [x] \<and> \<not> hasEdge g x x)"
      by (simp add: wf_graph_hasEdge [OF wf])
  qed
  from f a b show ?thesis by blast
qed

section \<open>topologicalSort and findSCCs agree on acyclicity\<close>

text \<open>
  C1: for every engine built through the public interface (the constructor followed by
  any calls of \<open>addNode\<close>, \<open>addEdge\<close> and \<open>clear\<close>, failed ones included),
  \<open>findSCCs\<close> returns, \<open>topologicalSort\<close> returns a non-null order if and only if
  every component that \<open>findSCCs\<close> returns has \<open>isAcyclic = true\<close>, and a component has
  that flag exactly when it is a single node without a self-loop.
\<close>

theorem topologicalSort_iff_sccs_acyclic:
  assumes "built g"
  shows "\<exists>cs. findSCCs g = Some cs \<and>
           ((topologicalSort g \<noteq> None) = (\<forall>c \<in> set cs. isAcyclic c)) \<and>
           (\<forall>c \<in> set cs. isAcyclic c = (\<exists>x. scc_nodes c = [x] \<and> \<not> hasEdge g x x))"
proof -
  from assms have wf: "wf_graph g" by (rule built_wf_graph)
  from findSCCs_flags [OF wf] obtain cs where f: "findSCCs g = Some cs"
    and a: "(\<forall>c \<in> set cs. isAcyclic c) = acyclic (succ_rel g)"
    and b: "\<forall>c \<in> set cs. isAcyclic c = (\<exists>x. scc_nodes c = [x] \<and> \<not> hasEdge g x x)" by blast
  from topologicalSort_iff_acyclic [OF wf] a
  have "(topologicalSort g \<noteq> None) = (\<forall>c \<in> set cs. isAcyclic c)" by simp
  with f b show ?thesis by blast
qed


text \<open>The engine with the single edge from A to B: both analyses run and agree.\<close>

lemma gAB_fields:
  "map fst (nodes gAB) = [''A'', ''B'']"
  "adjacencyList gAB = [(''A'', [''B'']), (''B'', [])]"
  "reverseAdjacencyList gAB = [(''A'', []), (''B'', [''A''])]"
  by (simp_all add: gAB_def addNode_def addEdge_def new_graph_def has_def Let_def getEdgeKey_A_B
      validateEdgeInvariants_def set_has_def set_add_def)

lemma gAB_built: "built gAB"
  unfolding gAB_def by (intro built.intros)

lemma gAB_length: "length (nodes gAB) = 2"
  using arg_cong [OF gAB_fields(1), of length] by simp

lemma gAB_succ: "getSuccessors gAB ''A'' = [''B'']" "getSuccessors gAB ''B'' = []"
  by (simp_all add: getSuccessors_def gAB_fields)

lemma gAB_hasEdge: "\<not> hasEdge gAB ''A'' ''A''" "\<not> hasEdge gAB ''B'' ''B''"
  by (simp_all add: wf_graph_hasEdge [OF built_wf_graph [OF gAB_built]] gAB_succ)

lemma topologicalSort_gAB: "topologicalSort gAB = Some [''A'', ''B'']"
  by (simp add: topologicalSort_def init_inDegree_def zero_degree_def gAB_fields gAB_length
      topo_while.simps Let_def)

lemma findSCCs_gAB:
  "findSCCs gAB = Some [\<lparr>scc_id = 0, scc_nodes = [''B''], isAcyclic = True\<rparr>,
                        \<lparr>scc_id = 1, scc_nodes = [''A''], isAcyclic = True\<rparr>]"
  by (simp add: findSCCs_def gAB_fields sc_visit sc_cons sc_nil enter_node_def lower_lowlink_def
      emit_scc_def js_min_def gAB_succ gAB_hasEdge)

theorem topologicalSort_iff_sccs_acyclic_witness:
  "built gAB \<and> topologicalSort gAB = Some [''A'', ''B''] \<and>
   findSCCs gAB = Some [\<lparr>scc_id = 0, scc_nodes = [''B''], isAcyclic = True\<rparr>,
                        \<lparr>scc_id = 1, scc_nodes = [''A''], isAcyclic = True\<rparr>] \<and>
   \<not> hasEdge gAB ''A'' ''A'' \<and> \<not> hasEdge gAB ''B'' ''B''"
  using topologicalSort_iff_sccs_acyclic [OF gAB_built] gAB_built topologicalSort_gAB findSCCs_gAB
    gAB_hasEdge
  by simp

section \<open>The condensation graph and its topological order\<close>


lemma componentMap_sound:
  "map_of (fold (\<lambda>scc m. fold (\<lambda>n m'. AList.update n (scc_id scc) m') (scc_nodes scc) m) cs m0) x = Some k
   \<Longrightarrow> (\<exists>c \<in> set cs. x \<in> set (scc_nodes c) \<and> k = scc_id c) \<or> map_of m0 x = Some k"
proof (induction cs arbitrary: m0)
  case Nil
  then show ?case by simp
next
  case (Cons c cs)
  let ?m1 = "fold (\<lambda>n m'. AList.update n (scc_id c) m') (scc_nodes c) m0"
  from Cons.prems have "map_of (fold (\<lambda>scc m. fold (\<lambda>n m'. AList.update n (scc_id scc) m') (scc_nodes scc) m) cs ?m1) x = Some k"
    by simp
  from Cons.IH [OF this]
  have "(\<exists>c \<in> set cs. x \<in> set (scc_nodes c) \<and> k = scc_id c) \<or> map_of ?m1 x = Some k" .
  then show ?case
  proof
    assume "\<exists>c \<in> set cs. x \<in> set (scc_nodes c) \<and> k = scc_id c"
    then show ?thesis by auto
  next
    assume a: "map_of ?m1 x = Some k"
    have "map_of ?m1 x = (if x \<in> set (scc_nodes c) then Some (scc_id c) else map_of m0 x)"
      by (rule fold_update_map_of)
    with a show ?thesis by (auto split: if_splits)
  qed
qed

lemma componentMap_complete:
  "x \<in> emitted cs \<or> map_of m0 x \<noteq> None \<Longrightarrow>
   map_of (fold (\<lambda>scc m. fold (\<lambda>n m'. AList.update n (scc_id scc) m') (scc_nodes scc) m) cs m0) x \<noteq> None"
proof (induction cs arbitrary: m0)
  case Nil
  then show ?case by (simp add: emitted_def)
next
  case (Cons c cs)
  let ?m1 = "fold (\<lambda>n m'. AList.update n (scc_id c) m') (scc_nodes c) m0"
  have m1: "map_of ?m1 x = (if x \<in> set (scc_nodes c) then Some (scc_id c) else map_of m0 x)"
    by (rule fold_update_map_of)
  from Cons.prems have "x \<in> emitted cs \<or> map_of ?m1 x \<noteq> None"
    unfolding m1 by (auto simp: emitted_def)
  from Cons.IH [OF this] show ?case by simp
qed

lemma scc_inv_unique:
  assumes inv: "scc_inv g cs" and i: "i < length cs" and j: "j < length cs"
    and xi: "x \<in> set (scc_nodes (cs ! i))" and xj: "x \<in> set (scc_nodes (cs ! j))"
  shows "i = j"
proof (rule ccontr)
  assume n: "i \<noteq> j"
  note d = scc_inv_fields(5) [OF inv]
  from n have "i < j \<or> j < i" by auto
  then show False
  proof
    assume "i < j"
    with d j have "set (scc_nodes (cs ! i)) \<inter> set (scc_nodes (cs ! j)) = {}" by blast
    with xi xj show False by blast
  next
    assume "j < i"
    with d i have "set (scc_nodes (cs ! j)) \<inter> set (scc_nodes (cs ! i)) = {}" by blast
    with xi xj show False by blast
  qed
qed

lemma componentMap_member:
  assumes inv: "scc_inv g cs" and m: "map_of (init_componentMap cs) x = Some k"
  shows "k < length cs \<and> x \<in> set (scc_nodes (cs ! k))"
proof -
  from componentMap_sound [of cs "[]" x k] m
  obtain c where c: "c \<in> set cs" "x \<in> set (scc_nodes c)" "k = scc_id c"
    by (auto simp: init_componentMap_def)
  from c(1) obtain i where i: "i < length cs" "cs ! i = c" by (auto simp: in_set_conv_nth)
  from scc_inv_fields(1) [OF inv] i have "scc_id c = i" by blast
  with c i show ?thesis by simp
qed

lemma componentMap_defined:
  assumes "x \<in> emitted cs"
  shows "map_of (init_componentMap cs) x \<noteq> None"
  unfolding init_componentMap_def using assms by (intro componentMap_complete) simp

lemma componentMap_of_member:
  assumes inv: "scc_inv g cs" and i: "i < length cs" and x: "x \<in> set (scc_nodes (cs ! i))"
  shows "map_of (init_componentMap cs) x = Some i"
proof -
  from nth_emitted [OF i x] have "map_of (init_componentMap cs) x \<noteq> None"
    by (rule componentMap_defined)
  then obtain k where k: "map_of (init_componentMap cs) x = Some k" by auto
  from componentMap_member [OF inv k] have "k < length cs" "x \<in> set (scc_nodes (cs ! k))" by simp_all
  from scc_inv_unique [OF inv this(1) i this(2) x] k show ?thesis by simp
qed

lemma init_components_ids:
  assumes inv: "scc_inv g cs"
  shows "map cc_id (init_components cs) = [0 ..< length cs]"
    and "map members (init_components cs) = map scc_nodes cs"
    and "length (init_components cs) = length cs"
proof -
  have "map cc_id (init_components cs) = map scc_id cs"
    by (simp add: init_components_def comp_def)
  also have "map scc_id cs = [0 ..< length cs]"
    using scc_inv_fields(1) [OF inv] by (intro nth_equalityI) simp_all
  finally show "map cc_id (init_components cs) = [0 ..< length cs]" .
  show "map members (init_components cs) = map scc_nodes cs"
    by (simp add: init_components_def comp_def)
  show "length (init_components cs) = length cs" by (simp add: init_components_def)
qed

lemma componentById_fold:
  "k \<in> f ` set js \<or> map_of m0 k \<noteq> None \<Longrightarrow>
   map_of (fold (\<lambda>i m. AList.update (f i) i m) js m0) k \<noteq> None"
proof (induction js arbitrary: m0)
  case Nil
  then show ?case by simp
next
  case (Cons j js)
  from Cons.prems have "k \<in> f ` set js \<or> map_of (AList.update (f j) j m0) k \<noteq> None"
    by (auto simp: update_conv')
  from Cons.IH [OF this] show ?case by simp
qed

lemma componentById_defined:
  assumes ids: "map cc_id comps = [0 ..< length comps]" and k: "k < length comps"
  shows "map_of (init_componentById comps) k \<noteq> None"
proof -
  from k have "cc_id (comps ! k) = map cc_id comps ! k" by simp
  also from ids k have "\<dots> = k" by simp
  finally have "cc_id (comps ! k) = k" .
  with k have "k \<in> (\<lambda>i. cc_id (comps ! i)) ` set [0 ..< length comps]" by force
  then show ?thesis unfolding init_componentById_def by (intro componentById_fold) simp
qed

lemma init_cg_state_fold:
  "cg_components (fold (\<lambda>c s. s\<lparr>compAdj := AList.update (cc_id c) [] (compAdj s),
                    indeg := AList.update (cc_id c) 0 (indeg s)\<rparr>) comps s) = cg_components s"
  "compAdj (fold (\<lambda>c s. s\<lparr>compAdj := AList.update (cc_id c) [] (compAdj s),
                    indeg := AList.update (cc_id c) 0 (indeg s)\<rparr>) comps s)
     = fold (\<lambda>k m. AList.update k [] m) (map cc_id comps) (compAdj s)"
  "indeg (fold (\<lambda>c s. s\<lparr>compAdj := AList.update (cc_id c) [] (compAdj s),
                    indeg := AList.update (cc_id c) 0 (indeg s)\<rparr>) comps s)
     = fold (\<lambda>k m. AList.update k 0 m) (map cc_id comps) (indeg s)"
  by (induction comps arbitrary: s) simp_all

lemma init_cg_state_inv:
  assumes ids: "map cc_id comps = [0 ..< n]"
  shows "cg_inv n (init_cg_state comps)" and "cg_components (init_cg_state comps) = comps"
proof -
  let ?s = "init_cg_state comps"
  have ca: "compAdj ?s = fold (\<lambda>k m. AList.update k [] m) [0 ..< n] []"
    and ind: "indeg ?s = fold (\<lambda>k m. AList.update k 0 m) [0 ..< n] []"
    and cc: "cg_components ?s = comps"
    unfolding init_cg_state_def init_cg_state_fold ids by simp_all
  show "cg_components ?s = comps" by (rule cc)
  have k1: "map fst (compAdj ?s) = [0 ..< n]"
    unfolding ca using fold_update_keys [of "[0 ..< n]" "[]" "\<lambda>_. []"] by simp
  have k2: "map fst (indeg ?s) = [0 ..< n]"
    unfolding ind using fold_update_keys [of "[0 ..< n]" "[]" "\<lambda>_. 0"] by simp
  have a: "\<And>c. adj_of (compAdj ?s) c = []"
    unfolding ca adj_of_def fold_update_map_of [of "\<lambda>_. []"] by simp
  have d: "\<And>d. d < n \<Longrightarrow> map_of (indeg ?s) d = Some 0"
    unfolding ind fold_update_map_of [of "\<lambda>_. 0"] by simp
  show "cg_inv n ?s"
    unfolding cg_inv_def k1 k2 using a d by (auto simp: atLeast0LessThan)
qed


lemma cg_inv_cong: "compAdj s' = compAdj s \<Longrightarrow> indeg s' = indeg s \<Longrightarrow> cg_inv n s' = cg_inv n s"
  by (simp add: cg_inv_def)

lemma map_update_same:
  assumes "f c = f (cs ! i)"
  shows "map f (cs[i := c]) = map f cs"
proof (cases "i < length cs")
  case True
  have "map f (cs[i := c]) = (map f cs)[i := f (cs ! i)]" by (simp add: map_update assms)
  also from True have "\<dots> = (map f cs)[i := map f cs ! i]" by simp
  also have "\<dots> = map f cs" by (rule list_update_id)
  finally show ?thesis .
next
  case False
  then have "length cs \<le> i" by simp
  then show ?thesis by (simp add: list_update_beyond)
qed

lemma same_members_refl: "same_members cs cs"
  by (simp add: same_members_def)

lemma same_members_trans: "same_members a b \<Longrightarrow> same_members b c \<Longrightarrow> same_members a c"
  by (simp add: same_members_def)

lemma same_members_update:
  assumes "cc_id c = cc_id (cs ! i)" and "members c = members (cs ! i)"
  shows "same_members cs (cs[i := c])"
  unfolding same_members_def using map_update_same [of cc_id c cs i] map_update_same [of members c cs i] assms
  by simp

lemma cg_inv_key:
  assumes "cg_inv n s" and "c < n"
  shows "map_of (compAdj s) c = Some (adj_of (compAdj s) c)"
proof -
  from assms have "c \<in> set (map fst (compAdj s))" by (simp add: cg_inv_def)
  then have "map_of (compAdj s) c \<noteq> None" by (simp add: map_of_eq_None_iff)
  then show ?thesis by (auto simp: adj_of_def)
qed

lemma route_edge_internal:
  assumes "map_of cmap (edge_from e) = Some cf" and "map_of cmap (edge_to e) = Some cf"
    and "map_of byId cf = Some fi"
  shows "\<exists>c. route_edge cmap byId ec e s = Inr (s\<lparr>cg_components := (cg_components s)[fi := c]\<rparr>) \<and>
             cc_id c = cc_id (cg_components s ! fi) \<and> members c = members (cg_components s ! fi)"
proof -
  let ?cs = "cg_components s"
  let ?c1 = "(?cs ! fi)\<lparr>internalEdges := internalEdges (?cs ! fi) @ [e]\<rparr>"
  let ?c2 = "if ec (edge_id e) = Some Back then ?c1\<lparr>feedbackEdges := feedbackEdges ?c1 @ [e]\<rparr> else ?c1"
  have "route_edge cmap byId ec e s = Inr (s\<lparr>cg_components := ?cs[fi := ?c2]\<rparr>)"
    by (simp add: route_edge_def Let_def assms)
  moreover have "cc_id ?c2 = cc_id (?cs ! fi)" by simp
  moreover have "members ?c2 = members (?cs ! fi)" by simp
  ultimately show ?thesis by blast
qed

lemma route_edge_external:
  assumes "map_of cmap (edge_from e) = Some cf" and "map_of cmap (edge_to e) = Some ct"
    and "map_of byId cf = Some fi" and "map_of byId ct = Some ti" and "cf \<noteq> ct"
    and "map_of (compAdj s) cf = Some adj"
  shows "\<exists>cs'. same_members (cg_components s) cs' \<and>
           route_edge cmap byId ec e s =
             Inr (if ct \<in> set adj then s\<lparr>cg_components := cs'\<rparr>
                  else s\<lparr>cg_components := cs',
                         compAdj := AList.update cf (adj @ [ct]) (compAdj s),
                         indeg := AList.update ct
                             ((case map_of (indeg s) ct of None \<Rightarrow> 0 | Some d \<Rightarrow> d) + 1) (indeg s)\<rparr>)"
proof -
  let ?cs = "cg_components s"
  let ?cs1 = "?cs[fi := (?cs ! fi)\<lparr>exitEdges := exitEdges (?cs ! fi) @ [e]\<rparr>]"
  let ?cs2 = "?cs1[ti := (?cs1 ! ti)\<lparr>entryEdges := entryEdges (?cs1 ! ti) @ [e]\<rparr>]"
  have a: "same_members ?cs ?cs1" by (rule same_members_update) simp_all
  have b: "same_members ?cs1 ?cs2" by (rule same_members_update) simp_all
  have sm: "same_members ?cs ?cs2" by (rule same_members_trans [OF a b])
  have "route_edge cmap byId ec e s =
             Inr (if ct \<in> set adj then s\<lparr>cg_components := ?cs2\<rparr>
                  else s\<lparr>cg_components := ?cs2,
                         compAdj := AList.update cf (adj @ [ct]) (compAdj s),
                         indeg := AList.update ct
                             ((case map_of (indeg s) ct of None \<Rightarrow> 0 | Some d \<Rightarrow> d) + 1) (indeg s)\<rparr>)"
    by (simp add: route_edge_def Let_def assms)
  with sm show ?thesis by blast
qed

lemma cg_inv_add:
  assumes inv: "cg_inv n s" and cfn: "cf < n" and lt: "ct < cf"
    and new: "ct \<notin> set (adj_of (compAdj s) cf)"
    and ca: "compAdj s' = AList.update cf (adj_of (compAdj s) cf @ [ct]) (compAdj s)"
    and ind: "indeg s' = AList.update ct
                 ((case map_of (indeg s) ct of None \<Rightarrow> 0 | Some d \<Rightarrow> d) + 1) (indeg s)"
  shows "cg_inv n s'" and "\<And>c. adj_of (compAdj s') c = (if c = cf then adj_of (compAdj s) cf @ [ct] else adj_of (compAdj s) c)"
proof -
  from inv have k1: "set (map fst (compAdj s)) = {..<n}"
    and k2: "distinct (map fst (indeg s))" and k3: "set (map fst (indeg s)) = {..<n}"
    and a: "\<forall>c<n. distinct (adj_of (compAdj s) c) \<and> (\<forall>d \<in> set (adj_of (compAdj s) c). d < c)"
    and d: "\<forall>d<n. map_of (indeg s) d = Some (int (card {c. c < n \<and> d \<in> set (adj_of (compAdj s) c)}))"
    unfolding cg_inv_def by simp_all
  from lt cfn have ctn: "ct < n" by simp
  show adj: "\<And>c. adj_of (compAdj s') c = (if c = cf then adj_of (compAdj s) cf @ [ct] else adj_of (compAdj s) c)"
    unfolding ca adj_of_def by (simp add: update_conv')
  have k1': "set (map fst (compAdj s')) = {..<n}"
    unfolding ca using k1 cfn by (auto simp: update_keys)
  have k2': "distinct (map fst (indeg s'))" unfolding ind using k2 by (rule distinct_update)
  have k3': "set (map fst (indeg s')) = {..<n}"
    unfolding ind using k3 ctn by (auto simp: update_keys)
  have a': "\<forall>c<n. distinct (adj_of (compAdj s') c) \<and> (\<forall>d \<in> set (adj_of (compAdj s') c). d < c)"
  proof (intro allI impI)
    fix c assume c: "c < n"
    with a have o: "distinct (adj_of (compAdj s) c)" "\<forall>d \<in> set (adj_of (compAdj s) c). d < c" by blast+
    show "distinct (adj_of (compAdj s') c) \<and> (\<forall>d \<in> set (adj_of (compAdj s') c). d < c)"
    proof (cases "c = cf")
      case True
      with o new lt show ?thesis by (simp add: adj)
    next
      case False
      with o show ?thesis by (simp add: adj)
    qed
  qed
  have d': "\<forall>d<n. map_of (indeg s') d = Some (int (card {c. c < n \<and> d \<in> set (adj_of (compAdj s') c)}))"
  proof (intro allI impI)
    fix x assume x: "x < n"
    with d have o: "map_of (indeg s) x = Some (int (card {c. c < n \<and> x \<in> set (adj_of (compAdj s) c)}))"
      by blast
    show "map_of (indeg s') x = Some (int (card {c. c < n \<and> x \<in> set (adj_of (compAdj s') c)}))"
    proof (cases "x = ct")
      case True
      let ?A = "{c. c < n \<and> ct \<in> set (adj_of (compAdj s) c)}"
      have e: "{c. c < n \<and> x \<in> set (adj_of (compAdj s') c)} = insert cf ?A"
        using cfn True by (auto simp: adj)
      have f: "finite ?A" by simp
      have nin: "cf \<notin> ?A" using new by simp
      from card_insert_disjoint [OF f nin] have "card (insert cf ?A) = Suc (card ?A)" .
      with o True show ?thesis unfolding e ind by (simp add: update_conv')
    next
      case False
      then have e: "{c. c < n \<and> x \<in> set (adj_of (compAdj s') c)} = {c. c < n \<and> x \<in> set (adj_of (compAdj s) c)}"
        by (auto simp: adj)
      from False o show ?thesis unfolding e ind by (simp add: update_conv')
    qed
  qed
  show "cg_inv n s'" unfolding cg_inv_def
    by (intro conjI k1' k2' k3' a' d')
qed

lemma route_edge_step:
  assumes inv: "cg_inv n s"
    and cf: "map_of cmap (edge_from e) = Some cf" and ct: "map_of cmap (edge_to e) = Some ct"
    and cfn: "cf < n" and le: "ct \<le> cf"
    and bf: "map_of byId cf \<noteq> None" and bt: "map_of byId ct \<noteq> None"
  shows "\<exists>s'. route_edge cmap byId ec e s = Inr s' \<and> cg_inv n s' \<and>
           same_members (cg_components s) (cg_components s') \<and>
           (cf \<noteq> ct \<longrightarrow> ct \<in> set (adj_of (compAdj s') cf)) \<and>
           (\<forall>c. set (adj_of (compAdj s) c) \<subseteq> set (adj_of (compAdj s') c))"
proof -
  from bf bt obtain fi ti where fi: "map_of byId cf = Some fi" and ti: "map_of byId ct = Some ti"
    by auto
  show ?thesis
  proof (cases "cf = ct")
    case True
    from route_edge_internal [OF cf ct [folded True] fi, of ec s] obtain c where
      r: "route_edge cmap byId ec e s = Inr (s\<lparr>cg_components := (cg_components s)[fi := c]\<rparr>)"
      and c: "cc_id c = cc_id (cg_components s ! fi)" "members c = members (cg_components s ! fi)"
      by blast
    let ?s = "s\<lparr>cg_components := (cg_components s)[fi := c]\<rparr>"
    have i': "cg_inv n ?s" using inv cg_inv_cong [of ?s s n] by simp
    have sm: "same_members (cg_components s) (cg_components ?s)"
      using same_members_update [OF c] by simp
    have g: "\<forall>c. set (adj_of (compAdj s) c) \<subseteq> set (adj_of (compAdj ?s) c)" by simp
    from r i' sm g True show ?thesis by blast
  next
    case False
    with le have lt: "ct < cf" by simp
    let ?adj = "adj_of (compAdj s) cf"
    from cg_inv_key [OF inv cfn] have key: "map_of (compAdj s) cf = Some ?adj" .
    from route_edge_external [OF cf ct fi ti False key, of ec] obtain cs' where
      sm: "same_members (cg_components s) cs'"
      and r: "route_edge cmap byId ec e s =
             Inr (if ct \<in> set ?adj then s\<lparr>cg_components := cs'\<rparr>
                  else s\<lparr>cg_components := cs',
                         compAdj := AList.update cf (?adj @ [ct]) (compAdj s),
                         indeg := AList.update ct
                             ((case map_of (indeg s) ct of None \<Rightarrow> 0 | Some d \<Rightarrow> d) + 1) (indeg s)\<rparr>)"
      by blast
    show ?thesis
    proof (cases "ct \<in> set ?adj")
      case True
      let ?s = "s\<lparr>cg_components := cs'\<rparr>"
      from r True have r': "route_edge cmap byId ec e s = Inr ?s" by simp
      have i': "cg_inv n ?s" using inv cg_inv_cong [of ?s s n] by simp
      have sm': "same_members (cg_components s) (cg_components ?s)" using sm by simp
      have m: "cf \<noteq> ct \<longrightarrow> ct \<in> set (adj_of (compAdj ?s) cf)" using True by simp
      have g: "\<forall>c. set (adj_of (compAdj s) c) \<subseteq> set (adj_of (compAdj ?s) c)" by simp
      from r' i' sm' m g show ?thesis by blast
    next
      case new: False
      let ?s = "s\<lparr>cg_components := cs',
                         compAdj := AList.update cf (?adj @ [ct]) (compAdj s),
                         indeg := AList.update ct
                             ((case map_of (indeg s) ct of None \<Rightarrow> 0 | Some d \<Rightarrow> d) + 1) (indeg s)\<rparr>"
      from r new have r': "route_edge cmap byId ec e s = Inr ?s" by simp
      have ca: "compAdj ?s = AList.update cf (?adj @ [ct]) (compAdj s)" by simp
      have ind: "indeg ?s = AList.update ct
                 ((case map_of (indeg s) ct of None \<Rightarrow> 0 | Some d \<Rightarrow> d) + 1) (indeg s)" by simp
      note n = cg_inv_add [OF inv cfn lt new ca ind]
      have sm': "same_members (cg_components s) (cg_components ?s)" using sm by simp
      have m: "cf \<noteq> ct \<longrightarrow> ct \<in> set (adj_of (compAdj ?s) cf)"
        unfolding n(2) by simp
      have g: "\<forall>c. set (adj_of (compAdj s) c) \<subseteq> set (adj_of (compAdj ?s) c)"
        unfolding n(2) by auto
      from r' n(1) sm' m g show ?thesis by blast
    qed
  qed
qed


lemma route_edges_run:
  "cg_inv n s \<Longrightarrow> \<forall>e \<in> set es. edge_ok cmap byId n e \<Longrightarrow>
   \<exists>s'. route_edges cmap byId ec es s = Inr s' \<and> cg_inv n s' \<and>
         same_members (cg_components s) (cg_components s') \<and>
         (\<forall>e \<in> set es. routed cmap e s') \<and>
         (\<forall>c. set (adj_of (compAdj s) c) \<subseteq> set (adj_of (compAdj s') c))"
proof (induction es arbitrary: s)
  case Nil
  then show ?case by (simp add: same_members_refl)
next
  case (Cons e es)
  from Cons.prems(2) have "edge_ok cmap byId n e" and rest: "\<forall>e \<in> set es. edge_ok cmap byId n e"
    by simp_all
  then obtain cf ct where cf: "map_of cmap (edge_from e) = Some cf"
    and ct: "map_of cmap (edge_to e) = Some ct" and cfn: "cf < n" and le: "ct \<le> cf"
    and bf: "map_of byId cf \<noteq> None" and bt: "map_of byId ct \<noteq> None"
    unfolding edge_ok_def by blast
  from route_edge_step [OF Cons.prems(1) cf ct cfn le bf bt, of ec] obtain s1 where
    r1: "route_edge cmap byId ec e s = Inr s1" and i1: "cg_inv n s1"
    and m1: "same_members (cg_components s) (cg_components s1)"
    and a1: "cf \<noteq> ct \<longrightarrow> ct \<in> set (adj_of (compAdj s1) cf)"
    and g1: "\<forall>c. set (adj_of (compAdj s) c) \<subseteq> set (adj_of (compAdj s1) c)" by blast
  from Cons.IH [OF i1 rest] obtain s' where
    r': "route_edges cmap byId ec es s1 = Inr s'" and i': "cg_inv n s'"
    and m': "same_members (cg_components s1) (cg_components s')"
    and a': "\<forall>e \<in> set es. routed cmap e s'"
    and g': "\<forall>c. set (adj_of (compAdj s1) c) \<subseteq> set (adj_of (compAdj s') c)" by blast
  have r: "route_edges cmap byId ec (e # es) s = Inr s'" by (simp add: r1 r')
  have m: "same_members (cg_components s) (cg_components s')" by (rule same_members_trans [OF m1 m'])
  have "routed cmap e s'"
    unfolding routed_def
  proof (intro allI impI)
    fix cf' ct' assume h: "map_of cmap (edge_from e) = Some cf' \<and> map_of cmap (edge_to e) = Some ct' \<and> cf' \<noteq> ct'"
    with cf ct have "cf' = cf" "ct' = ct" "cf \<noteq> ct" by simp_all
    with a1 g' show "ct' \<in> set (adj_of (compAdj s') cf')" by blast
  qed
  with a' have a: "\<forall>x \<in> set (e # es). routed cmap x s'" by simp
  from g1 g' have g: "\<forall>c. set (adj_of (compAdj s) c) \<subseteq> set (adj_of (compAdj s') c)" by blast
  from r i' m a g show ?case by blast
qed

lemma comp_while_run:
  assumes "kahn_inv (adj_of cAdj) V inD q head" and "V \<subseteq> set (map fst cAdj)"
  shows "\<exists>inD' q' ys. kahn_inv (adj_of cAdj) V inD' q' (length q') \<and> q' = q @ ys
           \<and> comp_while cAdj inD q head res = Inr (res @ drop head q')"
  using assms
proof (induction cAdj inD q head res rule: comp_while.induct)
  case (1 cAdj inDegree q head order)
  show ?case
  proof (cases "head < length q")
    case False
    with "1.prems" have hl: "head = length q" by (simp add: kahn_inv_def)
    from False have "comp_while cAdj inDegree q head order = Inr order"
      by (simp only: comp_while.simps [of cAdj inDegree q head order] if_False)
    with "1.prems" hl show ?thesis
      by (intro exI [of _ inDegree] exI [of _ q] exI [of _ "[]"]) simp
  next
    case True
    let ?u = "q ! head"
    from "1.prems"(1) True have "?u \<in> V" by (auto simp: kahn_inv_def)
    with "1.prems"(2) have "map_of cAdj ?u \<noteq> None" by (auto simp: map_of_eq_None_iff)
    then have key: "map_of cAdj ?u = Some (adj_of cAdj ?u)" by (auto simp: adj_of_def)
    let ?st = "kahn_for (adj_of cAdj ?u) inDegree q"
    from kahn_inv_step [OF "1.prems"(1) True]
    have inv': "kahn_inv (adj_of cAdj) V (fst ?st) (snd ?st) (head + 1)" by simp
    from "1.IH" [OF True refl key refl inv' "1.prems"(2)] obtain inD' q' ys where
      f: "kahn_inv (adj_of cAdj) V inD' q' (length q')" and ext: "q' = snd ?st @ ys"
      and r: "comp_while cAdj (fst ?st) (snd ?st) (head + 1) (order @ [?u]) = Inr ((order @ [?u]) @ drop (head + 1) q')"
      by blast
    from kahn_for_queue_grows obtain zs where zs: "snd ?st = q @ zs" by blast
    with ext have ext': "q' = q @ (zs @ ys)" by simp
    with True have "drop head q' = ?u # drop (head + 1) q'"
      by (simp add: Cons_nth_drop_Suc [symmetric] nth_append)
    with r have e1: "comp_while cAdj (fst ?st) (snd ?st) (head + 1) (order @ [?u]) = Inr (order @ drop head q')"
      by simp
    have e2: "comp_while cAdj inDegree q head order
        = comp_while cAdj (fst ?st) (snd ?st) (head + 1) (order @ [?u])"
      using True
      by (simp only: comp_while.simps [of cAdj inDegree q head order] if_True Let_def key option.case)
    have e3: "comp_while cAdj inDegree q head order = Inr (order @ drop head q')"
      by (simp only: e2 e1)
    from f ext' e3 show ?thesis
      by (intro exI [of _ inD'] exI [of _ q'] exI [of _ "zs @ ys"] conjI)
  qed
qed

lemma edges_ok:
  assumes wf: "wf_graph (g :: ('nm, 'em) DirectedGraph)" and inv: "scc_inv g cs"
    and cov: "emitted cs = set (map fst (nodes g))"
  shows "\<forall>e \<in> set (map snd (edges g)).
           edge_ok (init_componentMap cs)
             (init_componentById (init_components cs :: 'em CondensationComponent list)) (length cs) e"
proof
  fix e assume "e \<in> set (map snd (edges g))"
  then have "e \<in> snd ` set (edges g)" by simp
  moreover from wf have "\<forall>e \<in> snd ` set (edges g). edge_to e \<in> set (getSuccessors g (edge_from e))"
    by (simp add: wf_graph_def)
  ultimately have su: "edge_to e \<in> set (getSuccessors g (edge_from e))" by blast
  from wf_graph_succ(3) [OF wf su] cov have "edge_from e \<in> emitted cs" by simp
  from emitted_nth [OF this] obtain i where i: "i < length cs" "edge_from e \<in> set (scc_nodes (cs ! i))"
    by blast
  from scc_inv_fields(2) [OF inv] i su obtain j where j: "j \<le> i" "edge_to e \<in> set (scc_nodes (cs ! j))"
    by blast
  from j(1) i(1) have jl: "j < length cs" by simp
  note ids = init_components_ids [OF inv]
  have ids': "map cc_id (init_components cs :: 'em CondensationComponent list)
      = [0 ..< length (init_components cs :: 'em CondensationComponent list)]"
    by (simp only: ids(1) ids(3))
  have bi: "map_of (init_componentById (init_components cs :: 'em CondensationComponent list)) i \<noteq> None"
    by (rule componentById_defined [OF ids']) (simp add: ids(3) i(1))
  have bj: "map_of (init_componentById (init_components cs :: 'em CondensationComponent list)) j \<noteq> None"
    by (rule componentById_defined [OF ids']) (simp add: ids(3) jl)
  note mi = componentMap_of_member [OF inv i]
  note mj = componentMap_of_member [OF inv jl j(2)]
  from mi mj i(1) j(1) bi bj
  have "map_of (init_componentMap cs) (edge_from e) = Some i \<and>
        map_of (init_componentMap cs) (edge_to e) = Some j \<and> i < length cs \<and> j \<le> i \<and>
        map_of (init_componentById (init_components cs :: 'em CondensationComponent list)) i \<noteq> None \<and>
        map_of (init_componentById (init_components cs :: 'em CondensationComponent list)) j \<noteq> None"
    by (intro conjI)
  then show "edge_ok (init_componentMap cs)
      (init_componentById (init_components cs :: 'em CondensationComponent list)) (length cs) e"
    unfolding edge_ok_def by (intro exI [of _ i] exI [of _ j])
qed


lemma condensation_run:
  assumes wf: "wf_graph (g :: ('nm, 'em) DirectedGraph)"
  shows "\<exists>cs (s :: 'em cg_state) inD q.
           findSCCs g = Some cs \<and> scc_inv g cs \<and> emitted cs = set (map fst (nodes g)) \<and>
           buildCondensationGraph g None ec =
             Some (Inr \<lparr>components = cg_components s, componentMap = init_componentMap cs,
                        topologicalOrder = q\<rparr>) \<and>
           same_members (init_components cs) (cg_components s) \<and>
           (\<forall>e \<in> set (map snd (edges g)). routed (init_componentMap cs) e s) \<and>
           kahn_inv (adj_of (compAdj s)) {..<length cs} inD q (length q) \<and>
           set q = {..<length cs}"
proof -
  from findSCCs_result [OF wf] obtain cs where f: "findSCCs g = Some cs" and inv: "scc_inv g cs"
    and cov: "emitted cs = set (map fst (nodes g))" by blast
  let ?n = "length cs"
  let ?cmap = "init_componentMap cs"
  let ?comps = "init_components cs :: 'em CondensationComponent list"
  let ?byId = "init_componentById ?comps"
  let ?s0 = "init_cg_state ?comps"
  note ids = init_components_ids [OF inv]
  have i0: "cg_inv ?n ?s0" and c0: "cg_components ?s0 = ?comps"
    by (rule init_cg_state_inv [OF ids(1)])+
  from route_edges_run [OF i0 edges_ok [OF wf inv cov], of ec] obtain s where
    r: "route_edges ?cmap ?byId ec (map snd (edges g)) ?s0 = Inr s" and i: "cg_inv ?n s"
    and m: "same_members (cg_components ?s0) (cg_components s)"
    and a: "\<forall>e \<in> set (map snd (edges g)). routed ?cmap e s" by blast
  let ?sc = "adj_of (compAdj s)"
  let ?V = "{..<?n}"
  from i have k1: "set (map fst (compAdj s)) = ?V"
    and k2: "distinct (map fst (indeg s))" and k3: "set (map fst (indeg s)) = ?V"
    and ad: "\<forall>c<?n. distinct (?sc c) \<and> (\<forall>d \<in> set (?sc c). d < c)"
    and dg: "\<forall>d<?n. map_of (indeg s) d = Some (int (card {c. c < ?n \<and> d \<in> set (?sc c)}))"
    unfolding cg_inv_def by simp_all
  have fin: "finite ?V" by simp
  have scV: "\<forall>u \<in> ?V. distinct (?sc u) \<and> set (?sc u) \<subseteq> ?V"
  proof
    fix u assume "u \<in> ?V"
    then have u: "u < ?n" by simp
    with ad have "distinct (?sc u)" and "\<forall>d \<in> set (?sc u). d < u" by blast+
    with u show "distinct (?sc u) \<and> set (?sc u) \<subseteq> ?V" by auto
  qed
  have deg: "\<forall>v \<in> ?V. map_of (indeg s) v = Some (int (card {u \<in> ?V. v \<in> set (?sc u)}))"
  proof
    fix v assume "v \<in> ?V"
    then have "v < ?n" by simp
    with dg have "map_of (indeg s) v = Some (int (card {c. c < ?n \<and> v \<in> set (?sc c)}))" by blast
    then show "map_of (indeg s) v = Some (int (card {u \<in> ?V. v \<in> set (?sc u)}))" by simp
  qed
  from kahn_inv_init [OF fin scV k2 k3 deg]
  have ki: "kahn_inv ?sc ?V (indeg s) (zero_degree (indeg s)) 0" .
  have sub: "?V \<subseteq> set (map fst (compAdj s))" using k1 by simp
  from comp_while_run [OF ki sub, of "[]"] obtain inD q where
    kf: "kahn_inv ?sc ?V inD q (length q)"
    and cw: "comp_while (compAdj s) (indeg s) (zero_degree (indeg s)) 0 [] = Inr q" by auto
  have ac: "acyclic {(u, v). u \<in> ?V \<and> v \<in> set (?sc u)}"
  proof (rule acyclicI_order [where f = "\<lambda>x. x"])
    fix a b assume "(a, b) \<in> {(u, v). u \<in> ?V \<and> v \<in> set (?sc u)}"
    then have "a < ?n" "b \<in> set (?sc a)" by simp_all
    with ad show "b < a" by blast
  qed
  from kahn_final_complete [OF kf ac] have sq: "set q = ?V" .
  have b: "buildCondensationGraph g None ec =
             Some (Inr \<lparr>components = cg_components s, componentMap = ?cmap, topologicalOrder = q\<rparr>)"
    by (simp add: buildCondensationGraph_def f Let_def r cw)
  from m c0 have m': "same_members ?comps (cg_components s)" by simp
  from f inv cov b m' a kf sq show ?thesis by blast
qed

text \<open>
  C2: for every engine built through the public interface, \<open>buildCondensationGraph()\<close>
  (no precomputed components; the edge classification, which only fills the feedback
  buckets, is arbitrary) returns a condensation graph whose \<open>topologicalOrder\<close>
  contains the id of every component exactly once; every node lies in a component, and
  for every edge whose endpoints lie in components with different ids, the id of the
  source's component stands before the id of the target's component in that order.
\<close>

theorem condensation_topologicalOrder:
  assumes "built g"
  shows "\<exists>cg. buildCondensationGraph g None edgeClass = Some (Inr cg) \<and>
           distinct (topologicalOrder cg) \<and>
           set (topologicalOrder cg) = cc_id ` set (components cg) \<and>
           length (topologicalOrder cg) = length (components cg) \<and>
           (\<forall>x \<in> set (map fst (nodes g)). \<exists>c \<in> set (components cg). x \<in> set (members c)) \<and>
           (\<forall>e \<in> set (map snd (edges g)). \<forall>c1 \<in> set (components cg). \<forall>c2 \<in> set (components cg).
              edge_from e \<in> set (members c1) \<and> edge_to e \<in> set (members c2) \<and> cc_id c1 \<noteq> cc_id c2
              \<longrightarrow> (\<exists>i j. i < j \<and> j < length (topologicalOrder cg) \<and>
                     topologicalOrder cg ! i = cc_id c1 \<and> topologicalOrder cg ! j = cc_id c2))"
proof -
  from assms have wf: "wf_graph g" by (rule built_wf_graph)
  from condensation_run [OF wf, of edgeClass] obtain cs s inD q where
    inv: "scc_inv g cs" and cov: "emitted cs = set (map fst (nodes g))"
    and b: "buildCondensationGraph g None edgeClass =
             Some (Inr \<lparr>components = cg_components s, componentMap = init_componentMap cs,
                        topologicalOrder = q\<rparr>)"
    and m: "same_members (init_components cs) (cg_components s)"
    and a: "\<forall>e \<in> set (map snd (edges g)). routed (init_componentMap cs) e s"
    and kf: "kahn_inv (adj_of (compAdj s)) {..<length cs} inD q (length q)"
    and sq: "set q = {..<length cs}" by blast
  let ?n = "length cs"
  let ?cg = "\<lparr>components = cg_components s, componentMap = init_componentMap cs,
              topologicalOrder = q\<rparr>"
  let ?cs' = "cg_components s"
  note ids = init_components_ids [OF inv]
  from m ids have idm: "map cc_id ?cs' = [0 ..< ?n]" and mem: "map members ?cs' = map scc_nodes cs"
    unfolding same_members_def by simp_all
  from arg_cong [OF idm, of length] have len: "length ?cs' = ?n" by simp
  have nth_id: "\<And>i. i < ?n \<Longrightarrow> cc_id (?cs' ! i) = i"
  proof -
    fix i assume i: "i < ?n"
    with len have "cc_id (?cs' ! i) = map cc_id ?cs' ! i" by simp
    also from i have "\<dots> = i" unfolding idm by simp
    finally show "cc_id (?cs' ! i) = i" .
  qed
  have nth_mem: "\<And>i. i < ?n \<Longrightarrow> members (?cs' ! i) = scc_nodes (cs ! i)"
  proof -
    fix i assume i: "i < ?n"
    with len have "members (?cs' ! i) = map members ?cs' ! i" by simp
    also from i have "\<dots> = scc_nodes (cs ! i)" unfolding mem by simp
    finally show "members (?cs' ! i) = scc_nodes (cs ! i)" .
  qed
  from kf have dq: "distinct q" by (simp add: kahn_inv_def)
  have "cc_id ` set ?cs' = set (map cc_id ?cs')" by simp
  also have "\<dots> = {..<?n}" unfolding idm by (simp add: atLeast0LessThan)
  finally have ids_set: "cc_id ` set ?cs' = {..<?n}" .
  from distinct_card [OF dq] sq have lq: "length q = ?n" by simp
  have cover: "\<forall>x \<in> set (map fst (nodes g)). \<exists>c \<in> set ?cs'. x \<in> set (members c)"
  proof
    fix x assume "x \<in> set (map fst (nodes g))"
    with cov have "x \<in> emitted cs" by simp
    from emitted_nth [OF this] obtain i where i: "i < ?n" "x \<in> set (scc_nodes (cs ! i))" by blast
    from i(1) len have "?cs' ! i \<in> set ?cs'" by simp
    moreover from i nth_mem have "x \<in> set (members (?cs' ! i))" by simp
    ultimately show "\<exists>c \<in> set ?cs'. x \<in> set (members c)" by blast
  qed
  have ord: "\<forall>e \<in> set (map snd (edges g)). \<forall>c1 \<in> set ?cs'. \<forall>c2 \<in> set ?cs'.
              edge_from e \<in> set (members c1) \<and> edge_to e \<in> set (members c2) \<and> cc_id c1 \<noteq> cc_id c2
              \<longrightarrow> (\<exists>i j. i < j \<and> j < length q \<and> q ! i = cc_id c1 \<and> q ! j = cc_id c2)"
  proof (intro ballI impI)
    fix e c1 c2
    assume e: "e \<in> set (map snd (edges g))" and c1: "c1 \<in> set ?cs'" and c2: "c2 \<in> set ?cs'"
      and h: "edge_from e \<in> set (members c1) \<and> edge_to e \<in> set (members c2) \<and> cc_id c1 \<noteq> cc_id c2"
    from c1 len obtain i where i: "i < ?n" "?cs' ! i = c1" by (auto simp: in_set_conv_nth)
    from c2 len obtain j where j: "j < ?n" "?cs' ! j = c2" by (auto simp: in_set_conv_nth)
    from nth_id [OF i(1)] i(2) have id1: "cc_id c1 = i" by simp
    from nth_id [OF j(1)] j(2) have id2: "cc_id c2 = j" by simp
    from nth_mem [OF i(1)] i(2) h have fi: "edge_from e \<in> set (scc_nodes (cs ! i))" by simp
    from nth_mem [OF j(1)] j(2) h have tj: "edge_to e \<in> set (scc_nodes (cs ! j))" by simp
    note mi = componentMap_of_member [OF inv i(1) fi]
    note mj = componentMap_of_member [OF inv j(1) tj]
    from h id1 id2 have ne: "i \<noteq> j" by simp
    from a e have "routed (init_componentMap cs) e s" by blast
    with mi mj ne have adj: "j \<in> set (adj_of (compAdj s) i)" unfolding routed_def by blast
    from i(1) have iV: "i \<in> {..<?n}" by simp
    from j(1) sq have jq: "j \<in> set q" by simp
    from kahn_final_order [OF kf iV jq adj] id1 id2
    show "\<exists>i j. i < j \<and> j < length q \<and> q ! i = cc_id c1 \<and> q ! j = cc_id c2" by simp
  qed
  have "buildCondensationGraph g None edgeClass = Some (Inr ?cg) \<and>
           distinct (topologicalOrder ?cg) \<and>
           set (topologicalOrder ?cg) = cc_id ` set (components ?cg) \<and>
           length (topologicalOrder ?cg) = length (components ?cg) \<and>
           (\<forall>x \<in> set (map fst (nodes g)). \<exists>c \<in> set (components ?cg). x \<in> set (members c)) \<and>
           (\<forall>e \<in> set (map snd (edges g)). \<forall>c1 \<in> set (components ?cg). \<forall>c2 \<in> set (components ?cg).
              edge_from e \<in> set (members c1) \<and> edge_to e \<in> set (members c2) \<and> cc_id c1 \<noteq> cc_id c2
              \<longrightarrow> (\<exists>i j. i < j \<and> j < length (topologicalOrder ?cg) \<and>
                     topologicalOrder ?cg ! i = cc_id c1 \<and> topologicalOrder ?cg ! j = cc_id c2))"
    using b dq sq ids_set lq len cover ord by simp
  then show ?thesis by (rule exI)
qed

text \<open>The engine with the single edge from A to B: the component of A comes first.\<close>

lemma gAB_edges:
  "map snd (edges gAB) = [\<lparr>edge_id = ''1:A|1:B'', edge_from = ''A'', edge_to = ''B'', edge_metadata = None\<rparr>]"
  by (simp add: gAB_def addNode_def addEdge_def new_graph_def has_def Let_def getEdgeKey_A_B
      validateEdgeInvariants_def set_has_def set_add_def)

lemma condensation_gAB:
  "buildCondensationGraph gAB None [''1:A|1:B'' \<mapsto> Tree] =
     Some (Inr \<lparr>components =
        [\<lparr>cc_id = 0, members = [''B''], isLoop = False,
          entryEdges = [\<lparr>edge_id = ''1:A|1:B'', edge_from = ''A'', edge_to = ''B'', edge_metadata = None\<rparr>],
          exitEdges = [], internalEdges = [], feedbackEdges = []\<rparr>,
         \<lparr>cc_id = 1, members = [''A''], isLoop = False, entryEdges = [],
          exitEdges = [\<lparr>edge_id = ''1:A|1:B'', edge_from = ''A'', edge_to = ''B'', edge_metadata = None\<rparr>],
          internalEdges = [], feedbackEdges = []\<rparr>],
        componentMap = [(''B'', 0), (''A'', 1)], topologicalOrder = [1, 0]\<rparr>)"
  by (simp add: buildCondensationGraph_def findSCCs_gAB gAB_edges init_componentMap_def
      init_components_def init_componentById_def init_cg_state_def route_edge_def Let_def
      zero_degree_def comp_while.simps)

theorem condensation_topologicalOrder_witness:
  "built gAB \<and>
   buildCondensationGraph gAB None [''1:A|1:B'' \<mapsto> Tree] =
     Some (Inr \<lparr>components =
        [\<lparr>cc_id = 0, members = [''B''], isLoop = False,
          entryEdges = [\<lparr>edge_id = ''1:A|1:B'', edge_from = ''A'', edge_to = ''B'', edge_metadata = None\<rparr>],
          exitEdges = [], internalEdges = [], feedbackEdges = []\<rparr>,
         \<lparr>cc_id = 1, members = [''A''], isLoop = False, entryEdges = [],
          exitEdges = [\<lparr>edge_id = ''1:A|1:B'', edge_from = ''A'', edge_to = ''B'', edge_metadata = None\<rparr>],
          internalEdges = [], feedbackEdges = []\<rparr>],
        componentMap = [(''B'', 0), (''A'', 1)], topologicalOrder = [1, 0]\<rparr>) \<and>
   [1, 0 :: nat] ! 0 = 1 \<and> [1, 0 :: nat] ! 1 = 0"
  using condensation_topologicalOrder [OF gAB_built, of "[''1:A|1:B'' \<mapsto> Tree]"]
    gAB_built condensation_gAB
  by simp

text \<open>
  The components that the caller passes in are not checked. Passing the engine's own
  \<open>findSCCs\<close> result gives the same graph as passing nothing; passing a list that
  splits the cycle of \<open>gABA\<close> into two components gives an empty order.
\<close>

lemma condensation_precomputed_own:
  "findSCCs g = Some cs \<Longrightarrow>
   buildCondensationGraph g (Some cs) edgeClass = buildCondensationGraph g None edgeClass"
  by (simp add: buildCondensationGraph_def)

lemma getEdgeKey_B_A: "getEdgeKey ''B'' ''A'' = ''1:B|1:A''"
  using digit_char_1 by (simp add: getEdgeKey_def show_nat_digit)

lemma gABA_edges:
  "map snd (edges gABA) =
     [\<lparr>edge_id = ''1:A|1:B'', edge_from = ''A'', edge_to = ''B'', edge_metadata = None\<rparr>,
      \<lparr>edge_id = ''1:B|1:A'', edge_from = ''B'', edge_to = ''A'', edge_metadata = None\<rparr>]"
  by (simp add: gABA_def addNode_def addEdge_def new_graph_def has_def Let_def getEdgeKey_A_B
      getEdgeKey_B_A validateEdgeInvariants_def set_has_def set_add_def)

lemma condensation_precomputed_split:
  "map_option (map_sum id topologicalOrder)
     (buildCondensationGraph gABA
        (Some [\<lparr>scc_id = 0, scc_nodes = [''A''], isAcyclic = True\<rparr>,
               \<lparr>scc_id = 1, scc_nodes = [''B''], isAcyclic = True\<rparr>]) Map.empty)
   = Some (Inr [])"
  by (simp add: buildCondensationGraph_def gABA_edges init_componentMap_def
      init_components_def init_componentById_def init_cg_state_def route_edge_def Let_def
      zero_degree_def comp_while.simps)

section \<open>Edge identifiers under multi-edge mode\<close>

lemma addEdge_accept:
  assumes "has (nodes g) a" and "has (nodes g) b"
    and "allowSelfLoops (options g) \<or> a \<noteq> b"
    and "allowMultiEdges (options g) \<or> \<not> has (edgeIndex g) (getEdgeKey a b)"
  shows "\<exists>eid g5. eid = (if allowMultiEdges (options g)
                then getEdgeKey a b @ ''#'' @ show_nat (nextEdgeId g) else getEdgeKey a b)
     \<and> snd (addEdge g a b md) = g5
     \<and> (fst (addEdge g a b md) = Inr eid \<or> (\<exists>e. fst (addEdge g a b md) = Inl e))
     \<and> nextEdgeId g5 = (if allowMultiEdges (options g) then nextEdgeId g + 1 else nextEdgeId g)
     \<and> options g5 = options g
     \<and> edges g5 = AList.update eid \<lparr>edge_id = eid, edge_from = a, edge_to = b, edge_metadata = md\<rparr> (edges g)
     \<and> edgeIndex g5 = AList.update (getEdgeKey a b)
          (set_add (case map_of (edgeIndex g) (getEdgeKey a b) of None \<Rightarrow> [] | Some bk \<Rightarrow> bk) eid)
          (edgeIndex g)"
proof -
  define edgeId where "edgeId = (if allowMultiEdges (options g)
      then getEdgeKey a b @ ''#'' @ show_nat (nextEdgeId g) else getEdgeKey a b)"
  define g1 where "g1 = (if allowMultiEdges (options g) then g\<lparr>nextEdgeId := nextEdgeId g + 1\<rparr> else g)"
  define g2 where "g2 = g1\<lparr>edges := AList.update edgeId
      \<lparr>edge_id = edgeId, edge_from = a, edge_to = b, edge_metadata = md\<rparr> (edges g1)\<rparr>"
  define g3 where "g3 = g2\<lparr>edgeIndex := AList.update (getEdgeKey a b)
      (set_add (case map_of (edgeIndex g2) (getEdgeKey a b) of None \<Rightarrow> [] | Some b \<Rightarrow> b) edgeId)
      (edgeIndex g2)\<rparr>"
  define g4 where "g4 = (case map_of (adjacencyList g3) a of
      None \<Rightarrow> g3
    | Some fromAdj \<Rightarrow> g3\<lparr>adjacencyList := AList.update a (set_add fromAdj b) (adjacencyList g3)\<rparr>)"
  define g5 where "g5 = (case map_of (reverseAdjacencyList g4) b of
      None \<Rightarrow> g4
    | Some toRev \<Rightarrow> g4\<lparr>reverseAdjacencyList := AList.update b (set_add toRev a) (reverseAdjacencyList g4)\<rparr>)"
  have unfold: "addEdge g a b md =
      (if validateOnConstruction (options g)
       then (case validateEdgeInvariants g5 a b of
               Some e \<Rightarrow> (Inl e, g5) | None \<Rightarrow> (Inr edgeId, g5))
       else (Inr edgeId, g5))"
  proof -
    have c3: "(\<not> allowSelfLoops (options g) \<and> a = b) = False" using assms(3) by auto
    have c4: "(\<not> allowMultiEdges (options g) \<and> has (edgeIndex g) (getEdgeKey a b)) = False"
      using assms(4) by auto
    show ?thesis
      unfolding addEdge_def Let_def g5_def g4_def g3_def g2_def g1_def edgeId_def
      by (simp only: assms(1,2) c3 c4 if_False if_True simp_thms)
  qed
  have s: "snd (addEdge g a b md) = g5"
    unfolding unfold by (simp split: option.split)
  have f: "fst (addEdge g a b md) = Inr edgeId \<or> (\<exists>e. fst (addEdge g a b md) = Inl e)"
    unfolding unfold by (simp split: option.split)
  have n1: "nextEdgeId g1 = (if allowMultiEdges (options g) then nextEdgeId g + 1 else nextEdgeId g)"
    and o1: "options g1 = options g" and e1: "edges g1 = edges g" and i1: "edgeIndex g1 = edgeIndex g"
    by (simp_all add: g1_def)
  have n3: "nextEdgeId g3 = nextEdgeId g1" and o3: "options g3 = options g1"
    and e3: "edges g3 = AList.update edgeId
      \<lparr>edge_id = edgeId, edge_from = a, edge_to = b, edge_metadata = md\<rparr> (edges g1)"
    and i3: "edgeIndex g3 = AList.update (getEdgeKey a b)
      (set_add (case map_of (edgeIndex g1) (getEdgeKey a b) of None \<Rightarrow> [] | Some b \<Rightarrow> b) edgeId)
      (edgeIndex g1)"
    by (simp_all add: g3_def g2_def)
  have n4: "nextEdgeId g4 = nextEdgeId g3" and o4: "options g4 = options g3"
    and e4: "edges g4 = edges g3" and i4: "edgeIndex g4 = edgeIndex g3"
    by (simp_all add: g4_def split: option.split)
  have n5: "nextEdgeId g5 = nextEdgeId g4" and o5: "options g5 = options g4"
    and e5: "edges g5 = edges g4" and i5: "edgeIndex g5 = edgeIndex g4"
    by (simp_all add: g5_def split: option.split)
  show ?thesis
    apply (rule exI [of _ edgeId])
    apply (rule exI [of _ g5])
    apply (intro conjI)
          apply (rule edgeId_def)
         apply (rule s)
        apply (rule f)
       apply (simp only: n5 n4 n3 n1)
      apply (simp only: o5 o4 o3 o1)
     apply (simp only: e5 e4 e3 e1)
    apply (simp only: i5 i4 i3 i1)
    done
qed

lemma addEdge_success:
  assumes ok: "addEdge g a b md = (Inr eid, g')"
  shows "eid = (if allowMultiEdges (options g)
                then getEdgeKey a b @ ''#'' @ show_nat (nextEdgeId g) else getEdgeKey a b)"
    and "nextEdgeId g' = (if allowMultiEdges (options g) then nextEdgeId g + 1 else nextEdgeId g)"
    and "edges g' = AList.update eid \<lparr>edge_id = eid, edge_from = a, edge_to = b, edge_metadata = md\<rparr> (edges g)"
    and "edgeIndex g' = AList.update (getEdgeKey a b)
          (set_add (case map_of (edgeIndex g) (getEdgeKey a b) of None \<Rightarrow> [] | Some bk \<Rightarrow> bk) eid)
          (edgeIndex g)"
proof -
  have acc: "has (nodes g) a \<and> has (nodes g) b
      \<and> (allowSelfLoops (options g) \<or> a \<noteq> b)
      \<and> (allowMultiEdges (options g) \<or> \<not> has (edgeIndex g) (getEdgeKey a b))"
  proof (rule ccontr)
    assume n: "\<not> ?thesis"
    from addEdge_rejects [OF n, of md] ok show False by simp
  qed
  from acc have c: "has (nodes g) a" "has (nodes g) b" "allowSelfLoops (options g) \<or> a \<noteq> b"
    "allowMultiEdges (options g) \<or> \<not> has (edgeIndex g) (getEdgeKey a b)" by simp_all
  from addEdge_accept [OF c, of md] obtain eid0 g5 where
    e0: "eid0 = (if allowMultiEdges (options g)
                then getEdgeKey a b @ ''#'' @ show_nat (nextEdgeId g) else getEdgeKey a b)"
    and s: "snd (addEdge g a b md) = g5"
    and f: "fst (addEdge g a b md) = Inr eid0 \<or> (\<exists>e. fst (addEdge g a b md) = Inl e)"
    and n: "nextEdgeId g5 = (if allowMultiEdges (options g) then nextEdgeId g + 1 else nextEdgeId g)"
    and e: "edges g5 = AList.update eid0 \<lparr>edge_id = eid0, edge_from = a, edge_to = b, edge_metadata = md\<rparr> (edges g)"
    and i: "edgeIndex g5 = AList.update (getEdgeKey a b)
          (set_add (case map_of (edgeIndex g) (getEdgeKey a b) of None \<Rightarrow> [] | Some bk \<Rightarrow> bk) eid0)
          (edgeIndex g)"
    by blast
  from s ok have g': "g5 = g'" by simp
  from f ok have eid: "eid0 = eid" by simp
  from e0 eid show "eid = (if allowMultiEdges (options g)
                then getEdgeKey a b @ ''#'' @ show_nat (nextEdgeId g) else getEdgeKey a b)" by simp
  from n g' show "nextEdgeId g' = (if allowMultiEdges (options g) then nextEdgeId g + 1 else nextEdgeId g)"
    by simp
  from e g' eid show "edges g' = AList.update eid \<lparr>edge_id = eid, edge_from = a, edge_to = b, edge_metadata = md\<rparr> (edges g)"
    by simp
  from i g' eid show "edgeIndex g' = AList.update (getEdgeKey a b)
          (set_add (case map_of (edgeIndex g) (getEdgeKey a b) of None \<Rightarrow> [] | Some bk \<Rightarrow> bk) eid)
          (edgeIndex g)" by simp
qed

lemma addEdge_counter:
  "nextEdgeId g \<le> nextEdgeId (snd (addEdge g a b md)) \<and> options (snd (addEdge g a b md)) = options g"
proof (cases "has (nodes g) a \<and> has (nodes g) b
      \<and> (allowSelfLoops (options g) \<or> a \<noteq> b)
      \<and> (allowMultiEdges (options g) \<or> \<not> has (edgeIndex g) (getEdgeKey a b))")
  case False
  from addEdge_rejects [OF False, of md] show ?thesis by simp
next
  case True
  then have c: "has (nodes g) a" "has (nodes g) b" "allowSelfLoops (options g) \<or> a \<noteq> b"
    "allowMultiEdges (options g) \<or> \<not> has (edgeIndex g) (getEdgeKey a b)" by simp_all
  from addEdge_accept [OF c, of md] obtain g5 where
    s: "snd (addEdge g a b md) = g5"
    and n: "nextEdgeId g5 = (if allowMultiEdges (options g) then nextEdgeId g + 1 else nextEdgeId g)"
    and o: "options g5 = options g" by blast
  from n have "nextEdgeId g \<le> nextEdgeId g5" by simp
  with o s show ?thesis by simp
qed

lemma addNode_counter:
  "nextEdgeId (snd (addNode g i md)) = nextEdgeId g \<and> options (snd (addNode g i md)) = options g"
  by (simp add: addNode_def Let_def)

lemma grown_counter:
  "grown g h \<Longrightarrow> nextEdgeId g \<le> nextEdgeId h \<and> options h = options g"
proof (induction rule: grown.induct)
  case (grown_refl g)
  show ?case by simp
next
  case (grown_addNode g h i md)
  with addNode_counter [of h i md] show ?case by simp
next
  case (grown_addEdge g h a b emd)
  with addEdge_counter [of h a b emd] show ?case by simp
qed

text \<open>
  C4, as the code has it. Under multi-edge mode every successful \<open>addEdge\<close> call, the
  first edge of its ordered pair included, returns as identifier the ordered-pair
  encoding followed by \<open>#\<close> and the decimal value of the engine's edge counter at the
  time of the call. The edge is stored in the edge map under that identifier and carries
  it as its id, the identifier is in the edge-index bucket of the pair, and the counter is
  one larger afterwards. The counter is engine-wide, not per pair: every later successful
  \<open>addEdge\<close> call that is reached through \<open>addNode\<close> and \<open>addEdge\<close> calls only gets
  a strictly larger number as suffix, whatever its pair. \<open>clear\<close> sets the counter back
  to 0.
\<close>

theorem multi_edge_id:
  "(allowMultiEdges (options g) \<and> addEdge g from to emd = (Inr eid, g') \<longrightarrow>
     eid = getEdgeKey from to @ ''#'' @ show_nat (nextEdgeId g) \<and>
     map_of (edges g') eid =
       Some \<lparr>edge_id = eid, edge_from = from, edge_to = to, edge_metadata = emd\<rparr> \<and>
     (\<exists>bucket. map_of (edgeIndex g') (getEdgeKey from to) = Some bucket \<and> eid \<in> set bucket) \<and>
     nextEdgeId g' = nextEdgeId g + 1 \<and>
     (\<forall>h a b md eid2 h2. grown g' h \<and> addEdge h a b md = (Inr eid2, h2) \<longrightarrow>
        (\<exists>n. nextEdgeId g < n \<and> eid2 = getEdgeKey a b @ ''#'' @ show_nat n))) \<and>
   nextEdgeId (clear g) = 0"
proof (intro conjI impI)
  show "nextEdgeId (clear g) = 0" by (simp add: clear_def)
next
  assume a: "allowMultiEdges (options g) \<and> addEdge g from to emd = (Inr eid, g')"
  then have m: "allowMultiEdges (options g)" and ok: "addEdge g from to emd = (Inr eid, g')" by simp_all
  note s = addEdge_success [OF ok]
  from s(1) m show e: "eid = getEdgeKey from to @ ''#'' @ show_nat (nextEdgeId g)" by simp
  from s(3) show "map_of (edges g') eid =
       Some \<lparr>edge_id = eid, edge_from = from, edge_to = to, edge_metadata = emd\<rparr>"
    by (simp add: update_conv')
  let ?b = "set_add (case map_of (edgeIndex g) (getEdgeKey from to) of None \<Rightarrow> [] | Some bk \<Rightarrow> bk) eid"
  from s(4) have "map_of (edgeIndex g') (getEdgeKey from to) = Some ?b" by (simp add: update_conv')
  moreover have "eid \<in> set ?b" by (simp add: set_set_add)
  ultimately show "\<exists>bucket. map_of (edgeIndex g') (getEdgeKey from to) = Some bucket \<and> eid \<in> set bucket"
    by blast
  from s(2) m show n: "nextEdgeId g' = nextEdgeId g + 1" by simp
  from ok have sg: "snd (addEdge g from to emd) = g'" by simp
  from addEdge_counter [of g "from" to emd] sg have og: "options g' = options g" by simp
  show "\<forall>h a b md eid2 h2. grown g' h \<and> addEdge h a b md = (Inr eid2, h2) \<longrightarrow>
        (\<exists>n. nextEdgeId g < n \<and> eid2 = getEdgeKey a b @ ''#'' @ show_nat n)"
  proof (intro allI impI)
    fix h a b md eid2 h2
    assume h: "grown g' h \<and> addEdge h a b md = (Inr eid2, h2)"
    then have gr: "grown g' h" and ok2: "addEdge h a b md = (Inr eid2, h2)" by simp_all
    from grown_counter [OF gr] have c: "nextEdgeId g' \<le> nextEdgeId h" and o: "options h = options g'"
      by simp_all
    from o og m have "allowMultiEdges (options h)" by simp
    with addEdge_success(1) [OF ok2] have "eid2 = getEdgeKey a b @ ''#'' @ show_nat (nextEdgeId h)"
      by simp
    moreover from c n have "nextEdgeId g < nextEdgeId h" by simp
    ultimately show "\<exists>n. nextEdgeId g < n \<and> eid2 = getEdgeKey a b @ ''#'' @ show_nat n" by blast
  qed
qed

lemma gM0_value:
  "gM0 = \<lparr>nodes = [(''A'', \<lparr>node_id = ''A'', node_metadata = None\<rparr>),
                    (''B'', \<lparr>node_id = ''B'', node_metadata = None\<rparr>)],
          edges = [], adjacencyList = [(''A'', []), (''B'', [])],
          reverseAdjacencyList = [(''A'', []), (''B'', [])], edgeIndex = [], nextEdgeId = 0,
          options = \<lparr>allowSelfLoops = True, allowMultiEdges = True, validateOnConstruction = True\<rparr>\<rparr>"
  by (simp add: gM0_def addNode_def new_graph_def has_def Let_def)

lemma gM1_first: "addEdge gM0 ''A'' ''B'' None = (Inr ''1:A|1:B#0'', gM1)"
  unfolding gM1_def
  by (rule prod_eqI)
    (simp_all add: gM0_value addEdge_def has_def Let_def getEdgeKey_A_B
      show_nat_digit digit_char_0 validateEdgeInvariants_def set_has_def set_add_def)

lemma gM1_value:
  "gM1 = \<lparr>nodes = [(''A'', \<lparr>node_id = ''A'', node_metadata = None\<rparr>),
                    (''B'', \<lparr>node_id = ''B'', node_metadata = None\<rparr>)],
          edges = [(''1:A|1:B#0'', \<lparr>edge_id = ''1:A|1:B#0'', edge_from = ''A'', edge_to = ''B'',
                                     edge_metadata = None\<rparr>)],
          adjacencyList = [(''A'', [''B'']), (''B'', [])],
          reverseAdjacencyList = [(''A'', []), (''B'', [''A''])],
          edgeIndex = [(''1:A|1:B'', [''1:A|1:B#0''])], nextEdgeId = 1,
          options = \<lparr>allowSelfLoops = True, allowMultiEdges = True, validateOnConstruction = True\<rparr>\<rparr>"
  by (simp add: gM1_def gM0_value addEdge_def has_def Let_def getEdgeKey_A_B
      show_nat_digit digit_char_0 validateEdgeInvariants_def set_has_def set_add_def)

lemma gM1_second: "fst (addEdge gM1 ''B'' ''A'' None) = Inr ''1:B|1:A#1''"
  using digit_char_1
  by (simp add: gM1_value addEdge_def has_def Let_def getEdgeKey_B_A
      show_nat_digit validateEdgeInvariants_def set_has_def set_add_def)

lemma gM1_cleared:
  "snd (addNode (snd (addNode (clear gM1) ''A'' None)) ''B'' None) = gM0"
  by (simp add: gM1_value gM0_value clear_def addNode_def has_def Let_def)

text \<open>
  In the engine \<open>gM0\<close>: the first edge from A to B gets \<open>#0\<close> and is stored under that
  identifier, the first edge from B to A then gets \<open>#1\<close>, and after \<open>clear\<close> and the
  same two nodes the first edge from A to B gets \<open>#0\<close> again.
\<close>

theorem multi_edge_id_witness:
  "allowMultiEdges (options gM0) \<and>
   addEdge gM0 ''A'' ''B'' None = (Inr ''1:A|1:B#0'', gM1) \<and>
   nextEdgeId gM0 = 0 \<and>
   ''1:A|1:B#0'' = getEdgeKey ''A'' ''B'' @ ''#'' @ show_nat 0 \<and>
   map_of (edges gM1) ''1:A|1:B#0'' =
     Some \<lparr>edge_id = ''1:A|1:B#0'', edge_from = ''A'', edge_to = ''B'', edge_metadata = None\<rparr> \<and>
   (\<exists>bucket. map_of (edgeIndex gM1) (getEdgeKey ''A'' ''B'') = Some bucket \<and>
      ''1:A|1:B#0'' \<in> set bucket) \<and>
   nextEdgeId gM1 = 1 \<and>
   grown gM1 gM1 \<and>
   fst (addEdge gM1 ''B'' ''A'' None) = Inr ''1:B|1:A#1'' \<and>
   nextEdgeId (clear gM1) = 0 \<and>
   fst (addEdge (snd (addNode (snd (addNode (clear gM1) ''A'' None)) ''B'' None)) ''A'' ''B'' None)
     = Inr ''1:A|1:B#0''"
proof -
  have m: "allowMultiEdges (options gM0)" by (simp add: gM0_value)
  have z: "nextEdgeId gM0 = 0" by (simp add: gM0_value)
  note t = multi_edge_id [of gM0 "''A''" "''B''" None "''1:A|1:B#0''" gM1]
  from t have c: "nextEdgeId (clear gM0) = 0" by (rule conjunct2)
  note q = t [THEN conjunct1, THEN mp, OF conjI [OF m gM1_first]]
  note e = q [THEN conjunct1]
  note s = q [THEN conjunct2, THEN conjunct1]
  note b = q [THEN conjunct2, THEN conjunct2, THEN conjunct1]
  note n = q [THEN conjunct2, THEN conjunct2, THEN conjunct2, THEN conjunct1]
  from e z have e': "''1:A|1:B#0'' = getEdgeKey ''A'' ''B'' @ ''#'' @ show_nat 0" by simp
  from n z have n': "nextEdgeId gM1 = 1" by simp
  have g: "grown gM1 gM1" by (rule grown_refl)
  have cl: "nextEdgeId (clear gM1) = 0" by (simp add: clear_def)
  have again: "fst (addEdge (snd (addNode (snd (addNode (clear gM1) ''A'' None)) ''B'' None)) ''A'' ''B'' None)
     = Inr ''1:A|1:B#0''"
    unfolding gM1_cleared using gM1_first by simp
  from m gM1_first z e' s b n' g gM1_second cl again show ?thesis by (intro conjI)
qed

text \<open>
  The claim as the spec words it fails: in a fresh multi-edge engine with nodes A and B,
  the first edge from A to B already carries the suffix \<open>#0\<close>, so its identifier is not
  the bare ordered-pair encoding; and the first edge from B to A, the only edge of its
  pair, carries the suffix \<open>#1\<close>: the numbering is not per pair.
\<close>

theorem first_multi_edge_has_suffix:
  "fst (addEdge (snd (addNode (snd (addNode
      (new_graph None (Some True) None :: (unit, unit) DirectedGraph) ''A'' None)) ''B'' None))
        ''A'' ''B'' None) = Inr (getEdgeKey ''A'' ''B'' @ ''#0'')
   \<and> getEdgeKey ''A'' ''B'' @ ''#0'' \<noteq> getEdgeKey ''A'' ''B''
   \<and> fst (addEdge (snd (addEdge (snd (addNode (snd (addNode
      (new_graph None (Some True) None :: (unit, unit) DirectedGraph) ''A'' None)) ''B'' None))
        ''A'' ''B'' None)) ''B'' ''A'' None) = Inr (getEdgeKey ''B'' ''A'' @ ''#1'')
   \<and> getEdgeKey ''B'' ''A'' @ ''#1'' \<noteq> getEdgeKey ''B'' ''A''"
  using gM1_first gM1_second
  by (simp add: gM0_def [symmetric] gM1_def [symmetric] getEdgeKey_A_B getEdgeKey_B_A)
end
